(* ===== verification/Rust_Prelude.thy ===== *)
theory Rust_Prelude
  imports Main "HOL-Library.Word" "HOL-Library.Multiset" "HOL-Library.AList"
begin

text \<open>
  Shared vocabulary of the development: Rust results, machine bounds, the checked, saturating
  and wrapping integer operations the sources call, \<^verbatim>\<open>Vec\<close> operations, and the generic facts
  about lists and multisets that the component theories rest on.

  Conventions. A Rust \<^verbatim>\<open>usize\<close> or \<^verbatim>\<open>u64\<close> is a \<^typ>\<open>nat\<close>; where the source relies on a width
  (\<^verbatim>\<open>checked_add\<close>, \<^verbatim>\<open>saturating_mul\<close>, an unchecked product of caller-supplied sizes) the bound or
  the reduction modulo \<open>2 ^ 64\<close> is written out. A \<^verbatim>\<open>u32\<close> that the source lets wrap is a
  \<^typ>\<open>32 word\<close>. A \<^verbatim>\<open>Result\<close> is a sum with the error on the left. A panic is an error value of
  the component's error type.
\<close>

section \<open>Results\<close>

abbreviation Ok :: "'a \<Rightarrow> 'e + 'a" where
  "Ok \<equiv> Inr"

abbreviation Err :: "'e \<Rightarrow> 'e + 'a" where
  "Err \<equiv> Inl"

definition is_ok :: "'e + 'a \<Rightarrow> bool" where
  "is_ok r = (case r of Inl _ \<Rightarrow> False | Inr _ \<Rightarrow> True)"

lemma is_ok_simps [simp]: "is_ok (Ok x)" "\<not> is_ok (Err e)"
  by (simp_all add: is_ok_def)

lemma is_ok_iff: "is_ok r \<longleftrightarrow> (\<exists>x. r = Ok x)"
  by (cases r) auto

lemma not_is_ok_iff: "\<not> is_ok r \<longleftrightarrow> (\<exists>e. r = Err e)"
  by (cases r) auto

section \<open>Machine integers\<close>

definition u32_max :: nat where
  "u32_max = 2 ^ 32 - 1"

definition u64_max :: nat where
  "u64_max = 2 ^ 64 - 1"

definition i32_max :: nat where
  "i32_max = 2 ^ 31 - 1"

definition wrap64 :: "nat \<Rightarrow> nat" where
  "wrap64 n = n mod 2 ^ 64"

definition checked_add32 :: "nat \<Rightarrow> nat \<Rightarrow> nat option" where
  "checked_add32 a b = (if a + b \<le> u32_max then Some (a + b) else None)"

definition checked_add64 :: "nat \<Rightarrow> nat \<Rightarrow> nat option" where
  "checked_add64 a b = (if a + b \<le> u64_max then Some (a + b) else None)"

definition checked_mul64 :: "nat \<Rightarrow> nat \<Rightarrow> nat option" where
  "checked_mul64 a b = (if a * b \<le> u64_max then Some (a * b) else None)"

definition checked_sub :: "nat \<Rightarrow> nat \<Rightarrow> nat option" where
  "checked_sub a b = (if b \<le> a then Some (a - b) else None)"

definition saturating_add64 :: "nat \<Rightarrow> nat \<Rightarrow> nat" where
  "saturating_add64 a b = min (a + b) u64_max"

definition saturating_mul64 :: "nat \<Rightarrow> nat \<Rightarrow> nat" where
  "saturating_mul64 a b = min (a * b) u64_max"

text \<open>Truncated subtraction of naturals is Rust's \<^verbatim>\<open>saturating_sub\<close>.\<close>

abbreviation saturating_sub :: "nat \<Rightarrow> nat \<Rightarrow> nat" where
  "saturating_sub a b \<equiv> a - b"

definition div_ceil :: "nat \<Rightarrow> nat \<Rightarrow> nat" where
  "div_ceil a b = (if a mod b > 0 then a div b + 1 else a div b)"

text \<open>The cast \<^verbatim>\<open>x as i32\<close>: the low 32 bits read in two's complement.\<close>

definition as_i32 :: "nat \<Rightarrow> int" where
  "as_i32 n = (let m = n mod 2 ^ 32 in if m \<le> i32_max then int m else int m - 2 ^ 32)"

lemma as_i32_small [simp]: "n \<le> i32_max \<Longrightarrow> as_i32 n = int n"
  by (simp add: as_i32_def i32_max_def Let_def)

lemma checked_add32_Some: "checked_add32 a b = Some c \<longleftrightarrow> c = a + b \<and> a + b \<le> u32_max"
  by (auto simp: checked_add32_def)

lemma checked_add64_Some: "checked_add64 a b = Some c \<longleftrightarrow> c = a + b \<and> a + b \<le> u64_max"
  by (auto simp: checked_add64_def)

lemma checked_mul64_Some: "checked_mul64 a b = Some c \<longleftrightarrow> c = a * b \<and> a * b \<le> u64_max"
  by (auto simp: checked_mul64_def)

lemma checked_sub_Some: "checked_sub a b = Some c \<longleftrightarrow> b \<le> a \<and> c = a - b"
  by (auto simp: checked_sub_def)

lemmas checked_Some = checked_add32_Some checked_add64_Some checked_mul64_Some checked_sub_Some

lemma wrap64_small [simp]: "n \<le> u64_max \<Longrightarrow> wrap64 n = n"
  by (simp add: wrap64_def u64_max_def)

lemma wrap64_le: "wrap64 n \<le> n"
  by (simp add: wrap64_def)

lemma div_ceil_mult: "div_ceil a b * b = a div b * b + (if a mod b > 0 then b else 0)"
  by (simp add: div_ceil_def add_mult_distrib)

lemma div_ceil_mult_ge: "0 < b \<Longrightarrow> a \<le> div_ceil a b * b"
  using div_mult_mod_eq [of a b] mod_less_divisor [of b a] unfolding div_ceil_mult
  by (split if_split) linarith

lemma div_ceil_mult_less: "0 < b \<Longrightarrow> div_ceil a b * b < a + b"
  using div_mult_mod_eq [of a b] unfolding div_ceil_mult
  by (split if_split) linarith

lemma div_ceil_le_iff: "0 < b \<Longrightarrow> div_ceil a b \<le> k \<longleftrightarrow> a \<le> k * b"
proof
  assume b: "0 < b" and le: "div_ceil a b \<le> k"
  have "a \<le> div_ceil a b * b" by (rule div_ceil_mult_ge [OF b])
  also have "\<dots> \<le> k * b" using le by simp
  finally show "a \<le> k * b" .
next
  assume b: "0 < b" and le: "a \<le> k * b"
  have "div_ceil a b * b < k * b + b" using div_ceil_mult_less [OF b, of a] le by linarith
  then have "div_ceil a b * b < (k + 1) * b" by (simp add: add_mult_distrib)
  then show "div_ceil a b \<le> k" using b by (metis Suc_eq_plus1 less_Suc_eq_le mult_less_cancel2)
qed

section \<open>Vectors\<close>

text \<open>\<^verbatim>\<open>Vec::pop\<close>: the last element and the rest, or nothing.\<close>

definition vec_pop :: "'a list \<Rightarrow> ('a \<times> 'a list) option" where
  "vec_pop xs = (if xs = [] then None else Some (last xs, butlast xs))"

text \<open>\<^verbatim>\<open>slice::get\<close>.\<close>

definition vec_get :: "'a list \<Rightarrow> nat \<Rightarrow> 'a option" where
  "vec_get xs i = (if i < length xs then Some (xs ! i) else None)"

text \<open>\<^verbatim>\<open>Iterator::position\<close>.\<close>

fun position :: "('a \<Rightarrow> bool) \<Rightarrow> 'a list \<Rightarrow> nat option" where
  "position P [] = None"
| "position P (x # xs) = (if P x then Some 0 else map_option Suc (position P xs))"

lemma vec_pop_Some: "vec_pop xs = Some (x, ys) \<longleftrightarrow> xs = ys @ [x]"
  by (auto simp: vec_pop_def)

lemma vec_pop_None [simp]: "vec_pop xs = None \<longleftrightarrow> xs = []"
  by (simp add: vec_pop_def)

lemma vec_get_Some: "vec_get xs i = Some x \<longleftrightarrow> i < length xs \<and> x = xs ! i"
  by (auto simp: vec_get_def)

lemma position_Some:
  "position P xs = Some i \<longleftrightarrow> i < length xs \<and> P (xs ! i) \<and> (\<forall>j < i. \<not> P (xs ! j))"
proof (induction xs arbitrary: i)
  case Nil
  then show ?case by simp
next
  case (Cons x xs)
  show ?case
  proof (cases i)
    case 0
    then show ?thesis by auto
  next
    case (Suc k)
    have "(\<forall>j < Suc k. \<not> P ((x # xs) ! j)) \<longleftrightarrow> \<not> P x \<and> (\<forall>j < k. \<not> P (xs ! j))"
      by (auto simp: less_Suc_eq_0_disj)
    then show ?thesis using Suc Cons.IH [of k] by auto
  qed
qed

lemma position_None: "position P xs = None \<longleftrightarrow> (\<forall>x \<in> set xs. \<not> P x)"
  by (induction xs) auto

lemma position_witness: "x \<in> set xs \<Longrightarrow> P x \<Longrightarrow> \<exists>i. position P xs = Some i"
  by (cases "position P xs") (auto simp: position_None)

text \<open>\<^verbatim>\<open>Iterator::min_by_key\<close>: the first element of least key.\<close>

fun min_by_key :: "('a \<Rightarrow> nat) \<Rightarrow> 'a list \<Rightarrow> 'a option" where
  "min_by_key f [] = None"
| "min_by_key f (x # xs) =
     (case min_by_key f xs of None \<Rightarrow> Some x | Some y \<Rightarrow> if f x \<le> f y then Some x else Some y)"

lemma min_by_key_None [simp]: "min_by_key f xs = None \<longleftrightarrow> xs = []"
  by (cases xs) (auto split: option.splits)

lemma min_by_key_Some:
  "min_by_key f xs = Some x \<Longrightarrow> x \<in> set xs \<and> (\<forall>y \<in> set xs. f x \<le> f y)"
proof (induction xs arbitrary: x)
  case (Cons z zs)
  then show ?case
    by (cases "min_by_key f zs") (auto split: if_splits intro: order_trans)
qed simp

section \<open>Lists updated in place, and sums over them\<close>

lemma sum_list_update_nat:
  fixes xs :: "nat list"
  shows "i < length xs \<Longrightarrow> sum_list (xs[i := x]) + xs ! i = sum_list xs + x"
proof (induction xs arbitrary: i)
  case Nil
  then show ?case by simp
next
  case (Cons y ys)
  then show ?case by (cases i) (auto simp: algebra_simps)
qed

lemma mset_concat_update:
  "i < length xss \<Longrightarrow> mset (concat (xss[i := ys])) + mset (xss ! i) = mset (concat xss) + mset ys"
proof (induction xss arbitrary: i)
  case Nil
  then show ?case by simp
next
  case (Cons zs zss)
  then show ?case by (cases i) (auto simp: algebra_simps)
qed

lemma count_mset_nth_pos: "i < length xs \<Longrightarrow> 0 < count (mset xs) (xs ! i)"
  by (simp add: count_mset_gt_0)

lemma mset_update_nth:
  "i < length xs \<Longrightarrow> mset (xs[i := y]) = add_mset y (mset xs - {#xs ! i#})"
  by (simp add: mset_update)

section \<open>Association lists as hash maps\<close>

lemma delete_shorter: "map_of xs i \<noteq> None \<Longrightarrow> length (AList.delete i xs) < length xs"
proof -
  assume "map_of xs i \<noteq> None"
  then obtain v where "(i, v) \<in> set xs" by (auto dest: map_of_SomeD)
  then show ?thesis
    using length_filter_less [of "(i, v)" xs "\<lambda>(k, _). i \<noteq> k"] by (simp add: AList.delete_eq)
qed

lemma mset_delete:
  "distinct (map fst xs) \<Longrightarrow> map_of xs k = Some v \<Longrightarrow> mset xs = add_mset (k, v) (mset (AList.delete k xs))"
proof (induction xs)
  case (Cons x xs)
  obtain a b where x: "x = (a, b)" by fastforce
  have "AList.delete a xs = xs" if "k = a"
    using Cons.prems(1) that by (auto simp: x AList.delete_eq filter_id_conv intro: rev_image_eqI)
  then show ?case using Cons by (cases "k = a") (auto simp: x)
qed simp

lemma set_delete: "distinct (map fst xs) \<Longrightarrow> set (AList.delete k xs) = {x \<in> set xs. fst x \<noteq> k}"
  by (auto simp: AList.delete_eq)

section \<open>Evaluation at concrete sizes\<close>

named_theorems run \<open>unfolding rules that evaluate the operations on concrete values\<close>

lemma list_update_numeral [run]: "(x # xs)[numeral k := y] = x # xs[pred_numeral k := y]"
  by (simp add: numeral_eq_Suc)

lemma upt_zero_numeral [run]: "[0 ..< numeral k] = [0 ..< pred_numeral k] @ [pred_numeral k]"
  by (simp add: numeral_eq_Suc)

lemma replicate_numeral_run [run]: "replicate (numeral k) x = x # replicate (pred_numeral k) x"
  by (simp add: numeral_eq_Suc)

declare Let_def [run] u32_max_def [run] u64_max_def [run] i32_max_def [run] wrap64_def [run]
  checked_add32_def [run] checked_add64_def [run] checked_mul64_def [run] checked_sub_def [run]
  saturating_add64_def [run] saturating_mul64_def [run] div_ceil_def [run] vec_pop_def [run]
  vec_get_def [run] is_ok_def [run]

end
