(* ===== verification/Kv_Slots.thy ===== *)
theory Kv_Slots
  imports Rust_Prelude
begin

text \<open>
  The host side of the multi-slot KV descriptors, \<^verbatim>\<open>crates/rdna-compute/src/kv_slots.rs\<close>: the slot
  descriptor and its paged and legacy address translation, the flat list of query-row tiles,
  the memory preflight, and the row gate of the VMM descriptors. The arena builders of the
  same file only fill test data and are left out.
\<close>

section \<open>Slot descriptors\<close>

record kv_slot_desc =
  kd_block_table :: nat
  kd_legacy_k_base :: nat
  kd_legacy_v_base :: nat
  kd_seq_len :: int
  kd_page_tokens :: int

text \<open>\<^verbatim>\<open>page_pool::PAGE_TOKENS\<close>.\<close>

definition PAGE_TOKENS :: nat where
  "PAGE_TOKENS = 128"

lemma PAGE_TOKENS_pos [simp]: "0 < PAGE_TOKENS"
  by (simp add: PAGE_TOKENS_def)

definition legacy_cap :: "nat \<Rightarrow> nat" where
  "legacy_cap seq_len = div_ceil seq_len PAGE_TOKENS * PAGE_TOKENS"

definition total_rows :: "nat list \<Rightarrow> nat" where
  "total_rows slot_query_counts = sum_list slot_query_counts"

section \<open>Query-row tiles\<close>

text \<open>The inner \<^verbatim>\<open>while row0 < m\<close> loop; \<^verbatim>\<open>br\<close> is positive at its only caller.\<close>

function tile_rows :: "nat \<Rightarrow> nat \<Rightarrow> nat \<Rightarrow> nat list" where
  "tile_rows br m row0 = (if 0 < br \<and> row0 < m then row0 # tile_rows br m (row0 + br) else [])"
  by pat_completeness auto
termination
  by (relation "measure (\<lambda>(br, m, row0). m - row0)") auto

declare tile_rows.simps [simp del]

text \<open>The outer loop over the slots, from slot index \<open>slot\<close> with \<open>global\<close> rows before it.\<close>

fun build_tiles_from :: "nat \<Rightarrow> nat \<Rightarrow> nat \<Rightarrow> nat list \<Rightarrow> int list \<times> int list \<times> int list" where
  "build_tiles_from br slot global [] = ([], [], [])"
| "build_tiles_from br slot global (m # ms) =
     (let rows = tile_rows br m 0;
          (ts, r0, qb) = build_tiles_from br (slot + 1) (global + m) ms
      in (map (\<lambda>_. as_i32 slot) rows @ ts,
          map as_i32 rows @ r0,
          map (\<lambda>r. as_i32 (global + r)) rows @ qb))"

text \<open>\<open>None\<close> is the failed \<^verbatim>\<open>assert!(br > 0)\<close>.\<close>

definition build_tiles :: "nat list \<Rightarrow> nat \<Rightarrow> (int list \<times> int list \<times> int list) option" where
  "build_tiles slot_query_counts br =
     (if 0 < br then Some (build_tiles_from br 0 0 slot_query_counts) else None)"

section \<open>Memory preflight\<close>

definition R9700_VRAM_BYTES :: nat where
  "R9700_VRAM_BYTES = 32 * 1024 * 1024 * 1024"

definition HEADROOM_BYTES :: nat where
  "HEADROOM_BYTES = 8 * 1024 * 1024 * 1024"

text \<open>
  What the checks read from the process and the host: whether the OOM guard is on, whether the
  GPU shares system memory, and the available byte counts (\<open>None\<close> when unreadable).
\<close>

record host_env =
  he_guard :: bool
  he_uma :: bool
  he_host_available :: "nat option"
  he_mem_available :: "nat option"

datatype preflight_error =
    OverBudget nat nat
  | OverHeadroom nat nat
  | UnreadableMemory nat

definition preflight_headroom :: "nat \<Rightarrow> nat option \<Rightarrow> preflight_error + unit" where
  "preflight_headroom planned_bytes available =
     (case available of
        Some avail \<Rightarrow>
          if saturating_add64 planned_bytes HEADROOM_BYTES > avail
          then Err (OverHeadroom planned_bytes avail) else Ok ()
      | None \<Rightarrow> Err (UnreadableMemory planned_bytes))"

definition preflight_checks :: "host_env \<Rightarrow> nat \<Rightarrow> nat \<Rightarrow> bool \<Rightarrow> preflight_error + unit" where
  "preflight_checks env planned_bytes budget_bytes guard_active =
     (if planned_bytes > budget_bytes then Err (OverBudget planned_bytes budget_bytes)
      else if \<not> guard_active then Ok ()
      else preflight_headroom planned_bytes
             (if he_uma env then he_host_available env else he_mem_available env))"

definition preflight_alloc :: "host_env \<Rightarrow> nat \<Rightarrow> nat \<Rightarrow> preflight_error + unit" where
  "preflight_alloc env planned_bytes budget_bytes =
     preflight_checks env planned_bytes budget_bytes (he_guard env)"

section \<open>VMM row gate\<close>

record vmm_kv_slot_desc =
  vd_k_base :: nat
  vd_v_base :: nat
  vd_mapped_positions :: nat
  vd_logical_bound :: nat
  vd_owner_generation :: nat

definition vmm_masked :: vmm_kv_slot_desc where
  "vmm_masked = \<lparr>vd_k_base = 0, vd_v_base = 0, vd_mapped_positions = 0, vd_logical_bound = 0,
                 vd_owner_generation = 0\<rparr>"

datatype vmm_error =
    MaskedSlot
  | MappedBeyondBound nat nat
  | PositionUnmapped int nat
  | RowArraysDisagree nat nat nat
  | SlotOutOfRange nat int
  | GenerationMismatch nat nat nat

definition check_position :: "vmm_kv_slot_desc \<Rightarrow> int \<Rightarrow> vmm_error + unit" where
  "check_position d pos =
     (if vd_k_base d = 0 \<or> vd_v_base d = 0 \<or> vd_owner_generation d = 0 then Err MaskedSlot
      else if vd_mapped_positions d > vd_logical_bound d
      then Err (MappedBeyondBound (vd_mapped_positions d) (vd_logical_bound d))
      else if pos < 0 \<or> pos \<ge> int (vd_mapped_positions d)
      then Err (PositionUnmapped pos (vd_mapped_positions d))
      else Ok ())"

fun validate_vmm_rows_from ::
  "vmm_kv_slot_desc list \<Rightarrow> nat \<Rightarrow> int list \<Rightarrow> int list \<Rightarrow> nat list \<Rightarrow> vmm_error + unit" where
  "validate_vmm_rows_from descs row (slot # ss) (pos # ps) (generation # gs) =
     (case (if 0 \<le> slot then vec_get descs (nat slot) else None) of
        None \<Rightarrow> Err (SlotOutOfRange row slot)
      | Some d \<Rightarrow>
          if vd_owner_generation d \<noteq> generation
          then Err (GenerationMismatch row (vd_owner_generation d) generation)
          else (case check_position d pos of
                  Inl e \<Rightarrow> Err e
                | Inr _ \<Rightarrow> validate_vmm_rows_from descs (row + 1) ss ps gs))"
| "validate_vmm_rows_from descs row ss ps gs = Ok ()"

definition validate_vmm_rows ::
  "vmm_kv_slot_desc list \<Rightarrow> int list \<Rightarrow> int list \<Rightarrow> nat list \<Rightarrow> vmm_error + unit" where
  "validate_vmm_rows descs row_slot positions row_owner_generation =
     (if length row_slot \<noteq> length positions \<or> length row_slot \<noteq> length row_owner_generation
      then Err (RowArraysDisagree (length row_slot) (length positions) (length row_owner_generation))
      else validate_vmm_rows_from descs 0 row_slot positions row_owner_generation)"

section \<open>Facts\<close>

lemma preflight_alloc_Ok_budget:
  "preflight_alloc env planned budget = Ok () \<Longrightarrow> planned \<le> budget"
  by (simp add: preflight_alloc_def preflight_checks_def split: if_splits)

text \<open>The tile starts of one slot are the multiples of \<open>br\<close> below its row count.\<close>

lemma tile_rows_eq:
  "0 < br \<Longrightarrow> tile_rows br m (k * br) = map (\<lambda>j. j * br) [k ..< div_ceil m br]"
proof (induction "m - k * br" arbitrary: k rule: less_induct)
  case less
  show ?case
  proof (cases "k * br < m")
    case True
    then have k: "k < div_ceil m br"
      using div_ceil_le_iff [OF less.prems, of m k] by simp
    have "tile_rows br m (Suc k * br) = map (\<lambda>j. j * br) [Suc k ..< div_ceil m br]"
      by (rule less.hyps) (use True less.prems in auto)
    then show ?thesis
      using True less.prems k
      by (subst tile_rows.simps) (simp add: add.commute upt_conv_Cons)
  next
    case False
    then have "div_ceil m br \<le> k"
      using div_ceil_le_iff [OF less.prems, of m k] by simp
    then show ?thesis using False by (subst tile_rows.simps) simp
  qed
qed

text \<open>The reference: one triple per slot and multiple of \<open>br\<close> below its row count.\<close>

definition tile_spec :: "nat \<Rightarrow> nat \<Rightarrow> nat list \<Rightarrow> nat \<Rightarrow> (nat \<times> nat \<times> nat) list" where
  "tile_spec br slot ms global =
     concat (map (\<lambda>i. map (\<lambda>j. (slot + i, j * br, global + sum_list (take i ms) + j * br))
                        [0 ..< div_ceil (ms ! i) br]) [0 ..< length ms])"

lemma tile_spec_Cons:
  "tile_spec br slot (m # ms) global =
     map (\<lambda>j. (slot, j * br, global + j * br)) [0 ..< div_ceil m br] @
     tile_spec br (slot + 1) ms (global + m)"
proof -
  have "[0 ..< length (m # ms)] = 0 # map Suc [0 ..< length ms]"
    by (simp add: map_Suc_upt upt_conv_Cons del: upt_Suc)
  then show ?thesis
    by (simp add: tile_spec_def o_def add.assoc del: upt_Suc)
qed

lemma build_tiles_from_eq:
  assumes "0 < br"
  shows "build_tiles_from br slot global ms =
    (map (\<lambda>(s, r, q). as_i32 s) (tile_spec br slot ms global),
     map (\<lambda>(s, r, q). as_i32 r) (tile_spec br slot ms global),
     map (\<lambda>(s, r, q). as_i32 q) (tile_spec br slot ms global))"
proof (induction ms arbitrary: slot global)
  case Nil
  then show ?case by (simp add: tile_spec_def)
next
  case (Cons m ms)
  have "tile_rows br m 0 = map (\<lambda>j. j * br) [0 ..< div_ceil m br]"
    using tile_rows_eq [OF assms, of m 0] by simp
  then show ?case by (simp add: Cons.IH tile_spec_Cons o_def)
qed

lemma set_tile_spec:
  "x \<in> set (tile_spec br slot ms global) \<longleftrightarrow>
     (\<exists>i < length ms. \<exists>j < div_ceil (ms ! i) br.
        x = (slot + i, j * br, global + sum_list (take i ms) + j * br))"
  unfolding tile_spec_def by (simp add: Bex_def) (simp add: image_iff Bex_def)

lemma distinct_tile_spec:
  "0 < br \<Longrightarrow> distinct (map (\<lambda>x. (fst x, fst (snd x))) (tile_spec br slot ms global))"
proof (induction ms arbitrary: slot global)
  case Nil
  then show ?case by (simp add: tile_spec_def)
next
  case (Cons m ms)
  have "inj_on (\<lambda>j. (slot, j * br)) A" for A
    using Cons.prems by (auto simp: inj_on_def)
  then have "distinct (map (\<lambda>j. (slot, j * br)) [0 ..< div_ceil m br])"
    by (simp add: distinct_map)
  moreover have "(slot, r) \<notin> (\<lambda>x. (fst x, fst (snd x))) ` set (tile_spec br (slot + 1) ms (global + m))"
    for r by (auto simp: set_tile_spec)
  ultimately show ?case using Cons.IH [OF Cons.prems, of "slot + 1" "global + m"]
    by (auto simp: tile_spec_Cons o_def)
qed

lemma tile_spec_inj:
  assumes "0 < br" "t < length (tile_spec br slot ms global)"
    "t' < length (tile_spec br slot ms global)"
    "fst (tile_spec br slot ms global ! t) = fst (tile_spec br slot ms global ! t')"
    "fst (snd (tile_spec br slot ms global ! t)) = fst (snd (tile_spec br slot ms global ! t'))"
  shows "t = t'"
  using nth_eq_iff_index_eq [OF distinct_tile_spec [OF assms(1), of slot ms global], of t t'] assms(2-5)
  by simp

end
