(* ===== verification/Page_Pool.thy ===== *)
theory Page_Pool
  imports Kv_Slots
begin

text \<open>
  The paged KV allocator, \<^verbatim>\<open>crates/rdna-compute/src/page_pool.rs\<close>: per-page metadata and its
  lifecycle, block tables, allocation, prefix sharing, release, copy-on-write planning, cache
  and in-flight leases, and deferred reclaim. Every method of \<^verbatim>\<open>PagePool\<close> that changes state is a
  function returning the new pool (and the new table where it takes one) with its result; a
  failed \<^verbatim>\<open>assert!\<close>, \<^verbatim>\<open>expect\<close> or index is the error \<open>Panic\<close>. A \<^verbatim>\<open>Vec\<close> is a list with its end at
  the right, so the free list is popped from the right as in the source.
\<close>

section \<open>Data\<close>

datatype page_state = Free | Private | Sealed | CacheOnly | ReclaimPending

datatype lease_class = LeaseTable | LeaseCache | LeaseInFlight

record page_handle =
  ph_phys :: nat
  ph_epoch :: nat
  ph_generation :: "32 word"

record page_meta =
  pm_state :: page_state
  pm_generation :: "32 word"
  pm_table_refs :: nat
  pm_cache_refs :: nat
  pm_inflight_refs :: nat

definition page_meta_free :: page_meta where
  "page_meta_free = \<lparr>pm_state = Free, pm_generation = 0, pm_table_refs = 0, pm_cache_refs = 0,
                     pm_inflight_refs = 0\<rparr>"

text \<open>A sum of three \<^verbatim>\<open>u32\<close> counters, in \<^verbatim>\<open>u32\<close>.\<close>

definition total_refs :: "page_meta \<Rightarrow> nat" where
  "total_refs m = (pm_table_refs m + pm_cache_refs m + pm_inflight_refs m) mod 2 ^ 32"

record cow_copy =
  cc_logical_page :: nat
  cc_src_phys :: nat
  cc_dst_phys :: nat
  cc_valid_prefix_tokens :: nat
  cc_k_copy_bytes :: nat
  cc_v_copy_bytes :: nat

record cow_plan =
  cp_copies :: "cow_copy list"
  cp_armed :: bool

record block_table =
  bt_pages :: "nat list"
  bt_live_tokens :: nat

record page_pool =
  pp_n_pages :: nat
  pp_k_per_pos_bytes :: nat
  pp_v_per_pos_bytes :: nat
  pp_free_pages :: "nat list"
  pp_page_meta :: "page_meta list"
  pp_reclaim_pending :: "nat list"
  pp_epoch :: nat

datatype pool_error =
    ZeroPages | ZeroKStride | ZeroVStride
  | TooManyPages nat
  | ArenaOverflow
  | Preflight preflight_error
  | OutOfBounds nat
  | EpochMismatch nat nat
  | StaleHandle nat "32 word" "32 word"
  | UseAfterFree nat
  | TableUnderflow nat
  | NeedPages nat nat
  | SrcTooShort nat nat
  | PartialPage nat nat
  | DstNotEmpty nat
  | RefOverflow nat
  | IsFree nat
  | IsReclaimPending nat
  | ReleaseUnderflow
  | TailUnderflow nat
  | CannotSeal nat page_state
  | BadInterval
  | CowOom nat nat
  | CowTableChanged nat "nat option" nat
  | CowSrcUnowned nat
  | InflightUnderflow nat
  | CacheUnderflow nat
  | Panic

section \<open>Block tables\<close>

definition bt_new :: block_table where
  "bt_new = \<lparr>bt_pages = [], bt_live_tokens = 0\<rparr>"

definition num_pages :: "block_table \<Rightarrow> nat" where
  "num_pages t = length (bt_pages t)"

definition physical :: "block_table \<Rightarrow> nat \<Rightarrow> nat option" where
  "physical t lp = vec_get (bt_pages t) lp"

definition push_page :: "block_table \<Rightarrow> nat \<Rightarrow> block_table" where
  "push_page t page = t\<lparr>bt_pages := bt_pages t @ [page]\<rparr>"

text \<open>A list update outside the list changes nothing, as the guard of \<^verbatim>\<open>set_page\<close> has it.\<close>

definition set_page :: "block_table \<Rightarrow> nat \<Rightarrow> nat \<Rightarrow> block_table" where
  "set_page t lp phys =
     (if lp < length (bt_pages t) then t\<lparr>bt_pages := (bt_pages t)[lp := phys]\<rparr> else t)"

text \<open>The kept table and the freed pages. The only caller passes at most \<^verbatim>\<open>num_pages\<close>.\<close>

definition truncate :: "block_table \<Rightarrow> nat \<Rightarrow> block_table \<times> nat list" where
  "truncate t n =
     (t\<lparr>bt_pages := take n (bt_pages t), bt_live_tokens := min (bt_live_tokens t) (n * PAGE_TOKENS)\<rparr>,
      drop n (bt_pages t))"

text \<open>The bound in \<^verbatim>\<open>set_live_tokens\<close> is a \<^verbatim>\<open>debug_assert!\<close>; it is proved of the callers below.\<close>

definition set_live_tokens :: "block_table \<Rightarrow> nat \<Rightarrow> block_table" where
  "set_live_tokens t tokens = t\<lparr>bt_live_tokens := tokens\<rparr>"

section \<open>Construction\<close>

definition checked_arena_bytes :: "nat \<Rightarrow> nat \<Rightarrow> nat \<Rightarrow> pool_error + nat" where
  "checked_arena_bytes n k v =
     (if n > u32_max then Err (TooManyPages n)
      else case checked_mul64 PAGE_TOKENS k of
        None \<Rightarrow> Err ArenaOverflow
      | Some k_page \<Rightarrow>
          (case checked_mul64 PAGE_TOKENS v of
             None \<Rightarrow> Err ArenaOverflow
           | Some v_page \<Rightarrow>
               (case checked_add64 k_page v_page of
                  None \<Rightarrow> Err ArenaOverflow
                | Some page_bytes \<Rightarrow>
                    (case checked_mul64 page_bytes n of
                       None \<Rightarrow> Err ArenaOverflow
                     | Some total_bytes \<Rightarrow> Ok total_bytes))))"

definition with_checked_metadata :: "nat \<Rightarrow> nat \<Rightarrow> nat \<Rightarrow> page_pool" where
  "with_checked_metadata n k v =
     \<lparr>pp_n_pages = n, pp_k_per_pos_bytes = k, pp_v_per_pos_bytes = v,
      pp_free_pages = rev [0 ..< n], pp_page_meta = replicate n page_meta_free,
      pp_reclaim_pending = [], pp_epoch = 0\<rparr>"

definition pool_new_with_strides :: "host_env \<Rightarrow> nat \<Rightarrow> nat \<Rightarrow> nat \<Rightarrow> pool_error + page_pool" where
  "pool_new_with_strides env n k v =
     (if n = 0 \<or> k = 0 \<or> v = 0 then Err Panic
      else case checked_arena_bytes n k v of
        Inl e \<Rightarrow> Err e
      | Inr total_bytes \<Rightarrow>
          (case preflight_alloc env total_bytes R9700_VRAM_BYTES of
             Inl e \<Rightarrow> Err (Preflight e)
           | Inr _ \<Rightarrow> Ok (with_checked_metadata n k v)))"

definition pool_new :: "host_env \<Rightarrow> nat \<Rightarrow> nat \<Rightarrow> pool_error + page_pool" where
  "pool_new env n per_pos_bytes = pool_new_with_strides env n per_pos_bytes per_pos_bytes"

definition pool_new_external_with_strides :: "nat \<Rightarrow> nat \<Rightarrow> nat \<Rightarrow> pool_error + page_pool" where
  "pool_new_external_with_strides n k v =
     (if n = 0 then Err ZeroPages
      else if k = 0 then Err ZeroKStride
      else if v = 0 then Err ZeroVStride
      else case checked_arena_bytes n k v of
        Inl e \<Rightarrow> Err e
      | Inr _ \<Rightarrow> Ok (with_checked_metadata n k v))"

section \<open>Accessors\<close>

abbreviation meta :: "page_pool \<Rightarrow> nat \<Rightarrow> page_meta" where
  "meta p phys \<equiv> pp_page_meta p ! phys"

abbreviation put_meta :: "page_pool \<Rightarrow> nat \<Rightarrow> page_meta \<Rightarrow> page_pool" where
  "put_meta p phys m \<equiv> p\<lparr>pp_page_meta := (pp_page_meta p)[phys := m]\<rparr>"

definition k_page_bytes :: "page_pool \<Rightarrow> nat" where
  "k_page_bytes p = PAGE_TOKENS * pp_k_per_pos_bytes p"

definition v_page_bytes :: "page_pool \<Rightarrow> nat" where
  "v_page_bytes p = PAGE_TOKENS * pp_v_per_pos_bytes p"

definition pool_k_arena_bytes :: "page_pool \<Rightarrow> nat" where
  "pool_k_arena_bytes p = pp_n_pages p * k_page_bytes p"

definition pool_v_arena_bytes :: "page_pool \<Rightarrow> nat" where
  "pool_v_arena_bytes p = pp_n_pages p * v_page_bytes p"

definition pool_max_tokens :: "page_pool \<Rightarrow> nat" where
  "pool_max_tokens p = pp_n_pages p * PAGE_TOKENS"

definition check_phys :: "page_pool \<Rightarrow> nat \<Rightarrow> pool_error + unit" where
  "check_phys p phys = (if phys < pp_n_pages p then Ok () else Err (OutOfBounds phys))"

definition refcount :: "page_pool \<Rightarrow> nat \<Rightarrow> nat" where
  "refcount p phys = (if is_ok (check_phys p phys) then total_refs (meta p phys) else 0)"

definition page_state_of :: "page_pool \<Rightarrow> nat \<Rightarrow> page_state" where
  "page_state_of p phys = (if is_ok (check_phys p phys) then pm_state (meta p phys) else Free)"

definition page_generation :: "page_pool \<Rightarrow> nat \<Rightarrow> 32 word" where
  "page_generation p phys =
     (if is_ok (check_phys p phys) then pm_generation (meta p phys) else - 1)"

definition validate_handle :: "page_pool \<Rightarrow> page_handle \<Rightarrow> pool_error + unit" where
  "validate_handle p h =
     (if ph_epoch h \<noteq> pp_epoch p then Err (EpochMismatch (ph_epoch h) (pp_epoch p))
      else case check_phys p (ph_phys h) of
        Inl e \<Rightarrow> Err e
      | Inr _ \<Rightarrow>
          (let m = meta p (ph_phys h) in
           if pm_generation m \<noteq> ph_generation h
           then Err (StaleHandle (ph_phys h) (ph_generation h) (pm_generation m))
           else if pm_state m = Free then Err (UseAfterFree (ph_phys h))
           else Ok ()))"

section \<open>The structural self-check\<close>

text \<open>\<open>None\<close> is a failed assertion or an index out of range; \<open>seen\<close> is the running bit vector.\<close>

fun check_free_list :: "page_pool \<Rightarrow> bool list \<Rightarrow> nat list \<Rightarrow> bool list option" where
  "check_free_list p seen [] = Some seen"
| "check_free_list p seen (q # qs) =
     (if q < length (pp_page_meta p) \<and> pm_state (meta p q) = Free \<and> total_refs (meta p q) = 0
         \<and> q < length seen \<and> \<not> seen ! q
      then check_free_list p (seen[q := True]) qs else None)"

fun check_reclaim_list :: "page_pool \<Rightarrow> bool list \<Rightarrow> nat list \<Rightarrow> bool list option" where
  "check_reclaim_list p seen [] = Some seen"
| "check_reclaim_list p seen (q # qs) =
     (if q < length (pp_page_meta p) \<and> pm_state (meta p q) = ReclaimPending
         \<and> (pm_table_refs (meta p q) + pm_cache_refs (meta p q)) mod 2 ^ 32 = 0
         \<and> q < length seen \<and> \<not> seen ! q
      then check_reclaim_list p (seen[q := True]) qs else None)"

fun count_resident :: "page_meta list \<Rightarrow> nat option" where
  "count_resident [] = Some 0"
| "count_resident (m # ms) =
     (case pm_state m of
        Free \<Rightarrow> count_resident ms
      | ReclaimPending \<Rightarrow> count_resident ms
      | _ \<Rightarrow> if (pm_table_refs m + pm_cache_refs m) mod 2 ^ 32 > 0
             then map_option Suc (count_resident ms) else None)"

definition check_invariants :: "page_pool \<Rightarrow> bool" where
  "check_invariants p =
     (case check_free_list p (replicate (pp_n_pages p) False) (pp_free_pages p) of
        None \<Rightarrow> False
      | Some seen \<Rightarrow>
          (case check_reclaim_list p seen (pp_reclaim_pending p) of
             None \<Rightarrow> False
           | Some _ \<Rightarrow>
               (case count_resident (pp_page_meta p) of
                  None \<Rightarrow> False
                | Some resident \<Rightarrow>
                    length (pp_free_pages p) + length (pp_reclaim_pending p) + resident
                      = pp_n_pages p)))"

section \<open>Reference counts\<close>

text \<open>The three-line sequence that returns a page to the free list.\<close>

definition free_page :: "page_pool \<Rightarrow> nat \<Rightarrow> page_meta \<Rightarrow> page_pool" where
  "free_page p phys m =
     (put_meta p phys (m\<lparr>pm_state := Free, pm_generation := pm_generation m + 1\<rparr>))
       \<lparr>pp_free_pages := pp_free_pages p @ [phys]\<rparr>"

definition park_page :: "page_pool \<Rightarrow> nat \<Rightarrow> page_meta \<Rightarrow> page_pool" where
  "park_page p phys m =
     (put_meta p phys (m\<lparr>pm_state := ReclaimPending\<rparr>))
       \<lparr>pp_reclaim_pending := pp_reclaim_pending p @ [phys]\<rparr>"

definition dec_table_ref :: "page_pool \<Rightarrow> nat \<Rightarrow> page_pool \<times> (pool_error + unit)" where
  "dec_table_ref p phys =
     (case check_phys p phys of
        Inl e \<Rightarrow> (p, Err e)
      | Inr _ \<Rightarrow>
          (let m = meta p phys in
           if pm_table_refs m = 0 then (p, Err (TableUnderflow phys))
           else let m = m\<lparr>pm_table_refs := pm_table_refs m - 1\<rparr> in
             if pm_table_refs m = 0 then
               if pm_cache_refs m > 0 then (put_meta p phys (m\<lparr>pm_state := CacheOnly\<rparr>), Ok ())
               else if pm_inflight_refs m > 0 then (park_page p phys m, Ok ())
               else (free_page p phys m, Ok ())
             else (put_meta p phys m, Ok ())))"

definition release_reserved :: "page_pool \<Rightarrow> nat \<Rightarrow> page_pool" where
  "release_reserved p phys = free_page p phys ((meta p phys)\<lparr>pm_table_refs := 0\<rparr>)"

section \<open>Allocation\<close>

text \<open>
  One popped page, made private with one table reference: the body shared by the allocation
  loops and by the reservation of copy-on-write destinations. \<open>None\<close> is an empty free list.
\<close>

definition take_free :: "page_pool \<Rightarrow> (nat \<times> page_pool) option" where
  "take_free p =
     (case vec_pop (pp_free_pages p) of
        None \<Rightarrow> None
      | Some (page, rest) \<Rightarrow>
          (let m = meta p page;
               m = m\<lparr>pm_state := Private, pm_generation := pm_generation m + 1, pm_table_refs := 1\<rparr>
           in Some (page, (put_meta p page m)\<lparr>pp_free_pages := rest\<rparr>)))"

text \<open>The loop of \<^verbatim>\<open>alloc_pages\<close> and \<^verbatim>\<open>alloc_pages_checked\<close>; \<open>None\<close> is the \<^verbatim>\<open>expect\<close> on an empty list.\<close>

fun alloc_loop ::
  "page_pool \<Rightarrow> block_table \<Rightarrow> nat \<Rightarrow> (page_pool \<times> block_table \<times> page_handle list) option" where
  "alloc_loop p t 0 = Some (p, t, [])"
| "alloc_loop p t (Suc n) =
     (case take_free p of
        None \<Rightarrow> None
      | Some (page, p') \<Rightarrow>
          (let h = \<lparr>ph_phys = page, ph_epoch = pp_epoch p, ph_generation = pm_generation (meta p' page)\<rparr>
           in case alloc_loop p' (push_page t page) n of
                None \<Rightarrow> None
              | Some (p'', t', hs) \<Rightarrow> Some (p'', t', h # hs)))"

definition alloc_pages ::
  "page_pool \<Rightarrow> block_table \<Rightarrow> nat \<Rightarrow> page_pool \<times> block_table \<times> (pool_error + nat)" where
  "alloc_pages p t n =
     (let can_alloc = min n (length (pp_free_pages p))
      in case alloc_loop p t can_alloc of
           None \<Rightarrow> (p, t, Err Panic)
         | Some (p', t', _) \<Rightarrow> (p', t', Ok can_alloc))"

definition alloc_pages_checked ::
  "page_pool \<Rightarrow> block_table \<Rightarrow> nat \<Rightarrow> page_pool \<times> block_table \<times> (pool_error + page_handle list)" where
  "alloc_pages_checked p t n =
     (if n > length (pp_free_pages p)
      then (p, t, Err (NeedPages n (length (pp_free_pages p))))
      else case alloc_loop p t n of
        None \<Rightarrow> (p, t, Err Panic)
      | Some (p', t', hs) \<Rightarrow> (p', t', Ok hs))"

section \<open>Prefix sharing\<close>

text \<open>The loop over the shared physical pages. An error leaves what the loop has done so far.\<close>

fun share_loop ::
  "page_pool \<Rightarrow> block_table \<Rightarrow> nat list \<Rightarrow> page_pool \<times> block_table \<times> (pool_error + unit)" where
  "share_loop p dst [] = (p, dst, Ok ())"
| "share_loop p dst (phys # rest) =
     (case check_phys p phys of
        Inl e \<Rightarrow> (p, dst, Err e)
      | Inr _ \<Rightarrow>
          (case checked_add32 (pm_table_refs (meta p phys)) 1 of
             None \<Rightarrow> (p, dst, Err (RefOverflow phys))
           | Some r \<Rightarrow>
               share_loop (put_meta p phys ((meta p phys)\<lparr>pm_table_refs := r, pm_state := Sealed\<rparr>))
                 (push_page dst phys) rest))"

definition pool_share_prefix ::
  "page_pool \<Rightarrow> block_table \<Rightarrow> block_table \<Rightarrow> nat
     \<Rightarrow> page_pool \<times> block_table \<times> (pool_error + unit)" where
  "pool_share_prefix p src dst n =
     (if n > num_pages src then (p, dst, Err (SrcTooShort (num_pages src) n))
      else if n * PAGE_TOKENS > bt_live_tokens src
      then (p, dst, Err (PartialPage n (bt_live_tokens src)))
      else if num_pages dst \<noteq> 0 then (p, dst, Err (DstNotEmpty (num_pages dst)))
      else share_loop p dst (take n (bt_pages src)))"

definition check_attachable :: "page_pool \<Rightarrow> nat \<Rightarrow> pool_error + unit" where
  "check_attachable p phys =
     (case check_phys p phys of
        Inl e \<Rightarrow> Err e
      | Inr _ \<Rightarrow>
          (let m = meta p phys in
           if pm_state m = Free then Err (IsFree phys)
           else if pm_state m = ReclaimPending then Err (IsReclaimPending phys)
           else if pm_table_refs m = u32_max then Err (RefOverflow phys)
           else Ok ()))"

definition refcount_inc :: "page_pool \<Rightarrow> nat \<Rightarrow> page_pool \<times> (pool_error + unit)" where
  "refcount_inc p phys =
     (case check_phys p phys of
        Inl e \<Rightarrow> (p, Err e)
      | Inr _ \<Rightarrow>
          (let m = meta p phys in
           if pm_state m = Free then (p, Err (IsFree phys))
           else if pm_state m = ReclaimPending then (p, Err (IsReclaimPending phys))
           else case checked_add32 (pm_table_refs m) 1 of
             None \<Rightarrow> (p, Err (RefOverflow phys))
           | Some r \<Rightarrow>
               (put_meta p phys (m\<lparr>pm_table_refs := r,
                  pm_state := (if pm_state m = Private then Sealed else pm_state m)\<rparr>), Ok ())))"

section \<open>Release\<close>

text \<open>The release loop carries on past an underflow and remembers it.\<close>

fun release_loop :: "page_pool \<Rightarrow> nat list \<Rightarrow> page_pool \<times> bool" where
  "release_loop p [] = (p, False)"
| "release_loop p (phys # rest) =
     (let (p', r) = dec_table_ref p phys;
          (p'', had_error) = release_loop p' rest
      in (p'', \<not> is_ok r \<or> had_error))"

definition release_table ::
  "page_pool \<Rightarrow> block_table \<Rightarrow> page_pool \<times> block_table \<times> (pool_error + unit)" where
  "release_table p t =
     (let (p', had_error) = release_loop p (bt_pages t)
      in (p', t\<lparr>bt_pages := [], bt_live_tokens := 0\<rparr>,
          if had_error then Err ReleaseUnderflow else Ok ()))"

text \<open>The verify loop: the first page without a table reference, or an index panic.\<close>

fun verify_tail :: "page_pool \<Rightarrow> nat list \<Rightarrow> pool_error + unit" where
  "verify_tail p [] = Ok ()"
| "verify_tail p (phys # rest) =
     (if length (pp_page_meta p) \<le> phys then Err Panic
      else if pm_table_refs (meta p phys) = 0 then Err (TailUnderflow phys)
      else verify_tail p rest)"

text \<open>The apply loop, which returns at the first error.\<close>

fun dec_loop :: "page_pool \<Rightarrow> nat list \<Rightarrow> page_pool \<times> (pool_error + unit)" where
  "dec_loop p [] = (p, Ok ())"
| "dec_loop p (phys # rest) =
     (case dec_table_ref p phys of
        (p', Inl e) \<Rightarrow> (p', Err e)
      | (p', Inr _) \<Rightarrow> dec_loop p' rest)"

definition free_pages_from_tail ::
  "page_pool \<Rightarrow> block_table \<Rightarrow> nat \<Rightarrow> page_pool \<times> block_table \<times> (pool_error + unit)" where
  "free_pages_from_tail p t n =
     (let keep = saturating_sub (num_pages t) n
      in case verify_tail p (drop keep (bt_pages t)) of
           Inl e \<Rightarrow> (p, t, Err e)
         | Inr _ \<Rightarrow>
             (let (t', freed) = truncate t keep;
                  (p', r) = dec_loop p freed
              in (p', t', r)))"

definition ensure_capacity ::
  "page_pool \<Rightarrow> block_table \<Rightarrow> nat \<Rightarrow> page_pool \<times> block_table \<times> (pool_error + nat)" where
  "ensure_capacity p t n_tokens =
     (let needed_pages = div_ceil n_tokens PAGE_TOKENS;
          current_pages = num_pages t
      in if needed_pages \<le> current_pages then (p, set_live_tokens t n_tokens, Ok 0)
         else let to_alloc = needed_pages - current_pages
              in if to_alloc > length (pp_free_pages p)
                 then (p, t, Err (NeedPages to_alloc (length (pp_free_pages p))))
                 else (case alloc_pages p t to_alloc of
                         (p', t', Inl e) \<Rightarrow> (p', t', Err e)
                       | (p', t', Inr allocated) \<Rightarrow>
                           (p', set_live_tokens t' n_tokens, Ok allocated)))"

definition seal :: "page_pool \<Rightarrow> nat \<Rightarrow> page_pool \<times> (pool_error + unit)" where
  "seal p phys =
     (case check_phys p phys of
        Inl e \<Rightarrow> (p, Err e)
      | Inr _ \<Rightarrow>
          (let m = meta p phys in
           case pm_state m of
             Private \<Rightarrow> (put_meta p phys (m\<lparr>pm_state := Sealed\<rparr>), Ok ())
           | Sealed \<Rightarrow> (p, Ok ())
           | s \<Rightarrow> (p, Err (CannotSeal phys s))))"

section \<open>Copy-on-write\<close>

fun release_reserved_all :: "page_pool \<Rightarrow> nat list \<Rightarrow> page_pool" where
  "release_reserved_all p [] = p"
| "release_reserved_all p (d # ds) = release_reserved_all (release_reserved p d) ds"

text \<open>
  The loop of \<^verbatim>\<open>plan_cow\<close> over the logical pages still to visit; \<open>copies\<close> are the copies planned so
  far, whose destinations are the pages reserved so far.
\<close>

fun plan_cow_loop ::
  "page_pool \<Rightarrow> block_table \<Rightarrow> nat \<Rightarrow> nat list \<Rightarrow> cow_copy list
     \<Rightarrow> page_pool \<times> (pool_error + cow_copy list)" where
  "plan_cow_loop p t write_start [] copies = (p, Ok copies)"
| "plan_cow_loop p t write_start (lp # lps) copies =
     (case physical t lp of
        None \<Rightarrow> plan_cow_loop p t write_start lps copies
      | Some phys \<Rightarrow>
          if length (pp_page_meta p) \<le> phys then (p, Err Panic)
          else if pm_state (meta p phys) \<in> {Sealed, CacheOnly} then
            (case take_free p of
               None \<Rightarrow> (release_reserved_all p (map cc_dst_phys copies), Err (CowOom lp phys))
             | Some (dst, p') \<Rightarrow>
                 (let valid = min (saturating_sub write_start (lp * PAGE_TOKENS)) PAGE_TOKENS
                  in plan_cow_loop p' t write_start lps
                       (copies @ [\<lparr>cc_logical_page = lp, cc_src_phys = phys, cc_dst_phys = dst,
                                   cc_valid_prefix_tokens = valid,
                                   cc_k_copy_bytes = valid * pp_k_per_pos_bytes p,
                                   cc_v_copy_bytes = valid * pp_v_per_pos_bytes p\<rparr>])))
          else plan_cow_loop p t write_start lps copies)"

definition plan_cow ::
  "page_pool \<Rightarrow> block_table \<Rightarrow> nat \<Rightarrow> nat \<Rightarrow> page_pool \<times> (pool_error + cow_plan)" where
  "plan_cow p t write_start write_end =
     (if write_end < write_start then (p, Err BadInterval)
      else if write_end = write_start then (p, Ok \<lparr>cp_copies = [], cp_armed = False\<rparr>)
      else case plan_cow_loop p t write_start
                  [write_start div PAGE_TOKENS ..< (write_end - 1) div PAGE_TOKENS + 1] [] of
             (p', Inl e) \<Rightarrow> (p', Err e)
           | (p', Inr copies) \<Rightarrow> (p', Ok \<lparr>cp_copies = copies, cp_armed = True\<rparr>))"

fun verify_cow :: "page_pool \<Rightarrow> block_table \<Rightarrow> cow_copy list \<Rightarrow> pool_error + unit" where
  "verify_cow p t [] = Ok ()"
| "verify_cow p t (c # cs) =
     (if physical t (cc_logical_page c) \<noteq> Some (cc_src_phys c)
      then Err (CowTableChanged (cc_logical_page c) (physical t (cc_logical_page c)) (cc_src_phys c))
      else if length (pp_page_meta p) \<le> cc_src_phys c then Err Panic
      else if pm_table_refs (meta p (cc_src_phys c)) = 0 then Err (CowSrcUnowned (cc_src_phys c))
      else verify_cow p t cs)"

fun apply_cow ::
  "page_pool \<Rightarrow> block_table \<Rightarrow> cow_copy list \<Rightarrow> page_pool \<times> block_table \<times> (pool_error + unit)" where
  "apply_cow p t [] = (p, t, Ok ())"
| "apply_cow p t (c # cs) =
     (let t' = set_page t (cc_logical_page c) (cc_dst_phys c)
      in case dec_table_ref p (cc_src_phys c) of
           (p', Inl e) \<Rightarrow> (p', t', Err e)
         | (p', Inr _) \<Rightarrow> apply_cow p' t' cs)"

definition commit_cow ::
  "page_pool \<Rightarrow> block_table \<Rightarrow> cow_plan \<Rightarrow> page_pool \<times> block_table \<times> (pool_error + unit)" where
  "commit_cow p t plan =
     (case verify_cow p t (cp_copies plan) of
        Inl Panic \<Rightarrow> (p, t, Err Panic)
      | Inl e \<Rightarrow> (release_reserved_all p (map cc_dst_phys (cp_copies plan)), t, Err e)
      | Inr _ \<Rightarrow> apply_cow p t (cp_copies plan))"

definition abort_cow :: "page_pool \<Rightarrow> cow_plan \<Rightarrow> page_pool" where
  "abort_cow p plan = release_reserved_all p (map cc_dst_phys (cp_copies plan))"

section \<open>In-flight leases and deferred reclaim\<close>

definition add_inflight_ref :: "page_pool \<Rightarrow> nat \<Rightarrow> page_pool \<times> (pool_error + unit)" where
  "add_inflight_ref p phys =
     (case check_phys p phys of
        Inl e \<Rightarrow> (p, Err e)
      | Inr _ \<Rightarrow>
          (let m = meta p phys in
           if pm_state m = Free then (p, Err (IsFree phys))
           else if pm_state m = ReclaimPending then (p, Err (IsReclaimPending phys))
           else case checked_add32 (pm_inflight_refs m) 1 of
             None \<Rightarrow> (p, Err (RefOverflow phys))
           | Some r \<Rightarrow> (put_meta p phys (m\<lparr>pm_inflight_refs := r\<rparr>), Ok ())))"

definition release_inflight_ref :: "page_pool \<Rightarrow> nat \<Rightarrow> page_pool \<times> (pool_error + unit)" where
  "release_inflight_ref p phys =
     (case check_phys p phys of
        Inl e \<Rightarrow> (p, Err e)
      | Inr _ \<Rightarrow>
          (let m = meta p phys in
           if pm_inflight_refs m = 0 then (p, Err (InflightUnderflow phys))
           else (put_meta p phys (m\<lparr>pm_inflight_refs := pm_inflight_refs m - 1\<rparr>), Ok ())))"

text \<open>The loop of \<^verbatim>\<open>drain_completed\<close>: the pool, the freed pages, and those still pending.\<close>

fun drain_loop :: "page_pool \<Rightarrow> nat list \<Rightarrow> page_pool \<times> nat list \<times> nat list" where
  "drain_loop p [] = (p, [], [])"
| "drain_loop p (phys # rest) =
     (let m = meta p phys in
      if pm_inflight_refs m = 0 \<and> pm_table_refs m = 0 \<and> pm_cache_refs m = 0
      then let (p', freed, still) = drain_loop (free_page p phys m) rest
           in (p', phys # freed, still)
      else let (p', freed, still) = drain_loop p rest
           in (p', freed, phys # still))"

definition drain_completed :: "page_pool \<Rightarrow> page_pool \<times> nat list" where
  "drain_completed p =
     (let (p', freed, still) = drain_loop p (pp_reclaim_pending p)
      in (p'\<lparr>pp_reclaim_pending := still\<rparr>, freed))"

section \<open>Cache leases\<close>

definition add_cache_ref :: "page_pool \<Rightarrow> nat \<Rightarrow> page_pool \<times> (pool_error + unit)" where
  "add_cache_ref p phys =
     (case check_phys p phys of
        Inl e \<Rightarrow> (p, Err e)
      | Inr _ \<Rightarrow>
          (let m = meta p phys in
           if pm_state m = Free then (p, Err (IsFree phys))
           else if pm_state m = ReclaimPending then (p, Err (IsReclaimPending phys))
           else case checked_add32 (pm_cache_refs m) 1 of
             None \<Rightarrow> (p, Err (RefOverflow phys))
           | Some r \<Rightarrow>
               (put_meta p phys (m\<lparr>pm_cache_refs := r,
                  pm_state := (if pm_state m = Private then Sealed else pm_state m)\<rparr>), Ok ())))"

definition release_cache_ref :: "page_pool \<Rightarrow> nat \<Rightarrow> page_pool \<times> (pool_error + unit)" where
  "release_cache_ref p phys =
     (case check_phys p phys of
        Inl e \<Rightarrow> (p, Err e)
      | Inr _ \<Rightarrow>
          (let m = meta p phys in
           if pm_cache_refs m = 0 then (p, Err (CacheUnderflow phys))
           else let m = m\<lparr>pm_cache_refs := pm_cache_refs m - 1\<rparr> in
             if pm_table_refs m = 0 \<and> pm_cache_refs m = 0 then
               if pm_inflight_refs m > 0 then (park_page p phys m, Ok ())
               else (free_page p phys m, Ok ())
             else (put_meta p phys m, Ok ())))"

section \<open>Descriptors\<close>

definition make_desc :: "page_pool \<Rightarrow> block_table \<Rightarrow> nat \<Rightarrow> kv_slot_desc" where
  "make_desc p t block_table_dev_addr =
     \<lparr>kd_block_table = block_table_dev_addr, kd_legacy_k_base = 0, kd_legacy_v_base = 0,
      kd_seq_len = as_i32 (min (bt_live_tokens t) i32_max), kd_page_tokens = as_i32 PAGE_TOKENS\<rparr>"

definition make_legacy_desc :: "nat \<Rightarrow> nat \<Rightarrow> kv_slot_desc" where
  "make_legacy_desc base seq_len =
     \<lparr>kd_block_table = 0, kd_legacy_k_base = base, kd_legacy_v_base = base,
      kd_seq_len = as_i32 (min seq_len i32_max), kd_page_tokens = 0\<rparr>"

end
