(* ===== verification/Page_Pool_Inv.thy ===== *)
theory Page_Pool_Inv
  imports Page_Pool
begin

text \<open>
  The invariant of the page pool and the ownership ledger. The ledger is a multiset of physical
  pages: one occurrence for each block-table entry and each reserved copy-on-write destination.
  \<open>pool_inv p M\<close> says that the pool is well formed and that the table references of every page
  are its multiplicity in \<open>M\<close>. Each operation of \<^verbatim>\<open>PagePool\<close> is shown to keep the invariant with
  the ledger it ought to leave.
\<close>

section \<open>The invariant\<close>

definition refs_ok :: "page_meta \<Rightarrow> bool" where
  "refs_ok m \<longleftrightarrow> pm_table_refs m \<le> u32_max \<and> pm_cache_refs m \<le> u32_max
                 \<and> pm_inflight_refs m \<le> u32_max"

definition state_ok :: "page_meta \<Rightarrow> bool" where
  "state_ok m \<longleftrightarrow>
     (case pm_state m of
        Free \<Rightarrow> pm_table_refs m = 0 \<and> pm_cache_refs m = 0 \<and> pm_inflight_refs m = 0
      | Private \<Rightarrow> pm_table_refs m = 1 \<and> pm_cache_refs m = 0
      | Sealed \<Rightarrow> pm_table_refs m > 0
      | CacheOnly \<Rightarrow> pm_table_refs m + pm_cache_refs m > 0
      | ReclaimPending \<Rightarrow> pm_table_refs m = 0 \<and> pm_cache_refs m = 0)"

definition page_ok :: "page_meta \<Rightarrow> bool" where
  "page_ok m \<longleftrightarrow> refs_ok m \<and> state_ok m"

definition pool_wf :: "page_pool \<Rightarrow> bool" where
  "pool_wf p \<longleftrightarrow>
     length (pp_page_meta p) = pp_n_pages p
     \<and> distinct (pp_free_pages p)
     \<and> (\<forall>q. q \<in> set (pp_free_pages p) \<longleftrightarrow> q < pp_n_pages p \<and> pm_state (meta p q) = Free)
     \<and> distinct (pp_reclaim_pending p)
     \<and> (\<forall>q. q \<in> set (pp_reclaim_pending p)
             \<longleftrightarrow> q < pp_n_pages p \<and> pm_state (meta p q) = ReclaimPending)
     \<and> (\<forall>q < pp_n_pages p. page_ok (meta p q))"

definition ledger :: "page_pool \<Rightarrow> nat multiset \<Rightarrow> bool" where
  "ledger p M \<longleftrightarrow>
     (\<forall>q. q \<in># M \<longrightarrow> q < pp_n_pages p)
     \<and> (\<forall>q < pp_n_pages p. pm_table_refs (meta p q) = count M q)"

definition pool_inv :: "page_pool \<Rightarrow> nat multiset \<Rightarrow> bool" where
  "pool_inv p M \<longleftrightarrow> pool_wf p \<and> ledger p M"

named_theorems pool_dest \<open>facts read off the pool invariant\<close>

lemma pool_inv_length [pool_dest]: "pool_inv p M \<Longrightarrow> length (pp_page_meta p) = pp_n_pages p"
  by (simp add: pool_inv_def pool_wf_def)

lemma pool_inv_free [pool_dest]:
  "pool_inv p M \<Longrightarrow> q \<in> set (pp_free_pages p) \<longleftrightarrow> q < pp_n_pages p \<and> pm_state (meta p q) = Free"
  by (simp add: pool_inv_def pool_wf_def)

lemma pool_inv_reclaim [pool_dest]:
  "pool_inv p M \<Longrightarrow> q \<in> set (pp_reclaim_pending p)
     \<longleftrightarrow> q < pp_n_pages p \<and> pm_state (meta p q) = ReclaimPending"
  by (simp add: pool_inv_def pool_wf_def)

lemma pool_inv_distinct [pool_dest]:
  "pool_inv p M \<Longrightarrow> distinct (pp_free_pages p)"
  "pool_inv p M \<Longrightarrow> distinct (pp_reclaim_pending p)"
  by (simp_all add: pool_inv_def pool_wf_def)

lemma pool_inv_page_ok [pool_dest]: "pool_inv p M \<Longrightarrow> q < pp_n_pages p \<Longrightarrow> page_ok (meta p q)"
  by (simp add: pool_inv_def pool_wf_def)

lemma pool_inv_count [pool_dest]:
  "pool_inv p M \<Longrightarrow> q < pp_n_pages p \<Longrightarrow> pm_table_refs (meta p q) = count M q"
  by (simp add: pool_inv_def ledger_def)

lemma pool_inv_bound [pool_dest]: "pool_inv p M \<Longrightarrow> q \<in># M \<Longrightarrow> q < pp_n_pages p"
  by (simp add: pool_inv_def ledger_def)

text \<open>Every operation changes one page at a time; the invariant is kept when the new metadata of
  that page is consistent and it is on the list its new state asks for.\<close>

lemma pool_inv_update:
  assumes inv: "pool_inv p M" and q: "q < pp_n_pages p" and ok: "page_ok m"
    and cnt: "pm_table_refs m = count M' q" and oth: "\<And>r. r \<noteq> q \<Longrightarrow> count M' r = count M r"
    and n: "pp_n_pages p' = pp_n_pages p" and ms: "pp_page_meta p' = (pp_page_meta p)[q := m]"
    and df: "distinct (pp_free_pages p')"
    and sf: "\<And>r. r \<in> set (pp_free_pages p')
                 \<longleftrightarrow> (if r = q then pm_state m = Free else r \<in> set (pp_free_pages p))"
    and dr: "distinct (pp_reclaim_pending p')"
    and sr: "\<And>r. r \<in> set (pp_reclaim_pending p')
                 \<longleftrightarrow> (if r = q then pm_state m = ReclaimPending else r \<in> set (pp_reclaim_pending p))"
  shows "pool_inv p' M'"
proof -
  note len = pool_inv_length [OF inv]
  have m: "meta p' r = (if r = q then m else meta p r)" if "r < pp_n_pages p" for r
    using that len q by (simp add: ms nth_list_update)
  have "pool_wf p'"
    unfolding pool_wf_def
    using len q ok df dr m pool_inv_free [OF inv] pool_inv_reclaim [OF inv] pool_inv_page_ok [OF inv]
    by (auto simp add: ms n sf sr nth_list_update)
  moreover have "r < pp_n_pages p" if "r \<in># M'" for r
    using that oth [of r] q pool_inv_bound [OF inv, of r]
    by (cases "r = q") (simp_all flip: count_greater_zero_iff)
  then have "ledger p' M'"
    unfolding ledger_def using m cnt oth pool_inv_count [OF inv] by (simp add: n)
  ultimately show ?thesis by (simp add: pool_inv_def)
qed

text \<open>The common case: only the metadata of one resident page changes.\<close>

lemma pool_inv_put_meta:
  assumes inv: "pool_inv p M" and q: "q < pp_n_pages p" and ok: "page_ok m"
    and cnt: "pm_table_refs m = count M' q" and oth: "\<And>r. r \<noteq> q \<Longrightarrow> count M' r = count M r"
    and st: "pm_state m = Free \<longleftrightarrow> pm_state (meta p q) = Free"
      "pm_state m = ReclaimPending \<longleftrightarrow> pm_state (meta p q) = ReclaimPending"
  shows "pool_inv (put_meta p q m) M'"
  by (rule pool_inv_update [OF inv q ok cnt oth])
    (use q st pool_inv_free [OF inv] pool_inv_reclaim [OF inv] pool_inv_distinct [OF inv]
      in auto)

lemma pool_inv_free_page:
  assumes inv: "pool_inv p M" and q: "q < pp_n_pages p" and nf: "pm_state (meta p q) \<noteq> Free"
    and nr: "pm_state (meta p q) \<noteq> ReclaimPending"
    and z: "pm_table_refs m = 0" "pm_cache_refs m = 0" "pm_inflight_refs m = 0"
    and cnt: "count M' q = 0" and oth: "\<And>r. r \<noteq> q \<Longrightarrow> count M' r = count M r"
  shows "pool_inv (free_page p q m) M'"
  by (rule pool_inv_update [OF inv q, where m = "m\<lparr>pm_state := Free, pm_generation := pm_generation m + 1\<rparr>"])
    (use q nf nr z cnt oth pool_inv_free [OF inv] pool_inv_reclaim [OF inv] pool_inv_distinct [OF inv]
      in \<open>auto simp: free_page_def page_ok_def refs_ok_def state_ok_def\<close>)

lemma pool_inv_park_page:
  assumes inv: "pool_inv p M" and q: "q < pp_n_pages p" and nf: "pm_state (meta p q) \<noteq> Free"
    and nr: "pm_state (meta p q) \<noteq> ReclaimPending"
    and z: "pm_table_refs m = 0" "pm_cache_refs m = 0" "pm_inflight_refs m \<le> u32_max"
    and cnt: "count M' q = 0" and oth: "\<And>r. r \<noteq> q \<Longrightarrow> count M' r = count M r"
  shows "pool_inv (park_page p q m) M'"
  by (rule pool_inv_update [OF inv q, where m = "m\<lparr>pm_state := ReclaimPending\<rparr>"])
    (use q nf nr z cnt oth pool_inv_free [OF inv] pool_inv_reclaim [OF inv] pool_inv_distinct [OF inv]
      in \<open>auto simp: park_page_def page_ok_def refs_ok_def state_ok_def\<close>)

lemma pool_inv_new: "pool_inv (with_checked_metadata n k v) {#}"
  by (auto simp: pool_inv_def pool_wf_def ledger_def with_checked_metadata_def page_meta_free_def
      page_ok_def refs_ok_def state_ok_def)

text \<open>A page of the ledger is resident.\<close>

lemma pool_inv_live:
  assumes "pool_inv p M" "q \<in># M"
  shows "q < pp_n_pages p" "pm_table_refs (meta p q) > 0" "pm_state (meta p q) \<noteq> Free"
    "pm_state (meta p q) \<noteq> ReclaimPending"
proof -
  show q: "q < pp_n_pages p" using pool_inv_bound [OF assms] .
  show t: "pm_table_refs (meta p q) > 0"
    using pool_inv_count [OF assms(1) q] assms(2) by simp
  show "pm_state (meta p q) \<noteq> Free" "pm_state (meta p q) \<noteq> ReclaimPending"
    using pool_inv_page_ok [OF assms(1) q] t by (auto simp: page_ok_def state_ok_def)
qed


section \<open>What an operation leaves alone\<close>

text \<open>\<open>pool_frame S p p'\<close>: geometry and epoch are kept, and so is every page outside \<open>S\<close>.\<close>

definition pool_frame :: "nat set \<Rightarrow> page_pool \<Rightarrow> page_pool \<Rightarrow> bool" where
  "pool_frame S p p' \<longleftrightarrow>
     pp_n_pages p' = pp_n_pages p \<and> pp_k_per_pos_bytes p' = pp_k_per_pos_bytes p
     \<and> pp_v_per_pos_bytes p' = pp_v_per_pos_bytes p \<and> pp_epoch p' = pp_epoch p
     \<and> length (pp_page_meta p') = length (pp_page_meta p)
     \<and> (\<forall>r. r \<notin> S \<longrightarrow> meta p' r = meta p r)"

lemma pool_frame_refl [simp]: "pool_frame S p p"
  by (simp add: pool_frame_def)

lemma pool_frame_trans: "pool_frame S p p' \<Longrightarrow> pool_frame T p' p'' \<Longrightarrow> pool_frame (S \<union> T) p p''"
  by (simp add: pool_frame_def)

lemma pool_frame_mono: "pool_frame S p p' \<Longrightarrow> S \<subseteq> T \<Longrightarrow> pool_frame T p p'"
  by (auto simp: pool_frame_def)

lemma pool_frame_meta: "pool_frame S p p' \<Longrightarrow> r \<notin> S \<Longrightarrow> meta p' r = meta p r"
  by (simp add: pool_frame_def)

lemma pool_frame_put_meta [simp]:
  "pool_frame {q} p (put_meta p q m)" "pool_frame {q} p (free_page p q m)"
  "pool_frame {q} p (park_page p q m)"
  by (simp_all add: pool_frame_def free_page_def park_page_def)

section \<open>Single-page operations\<close>

lemmas page_ok_defs = page_ok_def refs_ok_def state_ok_def

lemma check_phys_ok [simp]: "phys < pp_n_pages p \<Longrightarrow> check_phys p phys = Ok ()"
  by (simp add: check_phys_def)

lemma take_free_Some:
  assumes "take_free p = Some (q, p')"
  shows "pp_free_pages p = pp_free_pages p' @ [q]" "pool_frame {q} p p'"
    "pp_reclaim_pending p' = pp_reclaim_pending p"
    "pp_page_meta p' = (pp_page_meta p)[q := (meta p q)\<lparr>pm_state := Private,
        pm_generation := pm_generation (meta p q) + 1, pm_table_refs := 1\<rparr>]"
  using assms by (auto simp: take_free_def Let_def vec_pop_Some pool_frame_def split: option.splits)

lemma take_free_None: "take_free p = None \<longleftrightarrow> pp_free_pages p = []"
  by (auto simp: take_free_def Let_def vec_pop_Some split: option.splits)

lemma take_free_inv:
  assumes inv: "pool_inv p M" and tf: "take_free p = Some (q, p')"
  shows "pool_inv p' (add_mset q M)" "q < pp_n_pages p" "q \<notin># M" "pm_inflight_refs (meta p' q) = 0"
    "pm_state (meta p' q) = Private" "pm_generation (meta p' q) = pm_generation (meta p q) + 1"
proof -
  note t = take_free_Some [OF tf]
  have qf: "q \<in> set (pp_free_pages p)" using t(1) by simp
  then show q: "q < pp_n_pages p" using pool_inv_free [OF inv] by simp
  have st: "pm_state (meta p q) = Free" using qf pool_inv_free [OF inv] by simp
  then have z: "pm_table_refs (meta p q) = 0" "pm_cache_refs (meta p q) = 0"
    "pm_inflight_refs (meta p q) = 0"
    using pool_inv_page_ok [OF inv q] by (auto simp: page_ok_defs)
  then show nM: "q \<notin># M" using pool_inv_count [OF inv q] by (simp add: not_in_iff)
  show "pm_inflight_refs (meta p' q) = 0" "pm_state (meta p' q) = Private"
    "pm_generation (meta p' q) = pm_generation (meta p q) + 1"
    using z q pool_inv_length [OF inv] by (simp_all add: t(4))
  have d: "distinct (pp_free_pages p' @ [q])" using pool_inv_distinct(1) [OF inv] t(1) by simp
  have s: "set (pp_free_pages p) = insert q (set (pp_free_pages p'))" using t(1) by simp
  show "pool_inv p' (add_mset q M)"
    by (rule pool_inv_update [OF inv q _ _ _ _ t(4)])
      (use z nM d s st t pool_inv_distinct [OF inv] pool_inv_reclaim [OF inv]
        in \<open>auto simp: page_ok_defs pool_frame_def u32_max_def not_in_iff\<close>)
qed

lemma dec_table_ref_owned:
  assumes inv: "pool_inv p M" and q: "q \<in># M"
  obtains p' where "dec_table_ref p q = (p', Ok ())" "pool_inv p' (M - {#q#})" "pool_frame {q} p p'"
proof -
  note live = pool_inv_live [OF inv q]
  note ok = pool_inv_page_ok [OF inv live(1)] and cnt = pool_inv_count [OF inv live(1)]
  let ?m = "(meta p q)\<lparr>pm_table_refs := pm_table_refs (meta p q) - 1\<rparr>"
  consider (more) "count M q \<noteq> 1"
    | (cache) "count M q = 1" "pm_cache_refs (meta p q) > 0"
    | (park) "count M q = 1" "pm_cache_refs (meta p q) = 0" "pm_inflight_refs (meta p q) > 0"
    | (free) "count M q = 1" "pm_cache_refs (meta p q) = 0" "pm_inflight_refs (meta p q) = 0"
    by fastforce
  then show thesis
  proof cases
    case more
    then have two: "1 < count M q"
      using q count_greater_eq_one_iff [of M q] by linarith
    have "pool_inv (put_meta p q ?m) (M - {#q#})"
      by (rule pool_inv_put_meta [OF inv live(1)])
        (use two live ok cnt in \<open>auto simp: page_ok_defs split: page_state.splits\<close>)
    then show thesis using that more live cnt by (simp add: dec_table_ref_def Let_def)
  next
    case cache
    have "pool_inv (put_meta p q (?m\<lparr>pm_state := CacheOnly\<rparr>)) (M - {#q#})"
      by (rule pool_inv_put_meta [OF inv live(1)]) (use cache live ok cnt in \<open>auto simp: page_ok_defs\<close>)
    then show thesis using that cache live cnt by (simp add: dec_table_ref_def Let_def)
  next
    case park
    have "pool_inv (park_page p q ?m) (M - {#q#})"
      by (rule pool_inv_park_page [OF inv live(1,3,4)]) (use park ok cnt in \<open>auto simp: page_ok_defs\<close>)
    then show thesis using that park live cnt by (simp add: dec_table_ref_def Let_def)
  next
    case free
    have "pool_inv (free_page p q ?m) (M - {#q#})"
      by (rule pool_inv_free_page [OF inv live(1,3,4)]) (use free cnt in auto)
    then show thesis using that free live cnt by (simp add: dec_table_ref_def Let_def)
  qed
qed

lemma dec_table_ref_unowned:
  assumes "pool_inv p M" "q \<notin># M"
  shows "dec_table_ref p q
           = (p, Err (if q < pp_n_pages p then TableUnderflow q else OutOfBounds q))"
  using assms pool_inv_count [OF assms(1), of q]
  by (simp add: dec_table_ref_def check_phys_def Let_def not_in_iff)

lemma release_reserved_inv:
  assumes inv: "pool_inv p M" and q: "q \<in># M" and st: "pm_state (meta p q) = Private"
    and i: "pm_inflight_refs (meta p q) = 0"
  shows "pool_inv (release_reserved p q) (M - {#q#})" "pool_frame {q} p (release_reserved p q)"
proof -
  note live = pool_inv_live [OF inv q]
  have "pm_cache_refs (meta p q) = 0" "count M q = 1"
    using pool_inv_page_ok [OF inv live(1)] st pool_inv_count [OF inv live(1)]
    by (auto simp: page_ok_defs)
  then show "pool_inv (release_reserved p q) (M - {#q#})"
    unfolding release_reserved_def
    by (intro pool_inv_free_page [OF inv live(1,3,4)]) (use i in auto)
  show "pool_frame {q} p (release_reserved p q)"
    by (simp add: release_reserved_def)
qed

section \<open>Allocation\<close>

lemma validate_handle_private:
  assumes "q < pp_n_pages p" "pm_state (meta p q) \<noteq> Free" "e = pp_epoch p" "g = pm_generation (meta p q)"
  shows "validate_handle p \<lparr>ph_phys = q, ph_epoch = e, ph_generation = g\<rparr> = Ok ()"
  using assms by (simp add: validate_handle_def Let_def)

text \<open>With enough free pages the loop never reaches its \<^verbatim>\<open>expect\<close>; it takes the last \<open>n\<close> pages of the
  free list, in order, and each handle it makes is valid.\<close>

lemma alloc_loop_inv:
  assumes "pool_inv p M" "n \<le> length (pp_free_pages p)"
  shows "\<exists>p' pages hs. alloc_loop p t n = Some (p', t\<lparr>bt_pages := bt_pages t @ pages\<rparr>, hs)
           \<and> length pages = n \<and> pool_inv p' (M + mset pages) \<and> pool_frame (set pages) p p'
           \<and> pp_free_pages p = pp_free_pages p' @ rev pages \<and> map ph_phys hs = pages
           \<and> (\<forall>q \<in> set pages. pm_state (meta p' q) = Private)
           \<and> (\<forall>h \<in> set hs. validate_handle p' h = Ok ())
           \<and> pp_reclaim_pending p' = pp_reclaim_pending p"
  using assms
proof (induction n arbitrary: p t M)
  case 0
  then show ?case by simp
next
  case (Suc n)
  from Suc.prems(2) obtain q p1 where tf: "take_free p = Some (q, p1)"
    by (cases "take_free p") (auto simp: take_free_None)
  note t1 = take_free_Some [OF tf] and i1 = take_free_inv [OF Suc.prems(1) tf]
  from Suc.prems(2) t1(1) have "n \<le> length (pp_free_pages p1)" by simp
  from Suc.IH [OF i1(1) this, of "push_page t q"] obtain p' pages hs where
    al: "alloc_loop p1 (push_page t q) n
           = Some (p', (push_page t q)\<lparr>bt_pages := bt_pages (push_page t q) @ pages\<rparr>, hs)"
    and r: "length pages = n" "pool_inv p' (add_mset q M + mset pages)" "pool_frame (set pages) p1 p'"
      "pp_free_pages p1 = pp_free_pages p' @ rev pages" "map ph_phys hs = pages"
      "\<forall>q \<in> set pages. pm_state (meta p' q) = Private" "\<forall>h \<in> set hs. validate_handle p' h = Ok ()"
      "pp_reclaim_pending p' = pp_reclaim_pending p1"
    by blast
  have "q \<notin> set (pp_free_pages p1)" using pool_inv_distinct(1) [OF Suc.prems(1)] t1(1) by simp
  then have "q \<notin> set pages" using r(4) by simp
  then have mq: "meta p' q = meta p1 q" using pool_frame_meta [OF r(3)] by simp
  have ge: "pp_epoch p' = pp_epoch p" "pp_n_pages p' = pp_n_pages p"
    using r(3) t1(2) by (simp_all add: pool_frame_def)
  have vh: "validate_handle p' \<lparr>ph_phys = q, ph_epoch = pp_epoch p,
              ph_generation = pm_generation (meta p1 q)\<rparr> = Ok ()"
    by (rule validate_handle_private) (use i1 mq ge in simp_all)
  have fr: "pool_frame (set (q # pages)) p p'"
    using pool_frame_trans [OF t1(2) r(3)] by simp
  show ?case
    by (rule exI [of _ p'], rule exI [of _ "q # pages"],
        rule exI [of _ "\<lparr>ph_phys = q, ph_epoch = pp_epoch p, ph_generation = pm_generation (meta p1 q)\<rparr> # hs"])
      (use tf al r fr vh mq i1 t1 in \<open>simp add: Let_def push_page_def\<close>)
qed

lemma alloc_pages_checked_inv:
  assumes "pool_inv p M" "n \<le> length (pp_free_pages p)"
  obtains p' pages hs where
    "alloc_pages_checked p t n = (p', t\<lparr>bt_pages := bt_pages t @ pages\<rparr>, Ok hs)"
    "length pages = n" "pool_inv p' (M + mset pages)" "pool_frame (set pages) p p'"
    "pp_free_pages p = pp_free_pages p' @ rev pages" "map ph_phys hs = pages"
    "\<forall>q \<in> set pages. pm_state (meta p' q) = Private" "\<forall>h \<in> set hs. validate_handle p' h = Ok ()"
proof -
  from alloc_loop_inv [OF assms, of t] obtain p' pages hs where
    "alloc_loop p t n = Some (p', t\<lparr>bt_pages := bt_pages t @ pages\<rparr>, hs)"
    "length pages = n" "pool_inv p' (M + mset pages)" "pool_frame (set pages) p p'"
    "pp_free_pages p = pp_free_pages p' @ rev pages" "map ph_phys hs = pages"
    "\<forall>q \<in> set pages. pm_state (meta p' q) = Private" "\<forall>h \<in> set hs. validate_handle p' h = Ok ()"
    by blast
  then show thesis by (intro that [of p' pages hs]) (use assms(2) in \<open>simp_all add: alloc_pages_checked_def\<close>)
qed

lemma alloc_pages_inv:
  assumes inv: "pool_inv p M"
  obtains p' pages where
    "alloc_pages p t n = (p', t\<lparr>bt_pages := bt_pages t @ pages\<rparr>, Ok (min n (length (pp_free_pages p))))"
    "length pages = min n (length (pp_free_pages p))" "pool_inv p' (M + mset pages)"
    "pool_frame (set pages) p p'" "pp_free_pages p = pp_free_pages p' @ rev pages"
    "\<forall>q \<in> set pages. pm_state (meta p' q) = Private"
proof -
  let ?k = "min n (length (pp_free_pages p))"
  have "?k \<le> length (pp_free_pages p)" by simp
  from alloc_loop_inv [OF inv this, of t] obtain p' pages hs where
    al: "alloc_loop p t ?k = Some (p', t\<lparr>bt_pages := bt_pages t @ pages\<rparr>, hs)"
    and r: "length pages = ?k" "pool_inv p' (M + mset pages)" "pool_frame (set pages) p p'"
    "pp_free_pages p = pp_free_pages p' @ rev pages" "\<forall>q \<in> set pages. pm_state (meta p' q) = Private"
    by blast
  have "alloc_pages p t n = (p', t\<lparr>bt_pages := bt_pages t @ pages\<rparr>, Ok ?k)"
    using al by (simp add: alloc_pages_def Let_def)
  then show thesis by (rule that [OF _ r])
qed

text \<open>A table whose live tokens fit its pages.\<close>

definition table_wf :: "block_table \<Rightarrow> bool" where
  "table_wf t \<longleftrightarrow> bt_live_tokens t \<le> num_pages t * PAGE_TOKENS"

lemma ensure_capacity_Ok:
  assumes inv: "pool_inv p M" and need: "div_ceil n PAGE_TOKENS \<le> num_pages t + length (pp_free_pages p)"
  obtains p' pages where
    "ensure_capacity p t n = (p', t\<lparr>bt_pages := bt_pages t @ pages, bt_live_tokens := n\<rparr>, Ok (length pages))"
    "length pages = div_ceil n PAGE_TOKENS - num_pages t" "pool_inv p' (M + mset pages)"
    "pool_frame (set pages) p p'" "pp_free_pages p = pp_free_pages p' @ rev pages"
    "\<forall>q \<in> set pages. pm_state (meta p' q) = Private"
proof (cases "div_ceil n PAGE_TOKENS \<le> num_pages t")
  case True
  then show thesis
    using that [of p "[]"] inv by (simp add: ensure_capacity_def set_live_tokens_def)
next
  case False
  let ?k = "div_ceil n PAGE_TOKENS - num_pages t"
  from need have le: "?k \<le> length (pp_free_pages p)" by simp
  from alloc_pages_inv [OF inv, of t ?k] obtain p' pages where
    "alloc_pages p t ?k = (p', t\<lparr>bt_pages := bt_pages t @ pages\<rparr>, Ok ?k)"
    "length pages = ?k" "pool_inv p' (M + mset pages)" "pool_frame (set pages) p p'"
    "pp_free_pages p = pp_free_pages p' @ rev pages" "\<forall>q \<in> set pages. pm_state (meta p' q) = Private"
    using le by (metis min.absorb1)
  then show thesis
    using that [of p' pages] False le by (simp add: ensure_capacity_def Let_def set_live_tokens_def)
qed

lemma ensure_capacity_Err:
  assumes "num_pages t + length (pp_free_pages p) < div_ceil n PAGE_TOKENS"
  shows "ensure_capacity p t n
           = (p, t, Err (NeedPages (div_ceil n PAGE_TOKENS - num_pages t) (length (pp_free_pages p))))"
proof -
  have "\<not> div_ceil n PAGE_TOKENS \<le> num_pages t"
    "length (pp_free_pages p) < div_ceil n PAGE_TOKENS - num_pages t"
    using assms by linarith+
  then show ?thesis by (simp only: ensure_capacity_def Let_def if_False if_True not_False_eq_True)
qed

section \<open>Release\<close>

lemma dec_loop_inv:
  assumes "pool_inv p M" "mset xs \<subseteq># M"
  shows "\<exists>p'. dec_loop p xs = (p', Ok ()) \<and> pool_inv p' (M - mset xs) \<and> pool_frame (set xs) p p'"
  using assms
proof (induction xs arbitrary: p M)
  case Nil
  then show ?case by simp
next
  case (Cons q xs)
  then have q: "q \<in># M" by (simp add: insert_subset_eq_iff)
  obtain p1 where d: "dec_table_ref p q = (p1, Ok ())" and i1: "pool_inv p1 (M - {#q#})"
    and f1: "pool_frame {q} p p1"
    by (rule dec_table_ref_owned [OF Cons.prems(1) q])
  have "mset xs \<subseteq># M - {#q#}" using Cons.prems(2) by (simp add: insert_subset_eq_iff)
  from Cons.IH [OF i1 this] obtain p' where
    "dec_loop p1 xs = (p', Ok ())" "pool_inv p' (M - {#q#} - mset xs)" "pool_frame (set xs) p1 p'"
    by blast
  then show ?case using d pool_frame_trans [OF f1, of "set xs" p'] by simp
qed

lemma release_loop_dec_loop:
  "dec_loop p xs = (p', Ok ()) \<Longrightarrow> release_loop p xs = (p', False)"
  by (induction xs arbitrary: p) (auto simp: Let_def split: prod.splits sum.splits)

lemma release_table_inv:
  assumes "pool_inv p M" "mset (bt_pages t) \<subseteq># M"
  obtains p' where "release_table p t = (p', bt_new, Ok ())" "pool_inv p' (M - mset (bt_pages t))"
    "pool_frame (set (bt_pages t)) p p'"
  using dec_loop_inv [OF assms] release_loop_dec_loop that
  by (fastforce simp: release_table_def bt_new_def)

lemma verify_tail_ok:
  assumes inv: "pool_inv p M"
  shows "set xs \<subseteq> set_mset M \<Longrightarrow> verify_tail p xs = Ok ()"
  by (induction xs) (use pool_inv_live [OF inv] pool_inv_length [OF inv] in \<open>auto simp: not_le\<close>)

lemma free_pages_from_tail_inv:
  assumes inv: "pool_inv p M" and own: "mset (bt_pages t) \<subseteq># M"
    and keep: "keep = num_pages t - n"
  obtains p' where
    "free_pages_from_tail p t n
       = (p', t\<lparr>bt_pages := take keep (bt_pages t),
               bt_live_tokens := min (bt_live_tokens t) (keep * PAGE_TOKENS)\<rparr>, Ok ())"
    "pool_inv p' (M - mset (drop keep (bt_pages t)))" "pool_frame (set (drop keep (bt_pages t))) p p'"
proof -
  have sub: "mset (drop keep (bt_pages t)) \<subseteq># M"
    using own by (metis append_take_drop_id mset_append mset_subset_eq_add_right subset_mset.order_trans)
  then have "set (drop keep (bt_pages t)) \<subseteq> set_mset M"
    by (metis set_mset_mono set_mset_mset)
  from verify_tail_ok [OF inv this] dec_loop_inv [OF inv sub] that show thesis
    by (auto simp: free_pages_from_tail_def truncate_def Let_def keep)
qed

section \<open>Sharing\<close>

text \<open>
  Whatever the loop has attached when it stops is what the destination table holds, so the ledger
  stays exact even when it stops at a full reference counter.
\<close>

lemma share_loop_inv:
  assumes "pool_inv p M" "set xs \<subseteq> set_mset M"
  shows "\<exists>p' k r. share_loop p dst xs = (p', dst\<lparr>bt_pages := bt_pages dst @ take k xs\<rparr>, r)
           \<and> pool_inv p' (M + mset (take k xs)) \<and> pool_frame (set (take k xs)) p p'
           \<and> (\<forall>q \<in> set (take k xs). pm_state (meta p' q) = Sealed)
           \<and> (if is_ok r then k = length xs else size M + length xs > u32_max)"
  using assms
proof (induction xs arbitrary: p M dst)
  case Nil
  then show ?case by (auto intro: exI [of _ p])
next
  case (Cons q xs)
  then have q: "q \<in># M" and xs: "set xs \<subseteq> set_mset (add_mset q M)" by auto
  note live = pool_inv_live [OF Cons.prems(1) q]
  note ok = pool_inv_page_ok [OF Cons.prems(1) live(1)] and cnt = pool_inv_count [OF Cons.prems(1) live(1)]
  show ?case
  proof (cases "count M q + 1 \<le> u32_max")
    case False
    then have "size M + length (q # xs) > u32_max"
      using count_le_size [of M q] by simp
    then show ?thesis using live cnt False Cons.prems(1)
      by (intro exI [of _ p] exI [of _ 0] exI [of _ "Err (RefOverflow q)"])
        (simp add: checked_add32_def)
  next
    case True
    let ?p = "put_meta p q ((meta p q)\<lparr>pm_table_refs := count M q + 1, pm_state := Sealed\<rparr>)"
    have i1: "pool_inv ?p (add_mset q M)"
      by (rule pool_inv_put_meta [OF Cons.prems(1) live(1)])
        (use True live ok in \<open>auto simp: page_ok_defs\<close>)
    from Cons.IH [OF i1 xs, of "push_page dst q"] obtain p' k r where
      sl: "share_loop ?p (push_page dst q) xs
             = (p', (push_page dst q)\<lparr>bt_pages := bt_pages (push_page dst q) @ take k xs\<rparr>, r)"
      and r: "pool_inv p' (add_mset q M + mset (take k xs))" "pool_frame (set (take k xs)) ?p p'"
        "\<forall>q \<in> set (take k xs). pm_state (meta p' q) = Sealed"
        "if is_ok r then k = length xs else size (add_mset q M) + length xs > u32_max"
      by blast
    have "pm_state (meta p' q) = Sealed"
      using r(3) pool_frame_meta [OF r(2), of q] live(1) pool_inv_length [OF Cons.prems(1)]
      by (cases "q \<in> set (take k xs)") auto
    moreover have "pool_frame (set (take (Suc k) (q # xs))) p p'"
      using pool_frame_trans [OF _ r(2), of "{q}" p] by simp
    ultimately show ?thesis
      using sl r True live cnt
      by (intro exI [of _ p'] exI [of _ "Suc k"] exI [of _ r])
        (auto simp: checked_add32_def push_page_def split: if_splits)
  qed
qed

lemma refcount_inc_inv:
  assumes inv: "pool_inv p M" and e: "refcount_inc p q = (p', r)"
  shows "if is_ok r then pool_inv p' (add_mset q M) \<and> pool_frame {q} p p' else p' = p"
proof (cases "q < pp_n_pages p \<and> pm_state (meta p q) \<noteq> Free \<and> pm_state (meta p q) \<noteq> ReclaimPending
              \<and> pm_table_refs (meta p q) + 1 \<le> u32_max")
  case True
  then have q: "q < pp_n_pages p" by simp
  note ok = pool_inv_page_ok [OF inv q] and cnt = pool_inv_count [OF inv q]
  let ?m = "(meta p q)\<lparr>pm_table_refs := pm_table_refs (meta p q) + 1,
              pm_state := (if pm_state (meta p q) = Private then Sealed else pm_state (meta p q))\<rparr>"
  have "pool_inv (put_meta p q ?m) (add_mset q M)"
    by (rule pool_inv_put_meta [OF inv q])
      (use True ok cnt in \<open>auto simp: page_ok_defs split: page_state.splits\<close>)
  then show ?thesis using e True by (auto simp: refcount_inc_def Let_def checked_add32_def)
next
  case False
  then show ?thesis
    using e by (auto simp: refcount_inc_def check_phys_def Let_def checked_add32_def split: if_splits)
qed

lemma refcount_inc_attachable: "is_ok (snd (refcount_inc p q)) \<longleftrightarrow> check_attachable p q = Ok ()"
  if "pool_inv p M"
  using pool_inv_page_ok [OF that, of q]
  by (auto simp: refcount_inc_def check_attachable_def check_phys_def Let_def checked_add32_def page_ok_defs)

section \<open>Seals and leases\<close>

lemma seal_inv:
  assumes inv: "pool_inv p M" and e: "seal p q = (p', r)"
  shows "pool_inv p' M \<and> pool_frame {q} p p' \<and> (\<not> is_ok r \<longrightarrow> p' = p)"
proof (cases "q < pp_n_pages p \<and> pm_state (meta p q) = Private")
  case True
  then have q: "q < pp_n_pages p" by simp
  have "pool_inv (put_meta p q ((meta p q)\<lparr>pm_state := Sealed\<rparr>)) M"
    by (rule pool_inv_put_meta [OF inv q])
      (use True pool_inv_page_ok [OF inv q] pool_inv_count [OF inv q] in \<open>auto simp: page_ok_defs\<close>)
  then show ?thesis using e True by (auto simp: seal_def Let_def)
next
  case False
  then show ?thesis
    using e inv by (auto simp: seal_def check_phys_def Let_def split: page_state.splits if_splits)
qed

lemma add_inflight_ref_inv:
  assumes inv: "pool_inv p M" and e: "add_inflight_ref p q = (p', r)"
  shows "pool_inv p' M \<and> pool_frame {q} p p' \<and> (\<not> is_ok r \<longrightarrow> p' = p)"
proof (cases "q < pp_n_pages p \<and> pm_state (meta p q) \<noteq> Free \<and> pm_state (meta p q) \<noteq> ReclaimPending
              \<and> pm_inflight_refs (meta p q) + 1 \<le> u32_max")
  case True
  then have q: "q < pp_n_pages p" by simp
  have "pool_inv (put_meta p q ((meta p q)\<lparr>pm_inflight_refs := pm_inflight_refs (meta p q) + 1\<rparr>)) M"
    by (rule pool_inv_put_meta [OF inv q])
      (use True pool_inv_page_ok [OF inv q] pool_inv_count [OF inv q]
        in \<open>auto simp: page_ok_defs split: page_state.splits\<close>)
  then show ?thesis using e True by (auto simp: add_inflight_ref_def Let_def checked_add32_def)
next
  case False
  then show ?thesis
    using e inv by (auto simp: add_inflight_ref_def check_phys_def Let_def checked_add32_def split: if_splits)
qed

lemma release_inflight_ref_inv:
  assumes inv: "pool_inv p M" and e: "release_inflight_ref p q = (p', r)"
  shows "pool_inv p' M \<and> pool_frame {q} p p' \<and> (\<not> is_ok r \<longrightarrow> p' = p)"
proof (cases "q < pp_n_pages p \<and> pm_inflight_refs (meta p q) > 0")
  case True
  then have q: "q < pp_n_pages p" by simp
  have "pool_inv (put_meta p q ((meta p q)\<lparr>pm_inflight_refs := pm_inflight_refs (meta p q) - 1\<rparr>)) M"
    by (rule pool_inv_put_meta [OF inv q])
      (use True pool_inv_page_ok [OF inv q] pool_inv_count [OF inv q]
        in \<open>auto simp: page_ok_defs split: page_state.splits\<close>)
  then show ?thesis using e True by (auto simp: release_inflight_ref_def Let_def)
next
  case False
  then show ?thesis
    using e inv by (auto simp: release_inflight_ref_def check_phys_def Let_def split: if_splits)
qed

lemma add_cache_ref_inv:
  assumes inv: "pool_inv p M" and e: "add_cache_ref p q = (p', r)"
  shows "pool_inv p' M \<and> pool_frame {q} p p' \<and> (\<not> is_ok r \<longrightarrow> p' = p)"
proof (cases "q < pp_n_pages p \<and> pm_state (meta p q) \<noteq> Free \<and> pm_state (meta p q) \<noteq> ReclaimPending
              \<and> pm_cache_refs (meta p q) + 1 \<le> u32_max")
  case True
  then have q: "q < pp_n_pages p" by simp
  let ?m = "(meta p q)\<lparr>pm_cache_refs := pm_cache_refs (meta p q) + 1,
              pm_state := (if pm_state (meta p q) = Private then Sealed else pm_state (meta p q))\<rparr>"
  have "pool_inv (put_meta p q ?m) M"
    by (rule pool_inv_put_meta [OF inv q])
      (use True pool_inv_page_ok [OF inv q] pool_inv_count [OF inv q]
        in \<open>auto simp: page_ok_defs simp flip: count_greater_zero_iff split: page_state.splits\<close>)
  then show ?thesis using e True by (auto simp: add_cache_ref_def Let_def checked_add32_def)
next
  case False
  then show ?thesis
    using e inv by (auto simp: add_cache_ref_def check_phys_def Let_def checked_add32_def split: if_splits)
qed

lemma release_cache_ref_inv:
  assumes inv: "pool_inv p M" and e: "release_cache_ref p q = (p', r)"
  shows "pool_inv p' M \<and> pool_frame {q} p p' \<and> (\<not> is_ok r \<longrightarrow> p' = p)"
proof (cases "q < pp_n_pages p \<and> pm_cache_refs (meta p q) > 0")
  case True
  then have q: "q < pp_n_pages p" and c: "pm_cache_refs (meta p q) > 0" by simp_all
  note ok = pool_inv_page_ok [OF inv q] and cnt = pool_inv_count [OF inv q]
  have st: "pm_state (meta p q) \<noteq> Free" "pm_state (meta p q) \<noteq> ReclaimPending"
    using ok c by (auto simp: page_ok_defs)
  let ?m = "(meta p q)\<lparr>pm_cache_refs := pm_cache_refs (meta p q) - 1\<rparr>"
  consider (keep) "\<not> (pm_table_refs (meta p q) = 0 \<and> pm_cache_refs (meta p q) = 1)"
    | (park) "pm_table_refs (meta p q) = 0" "pm_cache_refs (meta p q) = 1" "pm_inflight_refs (meta p q) > 0"
    | (free) "pm_table_refs (meta p q) = 0" "pm_cache_refs (meta p q) = 1" "pm_inflight_refs (meta p q) = 0"
    by fastforce
  then show ?thesis
  proof cases
    case keep
    have "pool_inv (put_meta p q ?m) M"
      by (rule pool_inv_put_meta [OF inv q])
        (use keep c ok cnt in \<open>auto simp: page_ok_defs simp flip: count_greater_zero_iff
          split: page_state.splits\<close>)
    then show ?thesis using e q c keep by (auto simp: release_cache_ref_def Let_def)
  next
    case park
    have "pool_inv (park_page p q ?m) M"
      by (rule pool_inv_park_page [OF inv q st]) (use park ok cnt in \<open>auto simp: page_ok_defs\<close>)
    then show ?thesis using e q park by (auto simp: release_cache_ref_def Let_def)
  next
    case free
    have "pool_inv (free_page p q ?m) M"
      by (rule pool_inv_free_page [OF inv q st]) (use free cnt in auto)
    then show ?thesis using e q free by (auto simp: release_cache_ref_def Let_def)
  qed
next
  case False
  then show ?thesis
    using e inv by (auto simp: release_cache_ref_def check_phys_def Let_def split: if_splits)
qed

text \<open>Draining frees exactly the parked pages whose readers have finished.\<close>

lemma drain_loop_inv:
  assumes "pool_inv (p\<lparr>pp_reclaim_pending := acc @ xs\<rparr>) M" "drain_loop p xs = (p', freed, still)"
  shows "pool_inv (p'\<lparr>pp_reclaim_pending := acc @ still\<rparr>) M \<and> pool_frame (set freed) p p'
         \<and> freed = filter (\<lambda>q. pm_inflight_refs (meta p q) = 0) xs
         \<and> still = filter (\<lambda>q. pm_inflight_refs (meta p q) \<noteq> 0) xs
         \<and> pp_free_pages p' = pp_free_pages p @ freed"
  using assms
proof (induction xs arbitrary: p acc freed still)
  case Nil
  then show ?case by simp
next
  case (Cons q xs)
  note inv = Cons.prems(1)
  have qr: "q < pp_n_pages p" "pm_state (meta p q) = ReclaimPending"
    using pool_inv_reclaim [OF inv, of q] by simp_all
  have ok: "page_ok (meta p q)" using pool_inv_page_ok [OF inv, of q] qr by simp
  then have z: "pm_table_refs (meta p q) = 0" "pm_cache_refs (meta p q) = 0"
    using qr by (simp_all add: page_ok_defs)
  have d: "distinct (acc @ q # xs)" using pool_inv_distinct(2) [OF inv] by simp
  show ?case
  proof (cases "pm_inflight_refs (meta p q) = 0")
    case False
    then obtain still' where e: "drain_loop p xs = (p', freed, still')" "still = q # still'"
      using Cons.prems(2) by (auto simp: Let_def split: prod.splits)
    have "pool_inv (p\<lparr>pp_reclaim_pending := (acc @ [q]) @ xs\<rparr>) M" using inv by simp
    from Cons.IH [OF this e(1)] e(2) False show ?thesis by auto
  next
    case True
    let ?p = "free_page p q (meta p q)"
    obtain freed' where e: "drain_loop ?p xs = (p', freed', still)" "freed = q # freed'"
      using Cons.prems(2) True z by (auto simp: Let_def split: prod.splits)
    have "pool_inv (?p\<lparr>pp_reclaim_pending := acc @ xs\<rparr>) M"
      by (rule pool_inv_update [OF inv, of q "(meta p q)\<lparr>pm_state := Free,
            pm_generation := pm_generation (meta p q) + 1\<rparr>"])
        (use qr z True d pool_inv_count [OF inv, of q] pool_inv_free [OF inv] pool_inv_distinct [OF inv]
          in \<open>auto simp: free_page_def page_ok_defs\<close>)
    from Cons.IH [OF this e(1)] have r: "pool_inv (p'\<lparr>pp_reclaim_pending := acc @ still\<rparr>) M"
      "pool_frame (set freed') ?p p'" "freed' = filter (\<lambda>q. pm_inflight_refs (meta ?p q) = 0) xs"
      "still = filter (\<lambda>q. pm_inflight_refs (meta ?p q) \<noteq> 0) xs"
      "pp_free_pages p' = pp_free_pages ?p @ freed'"
      by blast+
    have "meta ?p r = meta p r" if "r \<in> set xs" for r
      by (rule pool_frame_meta [OF pool_frame_put_meta(2)]) (use that d in auto)
    then have "freed' = filter (\<lambda>q. pm_inflight_refs (meta p q) = 0) xs"
      "still = filter (\<lambda>q. pm_inflight_refs (meta p q) \<noteq> 0) xs"
      by (auto simp: r(3,4) intro!: filter_cong)
    then show ?thesis
      using r(1,5) e(2) True pool_frame_trans [OF pool_frame_put_meta(2) r(2)]
      by (simp add: free_page_def)
  qed
qed

lemma drain_completed_inv:
  assumes inv: "pool_inv p M" and e: "drain_completed p = (p', freed)"
  shows "pool_inv p' M" "pool_frame (set freed) p p'"
    "freed = filter (\<lambda>q. pm_inflight_refs (meta p q) = 0) (pp_reclaim_pending p)"
    "pp_reclaim_pending p' = filter (\<lambda>q. pm_inflight_refs (meta p q) \<noteq> 0) (pp_reclaim_pending p)"
    "pp_free_pages p' = pp_free_pages p @ freed"
proof -
  obtain p1 still where d: "drain_loop p (pp_reclaim_pending p) = (p1, freed, still)"
    and p': "p' = p1\<lparr>pp_reclaim_pending := still\<rparr>"
    using e by (auto simp: drain_completed_def Let_def split: prod.splits)
  have "pool_inv (p\<lparr>pp_reclaim_pending := [] @ pp_reclaim_pending p\<rparr>) M" using inv by simp
  note r = drain_loop_inv [OF this d]
  have "pool_frame (set freed) p p'" using r unfolding p' pool_frame_def by simp
  with r p' show "pool_inv p' M" "pool_frame (set freed) p p'"
    "freed = filter (\<lambda>q. pm_inflight_refs (meta p q) = 0) (pp_reclaim_pending p)"
    "pp_reclaim_pending p' = filter (\<lambda>q. pm_inflight_refs (meta p q) \<noteq> 0) (pp_reclaim_pending p)"
    "pp_free_pages p' = pp_free_pages p @ freed"
    by auto
qed

section \<open>Copy-on-write\<close>

text \<open>The reserved destinations of a plan: distinct, private, with no reader.\<close>

definition reserved_ok :: "page_pool \<Rightarrow> nat list \<Rightarrow> bool" where
  "reserved_ok p ds \<longleftrightarrow>
     distinct ds \<and> (\<forall>d \<in> set ds. pm_state (meta p d) = Private \<and> pm_inflight_refs (meta p d) = 0)"

lemma reserved_ok_frame:
  "reserved_ok p ds \<Longrightarrow> pool_frame S p p' \<Longrightarrow> S \<inter> set ds = {} \<Longrightarrow> reserved_ok p' ds"
  unfolding reserved_ok_def using pool_frame_meta by (metis disjoint_iff)

lemma release_reserved_all_inv:
  assumes "pool_inv p M" "reserved_ok p ds" "mset ds \<subseteq># M"
  shows "pool_inv (release_reserved_all p ds) (M - mset ds)
         \<and> pool_frame (set ds) p (release_reserved_all p ds)"
  using assms
proof (induction ds arbitrary: p M)
  case Nil
  then show ?case by simp
next
  case (Cons d ds)
  then have d: "d \<in># M" and sub: "mset ds \<subseteq># M - {#d#}" by (simp_all add: insert_subset_eq_iff)
  have dd: "d \<notin> set ds" "pm_state (meta p d) = Private" "pm_inflight_refs (meta p d) = 0"
    "reserved_ok p ds"
    using Cons.prems(2) by (simp_all add: reserved_ok_def)
  note r = release_reserved_inv [OF Cons.prems(1) d dd(2,3)]
  have "reserved_ok (release_reserved p d) ds"
    using reserved_ok_frame [OF dd(4) r(2)] dd(1) by simp
  from Cons.IH [OF r(1) this sub] show ?case
    using pool_frame_trans [OF r(2)] by fastforce
qed

text \<open>The pages a write interval must copy: mapped, and sealed or held by the cache.\<close>

definition cow_needed :: "page_pool \<Rightarrow> block_table \<Rightarrow> nat \<Rightarrow> bool" where
  "cow_needed p t lp \<longleftrightarrow>
     lp < num_pages t \<and> pm_state (meta p (bt_pages t ! lp)) \<in> {Sealed, CacheOnly}"

definition cow_copy_ok :: "page_pool \<Rightarrow> block_table \<Rightarrow> nat \<Rightarrow> cow_copy \<Rightarrow> bool" where
  "cow_copy_ok p t write_start c \<longleftrightarrow>
     physical t (cc_logical_page c) = Some (cc_src_phys c)
     \<and> cc_valid_prefix_tokens c = min (write_start - cc_logical_page c * PAGE_TOKENS) PAGE_TOKENS
     \<and> cc_k_copy_bytes c = cc_valid_prefix_tokens c * pp_k_per_pos_bytes p
     \<and> cc_v_copy_bytes c = cc_valid_prefix_tokens c * pp_v_per_pos_bytes p"

text \<open>
  The planning loop. It succeeds exactly when there are enough free pages, plans one copy for each
  page that needs one, in order, and touches only the pages it reserves; when it runs out it gives
  back every page reserved so far.
\<close>

lemma plan_cow_loop_Ok:
  assumes "pool_inv p M" "set (bt_pages t) \<subseteq> set_mset M"
    "length (filter (cow_needed p t) lps) \<le> length (pp_free_pages p)"
  shows "\<exists>p' new. plan_cow_loop p t ws lps copies = (p', Ok (copies @ new))
           \<and> map cc_logical_page new = filter (cow_needed p t) lps
           \<and> (\<forall>c \<in> set new. cow_copy_ok p t ws c)
           \<and> pool_inv p' (M + mset (map cc_dst_phys new))
           \<and> pool_frame (set (map cc_dst_phys new)) p p'
           \<and> reserved_ok p' (map cc_dst_phys new)
           \<and> set (map cc_dst_phys new) \<inter> set_mset M = {}
           \<and> pp_free_pages p = pp_free_pages p' @ rev (map cc_dst_phys new)"
  using assms
proof (induction lps arbitrary: p M copies)
  case Nil
  then show ?case by (simp add: reserved_ok_def)
next
  case (Cons lp lps)
  note inv = Cons.prems(1) and own = Cons.prems(2)
  have inb: "\<not> length (pp_page_meta p) \<le> bt_pages t ! lp" if "lp < num_pages t"
    using that own pool_inv_bound [OF inv] pool_inv_length [OF inv]
    by (auto simp: num_pages_def not_le subset_iff)
  show ?case
  proof (cases "cow_needed p t lp")
    case False
    then have "plan_cow_loop p t ws (lp # lps) copies = plan_cow_loop p t ws lps copies"
      using inb by (auto simp: cow_needed_def physical_def vec_get_def num_pages_def)
    then show ?thesis using Cons.IH [OF inv own] Cons.prems(3) False by simp
  next
    case True
    with Cons.prems(3) obtain d p1 where tf: "take_free p = Some (d, p1)"
      by (cases "take_free p") (auto simp: take_free_None)
    note t1 = take_free_Some [OF tf] and i1 = take_free_inv [OF inv tf]
    let ?v = "min (ws - lp * PAGE_TOKENS) PAGE_TOKENS"
    let ?c = "\<lparr>cc_logical_page = lp, cc_src_phys = bt_pages t ! lp, cc_dst_phys = d,
               cc_valid_prefix_tokens = ?v, cc_k_copy_bytes = ?v * pp_k_per_pos_bytes p,
               cc_v_copy_bytes = ?v * pp_v_per_pos_bytes p\<rparr>"
    have geo: "pp_k_per_pos_bytes p1 = pp_k_per_pos_bytes p" "pp_v_per_pos_bytes p1 = pp_v_per_pos_bytes p"
      using t1(2) by (simp_all add: pool_frame_def)
    have "meta p1 r = meta p r" if "r \<in> set (bt_pages t)" for r
      by (rule pool_frame_meta [OF t1(2)]) (use that own i1(3) in auto)
    then have same: "cow_needed p1 t = cow_needed p t"
      by (simp add: cow_needed_def num_pages_def fun_eq_iff cong: conj_cong)
    have step: "plan_cow_loop p t ws (lp # lps) copies = plan_cow_loop p1 t ws lps (copies @ [?c])"
      using True inb tf by (auto simp: cow_needed_def physical_def vec_get_def num_pages_def Let_def)
    have own1: "set (bt_pages t) \<subseteq> set_mset (add_mset d M)" using own by auto
    have room: "length (filter (cow_needed p1 t) lps) \<le> length (pp_free_pages p1)"
      using Cons.prems(3) True t1(1) by (simp add: same)
    from Cons.IH [OF i1(1) own1 room, of "copies @ [?c]"] obtain p' new where
      e: "plan_cow_loop p1 t ws lps (copies @ [?c]) = (p', Ok ((copies @ [?c]) @ new))"
      and r: "map cc_logical_page new = filter (cow_needed p1 t) lps"
        "\<forall>c \<in> set new. cow_copy_ok p1 t ws c"
        "pool_inv p' (add_mset d M + mset (map cc_dst_phys new))"
        "pool_frame (set (map cc_dst_phys new)) p1 p'" "reserved_ok p' (map cc_dst_phys new)"
        "set (map cc_dst_phys new) \<inter> set_mset (add_mset d M) = {}"
        "pp_free_pages p1 = pp_free_pages p' @ rev (map cc_dst_phys new)"
      by blast
    have "meta p' d = meta p1 d" using pool_frame_meta [OF r(4)] r(6) by auto
    then have res: "reserved_ok p' (map cc_dst_phys (?c # new))"
      using r(5,6) i1(4,5) by (auto simp: reserved_ok_def)
    have fr: "pool_frame (set (map cc_dst_phys (?c # new))) p p'"
      using pool_frame_trans [OF t1(2) r(4)] by simp
    have cok: "\<forall>c \<in> set (?c # new). cow_copy_ok p t ws c"
      using r(2) True geo
      by (auto simp: cow_copy_ok_def cow_needed_def physical_def vec_get_def num_pages_def)
    show ?thesis
      by (rule exI [of _ p'], rule exI [of _ "?c # new"])
        (use step e r(1,3,6) True i1(3) t1(1) r(7) res fr cok in \<open>auto simp: same\<close>)
  qed
qed

end
