(* ===== verification/Page_Pool_Cow.thy ===== *)
theory Page_Pool_Cow
  imports Page_Pool_Inv
begin

text \<open>
  Copy-on-write of the page pool as a transaction: a plan that cannot be completed gives its
  reservations back, a committed plan leaves every page of the write interval private to its
  table, and an aborted plan restores the ledger.
\<close>

section \<open>A plan that runs out of pages\<close>

lemma release_reserved_all_free:
  "pp_free_pages (release_reserved_all p ds) = pp_free_pages p @ ds"
  by (induction ds arbitrary: p) (simp_all add: release_reserved_def free_page_def)

lemma plan_cow_loop_Err:
  assumes "pool_inv p M" "set (bt_pages t) \<subseteq> set_mset M - set (map cc_dst_phys copies)"
    "length (pp_free_pages p) < length (filter (cow_needed p t) lps)"
    "reserved_ok p (map cc_dst_phys copies)" "mset (map cc_dst_phys copies) \<subseteq># M"
  shows "\<exists>p' lp phys. plan_cow_loop p t ws lps copies = (p', Err (CowOom lp phys))
           \<and> pool_inv p' (M - mset (map cc_dst_phys copies))
           \<and> mset (pp_free_pages p') = mset (pp_free_pages p) + mset (map cc_dst_phys copies)
           \<and> pool_frame (set (pp_free_pages p') ) p p'"
  using assms
proof (induction lps arbitrary: p M copies)
  case Nil
  then show ?case by simp
next
  case (Cons lp lps)
  note inv = Cons.prems(1) and own = Cons.prems(2)
  have inb: "\<not> length (pp_page_meta p) \<le> bt_pages t ! lp" if "lp < num_pages t"
    using that own pool_inv_bound [OF inv] pool_inv_length [OF inv]
    by (auto simp: num_pages_def not_le subset_iff)
  consider (skip) "\<not> cow_needed p t lp" | (oom) "cow_needed p t lp" "take_free p = None"
    | (take) d p1 where "cow_needed p t lp" "take_free p = Some (d, p1)"
    by fastforce
  then show ?case
  proof cases
    case skip
    then have "plan_cow_loop p t ws (lp # lps) copies = plan_cow_loop p t ws lps copies"
      using inb by (auto simp: cow_needed_def physical_def vec_get_def num_pages_def)
    then show ?thesis using Cons.IH [OF inv own _ Cons.prems(4,5)] Cons.prems(3) skip by simp
  next
    case oom
    then have "plan_cow_loop p t ws (lp # lps) copies
                 = (release_reserved_all p (map cc_dst_phys copies), Err (CowOom lp (bt_pages t ! lp)))"
      using inb by (auto simp: cow_needed_def physical_def vec_get_def num_pages_def)
    then show ?thesis
      using release_reserved_all_inv [OF inv Cons.prems(4,5)] oom(2)
      by (auto simp: release_reserved_all_free take_free_None)
  next
    case (take d p1)
    note t1 = take_free_Some [OF take(2)] and i1 = take_free_inv [OF inv take(2)]
    obtain c where step: "plan_cow_loop p t ws (lp # lps) copies = plan_cow_loop p1 t ws lps (copies @ [c])"
      and c: "cc_dst_phys c = d"
      using take inb by (auto simp: cow_needed_def physical_def vec_get_def num_pages_def Let_def)
    have "meta p1 r = meta p r" if "r \<in> set (bt_pages t)" for r
      by (rule pool_frame_meta [OF t1(2)]) (use that own i1(3) in auto)
    then have same: "cow_needed p1 t = cow_needed p t"
      by (simp add: cow_needed_def num_pages_def fun_eq_iff cong: conj_cong)
    have dn: "d \<notin> set (map cc_dst_phys copies)"
      using i1(3) mset_subset_eqD [OF Cons.prems(5), of d] by auto
    then have res: "reserved_ok p1 (map cc_dst_phys (copies @ [c]))"
      using reserved_ok_frame [OF Cons.prems(4) t1(2)] i1(4,5) c by (auto simp: reserved_ok_def)
    have own1: "set (bt_pages t) \<subseteq> set_mset (add_mset d M) - set (map cc_dst_phys (copies @ [c]))"
      using own i1(3) c by auto
    have room: "length (pp_free_pages p1) < length (filter (cow_needed p1 t) lps)"
      using Cons.prems(3) take(1) t1(1) by (simp add: same)
    have sub: "mset (map cc_dst_phys (copies @ [c])) \<subseteq># add_mset d M"
      using Cons.prems(5) c by simp
    from Cons.IH [OF i1(1) own1 room res sub] obtain p' lp' phys where
      e: "plan_cow_loop p1 t ws lps (copies @ [c]) = (p', Err (CowOom lp' phys))"
      and r: "pool_inv p' (add_mset d M - mset (map cc_dst_phys (copies @ [c])))"
        "mset (pp_free_pages p') = mset (pp_free_pages p1) + mset (map cc_dst_phys (copies @ [c]))"
        "pool_frame (set (pp_free_pages p')) p1 p'"
      by blast
    have "d \<in> set (pp_free_pages p')" using arg_cong [OF r(2), of set_mset] c by auto
    then have "pool_frame (set (pp_free_pages p')) p p'"
      using pool_frame_trans [OF t1(2) r(3)] by (simp add: insert_absorb)
    then show ?thesis using step e r(1,2) c t1(1) by simp
  qed
qed

section \<open>Plans\<close>

definition write_pages :: "nat \<Rightarrow> nat \<Rightarrow> nat list" where
  "write_pages ws we = (if ws < we then [ws div PAGE_TOKENS ..< (we - 1) div PAGE_TOKENS + 1] else [])"

lemma plan_cow_Ok_inv:
  assumes inv: "pool_inv p M" and own: "set (bt_pages t) \<subseteq> set_mset M" and le: "ws \<le> we"
    and room: "length (filter (cow_needed p t) (write_pages ws we)) \<le> length (pp_free_pages p)"
  obtains p' plan where "plan_cow p t ws we = (p', Ok plan)"
    "map cc_logical_page (cp_copies plan) = filter (cow_needed p t) (write_pages ws we)"
    "\<forall>c \<in> set (cp_copies plan). cow_copy_ok p t ws c"
    "pool_inv p' (M + mset (map cc_dst_phys (cp_copies plan)))"
    "pool_frame (set (map cc_dst_phys (cp_copies plan))) p p'"
    "reserved_ok p' (map cc_dst_phys (cp_copies plan))"
    "set (map cc_dst_phys (cp_copies plan)) \<inter> set_mset M = {}"
    "pp_free_pages p = pp_free_pages p' @ rev (map cc_dst_phys (cp_copies plan))"
proof (cases "ws = we")
  case True
  then show thesis
    using that [of p "\<lparr>cp_copies = [], cp_armed = False\<rparr>"] inv
    by (simp add: plan_cow_def write_pages_def reserved_ok_def)
next
  case False
  from plan_cow_loop_Ok [OF inv own room, of ws "[]"] obtain p' new where
    e: "plan_cow_loop p t ws (write_pages ws we) [] = (p', Ok new)"
    and r: "map cc_logical_page new = filter (cow_needed p t) (write_pages ws we)"
      "\<forall>c \<in> set new. cow_copy_ok p t ws c"
      "pool_inv p' (M + mset (map cc_dst_phys new))" "pool_frame (set (map cc_dst_phys new)) p p'"
      "reserved_ok p' (map cc_dst_phys new)" "set (map cc_dst_phys new) \<inter> set_mset M = {}"
      "pp_free_pages p = pp_free_pages p' @ rev (map cc_dst_phys new)"
    by auto
  have "plan_cow p t ws we = (p', Ok \<lparr>cp_copies = new, cp_armed = True\<rparr>)"
    using e False le by (simp add: plan_cow_def write_pages_def)
  then show thesis by (rule that) (use r in simp_all)
qed

lemma plan_cow_Err_inv:
  assumes inv: "pool_inv p M" and own: "set (bt_pages t) \<subseteq> set_mset M" and le: "ws \<le> we"
    and room: "length (pp_free_pages p) < length (filter (cow_needed p t) (write_pages ws we))"
  obtains p' lp phys where "plan_cow p t ws we = (p', Err (CowOom lp phys))" "pool_inv p' M"
    "mset (pp_free_pages p') = mset (pp_free_pages p)" "pool_frame (set (pp_free_pages p)) p p'"
proof -
  have ne: "ws < we" using room by (auto simp: write_pages_def split: if_splits)
  from plan_cow_loop_Err [OF inv _ room, of "[]" ws] own obtain p' lp phys where
    e: "plan_cow_loop p t ws (write_pages ws we) [] = (p', Err (CowOom lp phys))"
    and r: "pool_inv p' M" "mset (pp_free_pages p') = mset (pp_free_pages p)"
      "pool_frame (set (pp_free_pages p')) p p'"
    by (auto simp: reserved_ok_def)
  have "plan_cow p t ws we = (p', Err (CowOom lp phys))"
    using e ne by (simp add: plan_cow_def write_pages_def)
  then show thesis by (rule that) (use r mset_eq_setD [OF r(2)] in simp_all)
qed

section \<open>Commit\<close>

definition cow_maps :: "block_table \<Rightarrow> cow_copy list \<Rightarrow> bool" where
  "cow_maps t cs \<longleftrightarrow> distinct (map cc_logical_page cs)
     \<and> (\<forall>c \<in> set cs. physical t (cc_logical_page c) = Some (cc_src_phys c))"

lemma verify_cow_ok:
  assumes inv: "pool_inv p M" and own: "set (bt_pages t) \<subseteq> set_mset M"
  shows "\<forall>c \<in> set cs. physical t (cc_logical_page c) = Some (cc_src_phys c) \<Longrightarrow> verify_cow p t cs = Ok ()"
proof (induction cs)
  case (Cons c cs)
  then have "cc_src_phys c \<in># M"
    using own by (auto simp: physical_def vec_get_Some)
  from pool_inv_live [OF inv this] pool_inv_length [OF inv] Cons show ?case by simp
qed simp

text \<open>The pages of the table after every copy is rebound.\<close>

definition rebind :: "cow_copy list \<Rightarrow> nat list \<Rightarrow> nat list" where
  "rebind cs pages = foldl (\<lambda>xs c. xs[cc_logical_page c := cc_dst_phys c]) pages cs"

lemma length_rebind [simp]: "length (rebind cs pages) = length pages"
  unfolding rebind_def by (induction cs arbitrary: pages) simp_all

lemma rebind_other: "lp \<notin> set (map cc_logical_page cs) \<Longrightarrow> rebind cs pages ! lp = pages ! lp"
  unfolding rebind_def by (induction cs arbitrary: pages) auto

lemma rebind_copied:
  "distinct (map cc_logical_page cs) \<Longrightarrow> c \<in> set cs \<Longrightarrow> cc_logical_page c < length pages
   \<Longrightarrow> rebind cs pages ! cc_logical_page c = cc_dst_phys c"
proof (induction cs arbitrary: pages)
  case (Cons a cs)
  have r: "rebind (a # cs) pages = rebind cs (pages[cc_logical_page a := cc_dst_phys a])"
    by (simp add: rebind_def)
  show ?case
  proof (cases "c = a")
    case True
    with Cons.prems show ?thesis using rebind_other [of "cc_logical_page c" cs] by (simp add: r)
  next
    case False
    with Cons show ?thesis by (simp add: r)
  qed
qed simp

lemma apply_cow_inv:
  assumes "pool_inv p (R + mset (bt_pages t) + mset (map cc_dst_phys cs))" "cow_maps t cs"
  shows "\<exists>p'. apply_cow p t cs = (p', t\<lparr>bt_pages := rebind cs (bt_pages t)\<rparr>, Ok ())
           \<and> pool_inv p' (R + mset (rebind cs (bt_pages t)))
           \<and> pool_frame (set (map cc_src_phys cs)) p p'"
  using assms
proof (induction cs arbitrary: p t)
  case Nil
  then show ?case by (simp add: rebind_def)
next
  case (Cons c cs)
  let ?lp = "cc_logical_page c" and ?s = "cc_src_phys c" and ?d = "cc_dst_phys c"
  let ?M = "R + mset (bt_pages t) + mset (map cc_dst_phys (c # cs))"
  let ?t = "t\<lparr>bt_pages := (bt_pages t)[?lp := ?d]\<rparr>"
  have lp: "?lp < length (bt_pages t)" "bt_pages t ! ?lp = ?s"
    using Cons.prems(2) by (auto simp: cow_maps_def physical_def vec_get_Some)
  then have sm: "?s \<in># mset (bt_pages t)" by (metis nth_mem set_mset_mset)
  then have "?s \<in># ?M" by simp
  from dec_table_ref_owned [OF Cons.prems(1) this] obtain p1 where
    d: "dec_table_ref p ?s = (p1, Ok ())" "pool_inv p1 (?M - {#?s#})" "pool_frame {?s} p p1" .
  have "?M - {#?s#} = R + mset (bt_pages ?t) + mset (map cc_dst_phys cs)"
    using lp sm by (simp add: mset_update multiset_eq_iff)
  then have i1: "pool_inv p1 (R + mset (bt_pages ?t) + mset (map cc_dst_phys cs))" using d(2) by simp
  have "cow_maps ?t cs"
    using Cons.prems(2) by (auto simp: cow_maps_def physical_def vec_get_Some nth_list_update image_iff)
  from Cons.IH [OF i1 this] obtain p' where
    r: "apply_cow p1 ?t cs = (p', ?t\<lparr>bt_pages := rebind cs (bt_pages ?t)\<rparr>, Ok ())"
    "pool_inv p' (R + mset (rebind cs (bt_pages ?t)))" "pool_frame (set (map cc_src_phys cs)) p1 p'"
    by blast
  have "set_page t ?lp ?d = ?t" using lp(1) by (simp add: set_page_def)
  with r d pool_frame_trans [OF d(3) r(3)] show ?case
    by (intro exI [of _ p']) (simp add: Let_def rebind_def)
qed

lemma commit_cow_inv:
  assumes inv: "pool_inv p (R + mset (bt_pages t) + mset (map cc_dst_phys (cp_copies plan)))"
    and maps: "cow_maps t (cp_copies plan)"
  obtains p' where
    "commit_cow p t plan = (p', t\<lparr>bt_pages := rebind (cp_copies plan) (bt_pages t)\<rparr>, Ok ())"
    "pool_inv p' (R + mset (rebind (cp_copies plan) (bt_pages t)))"
    "pool_frame (set (map cc_src_phys (cp_copies plan))) p p'"
proof -
  have "verify_cow p t (cp_copies plan) = Ok ()"
    by (rule verify_cow_ok [OF inv]) (use maps in \<open>auto simp: cow_maps_def\<close>)
  with apply_cow_inv [OF inv maps] that show thesis by (auto simp: commit_cow_def)
qed

section \<open>What a granted plan and its commit leave\<close>

lemma plan_cow_OkD:
  assumes inv: "pool_inv p M" and own: "set (bt_pages t) \<subseteq> set_mset M"
    and e: "plan_cow p t ws we = (p1, Ok plan)"
  shows "ws \<le> we"
    "map cc_logical_page (cp_copies plan) = filter (cow_needed p t) (write_pages ws we)"
    "\<forall>c \<in> set (cp_copies plan). cow_copy_ok p t ws c"
    "pool_inv p1 (M + mset (map cc_dst_phys (cp_copies plan)))"
    "pool_frame (set (map cc_dst_phys (cp_copies plan))) p p1"
    "reserved_ok p1 (map cc_dst_phys (cp_copies plan))"
    "set (map cc_dst_phys (cp_copies plan)) \<inter> set_mset M = {}"
    "pp_free_pages p = pp_free_pages p1 @ rev (map cc_dst_phys (cp_copies plan))"
    "cow_maps t (cp_copies plan)"
proof -
  show le: "ws \<le> we" using e by (auto simp: plan_cow_def not_less split: if_splits)
  have "length (filter (cow_needed p t) (write_pages ws we)) \<le> length (pp_free_pages p)"
    using plan_cow_Err_inv [OF inv own le] e by (metis Inl_Inr_False not_le prod.inject)
  note r = plan_cow_Ok_inv [OF inv own le this]
  show lps: "map cc_logical_page (cp_copies plan) = filter (cow_needed p t) (write_pages ws we)"
    and ok: "\<forall>c \<in> set (cp_copies plan). cow_copy_ok p t ws c"
    and "pool_inv p1 (M + mset (map cc_dst_phys (cp_copies plan)))"
      "pool_frame (set (map cc_dst_phys (cp_copies plan))) p p1"
      "reserved_ok p1 (map cc_dst_phys (cp_copies plan))"
      "set (map cc_dst_phys (cp_copies plan)) \<inter> set_mset M = {}"
      "pp_free_pages p = pp_free_pages p1 @ rev (map cc_dst_phys (cp_copies plan))"
    using r e by (metis prod.inject sum.inject(2))+
  have "distinct (map cc_logical_page (cp_copies plan))" unfolding lps by (simp add: write_pages_def)
  then show "cow_maps t (cp_copies plan)" using ok by (simp add: cow_maps_def cow_copy_ok_def)
qed

lemma cow_copy_src:
  "cow_copy_ok p t ws c \<Longrightarrow> cc_logical_page c < num_pages t \<and> cc_src_phys c = bt_pages t ! cc_logical_page c"
  by (auto simp: cow_copy_ok_def physical_def vec_get_Some num_pages_def)

lemma cow_page_private:
  assumes inv: "pool_inv p M" and own: "set (bt_pages t) \<subseteq> set_mset M"
    and e: "plan_cow p t ws we = (p1, Ok plan)"
    and fr: "pool_frame (set (map cc_src_phys (cp_copies plan))) p1 p2"
    and lp: "lp < num_pages t" and w: "lp \<in> set (write_pages ws we)"
  shows "pm_state (meta p2 (rebind (cp_copies plan) (bt_pages t) ! lp)) = Private"
proof -
  let ?cs = "cp_copies plan"
  note P = plan_cow_OkD [OF inv own e]
  have src: "cow_needed p t (cc_logical_page c)" "cc_src_phys c = bt_pages t ! cc_logical_page c"
    "cc_logical_page c < num_pages t" if "c \<in> set ?cs" for c
  proof -
    have "cc_logical_page c \<in> set (map cc_logical_page ?cs)" using that by simp
    then show "cow_needed p t (cc_logical_page c)" unfolding P(2) by simp
    show "cc_src_phys c = bt_pages t ! cc_logical_page c" "cc_logical_page c < num_pages t"
      using cow_copy_src P(3) that by blast+
  qed
  show ?thesis
  proof (cases "lp \<in> set (map cc_logical_page ?cs)")
    case True
    then obtain c where c: "c \<in> set ?cs" "lp = cc_logical_page c" by auto
    have "cc_dst_phys c \<noteq> cc_src_phys c'" if "c' \<in> set ?cs" for c'
    proof -
      have "cc_src_phys c' \<in># M" using src(2,3) [OF that] own by (auto simp: num_pages_def)
      moreover have "cc_dst_phys c \<in> set (map cc_dst_phys ?cs)" using c(1) by simp
      ultimately show ?thesis using P(7) by auto
    qed
    then have "meta p2 (cc_dst_phys c) = meta p1 (cc_dst_phys c)"
      by (intro pool_frame_meta [OF fr]) auto
    moreover have "rebind ?cs (bt_pages t) ! lp = cc_dst_phys c"
      unfolding c(2) by (rule rebind_copied) (use P(9) c lp in \<open>simp_all add: cow_maps_def num_pages_def\<close>)
    ultimately show ?thesis using c(1) P(6) by (simp add: reserved_ok_def)
  next
    case False
    let ?q = "bt_pages t ! lp"
    have q: "?q \<in># M" using lp own by (auto simp: num_pages_def)
    have "\<not> cow_needed p t lp" using False w by (simp add: P(2))
    then have st: "pm_state (meta p ?q) = Private"
      using lp pool_inv_live(3,4) [OF inv q] by (cases "pm_state (meta p ?q)") (auto simp: cow_needed_def)
    have "meta p1 ?q = meta p ?q" by (rule pool_frame_meta [OF P(5)]) (use P(7) q in blast)
    moreover have "?q \<noteq> cc_src_phys c" if "c \<in> set ?cs" for c
      using st src [OF that] by (auto simp: cow_needed_def)
    then have "meta p2 ?q = meta p1 ?q" by (intro pool_frame_meta [OF fr]) auto
    ultimately show ?thesis using st rebind_other [OF False] by simp
  qed
qed

end
