(* ===== verification/Page_Pool_Steps.thy ===== *)
theory Page_Pool_Steps
  imports Page_Pool_Cow
begin

text \<open>
  The page pool together with the block tables and the copy-on-write plans its clients hold, as a
  state machine. A step is one call of a public method of \<^verbatim>\<open>PagePool\<close>, successful or not. The
  discipline the steps impose is the one the source documents: a plan is consumed by its commit or
  abort, a table belongs to one session, and nobody takes a lease on a page that is only reserved by
  a plan. Every reachable state satisfies the ownership invariant.
\<close>

section \<open>States and their ledger\<close>

record kv_state =
  ks_pool :: page_pool
  ks_tables :: "block_table list"
  ks_plans :: "cow_plan list"

definition reserved :: "kv_state \<Rightarrow> nat list" where
  "reserved s = concat (map (\<lambda>plan. map cc_dst_phys (cp_copies plan)) (ks_plans s))"

definition table_pages :: "kv_state \<Rightarrow> nat list" where
  "table_pages s = concat (map bt_pages (ks_tables s))"

definition owners :: "kv_state \<Rightarrow> nat multiset" where
  "owners s = mset (table_pages s) + mset (reserved s)"

text \<open>A plan names each logical page once, and sources inside the pool.\<close>

definition plan_wf :: "nat \<Rightarrow> cow_plan \<Rightarrow> bool" where
  "plan_wf n plan \<longleftrightarrow> distinct (map cc_logical_page (cp_copies plan))
                     \<and> (\<forall>c \<in> set (cp_copies plan). cc_src_phys c < n)"

definition kv_inv :: "kv_state \<Rightarrow> bool" where
  "kv_inv s \<longleftrightarrow> pool_inv (ks_pool s) (owners s) \<and> reserved_ok (ks_pool s) (reserved s)
               \<and> (\<forall>t \<in> set (ks_tables s). table_wf t)
               \<and> (\<forall>plan \<in> set (ks_plans s). plan_wf (pp_n_pages (ks_pool s)) plan)"

abbreviation put_table :: "kv_state \<Rightarrow> page_pool \<Rightarrow> nat \<Rightarrow> block_table \<Rightarrow> kv_state" where
  "put_table s p i t \<equiv> s\<lparr>ks_pool := p, ks_tables := (ks_tables s)[i := t]\<rparr>"

inductive pool_step :: "kv_state \<Rightarrow> kv_state \<Rightarrow> bool" where
  step_open: "pool_step s (s\<lparr>ks_tables := ks_tables s @ [bt_new]\<rparr>)"
| step_alloc: "i < length (ks_tables s) \<Longrightarrow> alloc_pages (ks_pool s) (ks_tables s ! i) n = (p, t, r)
    \<Longrightarrow> pool_step s (put_table s p i t)"
| step_alloc_checked: "i < length (ks_tables s)
    \<Longrightarrow> alloc_pages_checked (ks_pool s) (ks_tables s ! i) n = (p, t, rh)
    \<Longrightarrow> pool_step s (put_table s p i t)"
| step_ensure: "i < length (ks_tables s) \<Longrightarrow> ensure_capacity (ks_pool s) (ks_tables s ! i) n = (p, t, r)
    \<Longrightarrow> pool_step s (put_table s p i t)"
| step_share: "i < length (ks_tables s) \<Longrightarrow> j < length (ks_tables s) \<Longrightarrow> i \<noteq> j
    \<Longrightarrow> pool_share_prefix (ks_pool s) (ks_tables s ! i) (ks_tables s ! j) n = (p, t, ru)
    \<Longrightarrow> pool_step s (put_table s p j t)"
| step_attach: "i < length (ks_tables s) \<Longrightarrow> q \<notin> set (reserved s)
    \<Longrightarrow> refcount_inc (ks_pool s) q = (p, Ok ())
    \<Longrightarrow> pool_step s (put_table s p i (push_page (ks_tables s ! i) q))"
| step_release: "i < length (ks_tables s) \<Longrightarrow> release_table (ks_pool s) (ks_tables s ! i) = (p, t, ru)
    \<Longrightarrow> pool_step s (put_table s p i t)"
| step_tail: "i < length (ks_tables s)
    \<Longrightarrow> free_pages_from_tail (ks_pool s) (ks_tables s ! i) n = (p, t, ru)
    \<Longrightarrow> pool_step s (put_table s p i t)"
| step_seal: "q \<notin> set (reserved s) \<Longrightarrow> seal (ks_pool s) q = (p, ru) \<Longrightarrow> pool_step s (s\<lparr>ks_pool := p\<rparr>)"
| step_plan: "i < length (ks_tables s) \<Longrightarrow> plan_cow (ks_pool s) (ks_tables s ! i) ws we = (p, Ok plan)
    \<Longrightarrow> pool_step s (s\<lparr>ks_pool := p, ks_plans := plan # ks_plans s\<rparr>)"
| step_plan_failed: "i < length (ks_tables s)
    \<Longrightarrow> plan_cow (ks_pool s) (ks_tables s ! i) ws we = (p, Err e) \<Longrightarrow> pool_step s (s\<lparr>ks_pool := p\<rparr>)"
| step_commit: "i < length (ks_tables s) \<Longrightarrow> ks_plans s = before @ plan # after
    \<Longrightarrow> commit_cow (ks_pool s) (ks_tables s ! i) plan = (p, t, ru)
    \<Longrightarrow> pool_step s ((put_table s p i t)\<lparr>ks_plans := before @ after\<rparr>)"
| step_abort: "ks_plans s = before @ plan # after
    \<Longrightarrow> pool_step s (s\<lparr>ks_pool := abort_cow (ks_pool s) plan, ks_plans := before @ after\<rparr>)"
| step_add_inflight: "q \<notin> set (reserved s) \<Longrightarrow> add_inflight_ref (ks_pool s) q = (p, ru)
    \<Longrightarrow> pool_step s (s\<lparr>ks_pool := p\<rparr>)"
| step_release_inflight: "q \<notin> set (reserved s) \<Longrightarrow> release_inflight_ref (ks_pool s) q = (p, ru)
    \<Longrightarrow> pool_step s (s\<lparr>ks_pool := p\<rparr>)"
| step_drain: "drain_completed (ks_pool s) = (p, freed) \<Longrightarrow> pool_step s (s\<lparr>ks_pool := p\<rparr>)"
| step_add_cache: "q \<notin> set (reserved s) \<Longrightarrow> add_cache_ref (ks_pool s) q = (p, ru)
    \<Longrightarrow> pool_step s (s\<lparr>ks_pool := p\<rparr>)"
| step_release_cache: "q \<notin> set (reserved s) \<Longrightarrow> release_cache_ref (ks_pool s) q = (p, ru)
    \<Longrightarrow> pool_step s (s\<lparr>ks_pool := p\<rparr>)"

definition kv_init :: "nat \<Rightarrow> nat \<Rightarrow> nat \<Rightarrow> kv_state" where
  "kv_init n k v = \<lparr>ks_pool = with_checked_metadata n k v, ks_tables = [], ks_plans = []\<rparr>"

definition kv_reachable :: "nat \<Rightarrow> nat \<Rightarrow> nat \<Rightarrow> kv_state \<Rightarrow> bool" where
  "kv_reachable n k v s \<longleftrightarrow> pool_step\<^sup>*\<^sup>* (kv_init n k v) s"

section \<open>Moving one table\<close>

lemma kv_inv_split:
  assumes "i < length (ks_tables s)"
  obtains R where "owners s = R + mset (bt_pages (ks_tables s ! i))"
    "\<And>p t. owners (put_table s p i t) = R + mset (bt_pages t)"
    "set (reserved s) \<subseteq> set_mset R"
    "\<And>j. j < length (ks_tables s) \<Longrightarrow> j \<noteq> i \<Longrightarrow> set (bt_pages (ks_tables s ! j)) \<subseteq> set_mset R"
proof
  let ?T = "ks_tables s"
  let ?R = "mset (concat (map bt_pages (take i ?T @ drop (Suc i) ?T))) + mset (reserved s)"
  have s: "?T = take i ?T @ ?T ! i # drop (Suc i) ?T" using assms by (rule id_take_nth_drop)
  have "mset (concat (map bt_pages ?T))
          = mset (concat (map bt_pages (take i ?T @ ?T ! i # drop (Suc i) ?T)))"
    using s by simp
  then show "owners s = ?R + mset (bt_pages (?T ! i))"
    unfolding owners_def table_pages_def by simp
  show "owners (put_table s p i t) = ?R + mset (bt_pages t)" for p t
    using assms by (simp add: owners_def table_pages_def reserved_def upd_conv_take_nth_drop)
  show "set (reserved s) \<subseteq> set_mset ?R" by simp
  show "set (bt_pages (?T ! j)) \<subseteq> set_mset ?R" if "j < length ?T" "j \<noteq> i" for j
  proof -
    have "?T ! j \<in> set (take i ?T @ drop (Suc i) ?T)"
      using that assms
      by (cases "j < i") (auto simp: in_set_conv_nth intro: exI [of _ j] exI [of _ "j - Suc i"])
    then show ?thesis by auto
  qed
qed

lemma kv_inv_owned:
  "i < length (ks_tables s) \<Longrightarrow> set (bt_pages (ks_tables s ! i)) \<subseteq> set_mset (owners s)"
  "i < length (ks_tables s) \<Longrightarrow> mset (bt_pages (ks_tables s ! i)) \<subseteq># owners s"
  by (rule kv_inv_split [of i s]; simp)+

text \<open>A reserved page is in no table.\<close>

lemma reserved_disjoint:
  assumes inv: "kv_inv s"
  shows "set (reserved s) \<inter> set (table_pages s) = {}"
proof -
  have False if d: "d \<in> set (reserved s)" and t: "d \<in> set (table_pages s)" for d
  proof -
    have pi: "pool_inv (ks_pool s) (owners s)" and st: "pm_state (meta (ks_pool s) d) = Private"
      using inv d by (auto simp: kv_inv_def reserved_ok_def)
    have "d \<in># owners s" using d by (simp add: owners_def)
    note live = pool_inv_live [OF pi this]
    have "count (owners s) d = 1"
      using pool_inv_page_ok [OF pi live(1)] pool_inv_count [OF pi live(1)] st by (auto simp: page_ok_defs)
    moreover have "0 < count (mset (reserved s)) d" "0 < count (mset (table_pages s)) d"
      using d t by (simp_all add: count_mset_gt_0)
    ultimately show False by (simp add: owners_def)
  qed
  then show ?thesis by blast
qed

lemma reserved_put_table [simp]:
  "reserved (s\<lparr>ks_pool := p\<rparr>) = reserved s" "reserved (put_table s p i t) = reserved s"
  "owners (s\<lparr>ks_pool := p\<rparr>) = owners s"
  by (simp_all add: reserved_def owners_def table_pages_def)

lemma kv_inv_put_table:
  assumes inv: "kv_inv s" and pi: "pool_inv p' (owners (put_table s p' i t))"
    and fr: "pool_frame S (ks_pool s) p'" and dis: "S \<inter> set (reserved s) = {}" and wf: "table_wf t"
  shows "kv_inv (put_table s p' i t)"
  using inv pi reserved_ok_frame [OF _ fr dis] fr wf
  by (auto simp: kv_inv_def pool_frame_def dest!: set_update_subset_insert [THEN subsetD])

lemma kv_inv_put_pool:
  assumes inv: "kv_inv s" and pi: "pool_inv p' (owners s)"
    and fr: "pool_frame S (ks_pool s) p'" and dis: "S \<inter> set (reserved s) = {}"
  shows "kv_inv (s\<lparr>ks_pool := p'\<rparr>)"
  using inv pi reserved_ok_frame [OF _ fr dis] fr by (auto simp: kv_inv_def pool_frame_def)

section \<open>Every step keeps the invariant\<close>

lemma kv_inv_pool [dest]: "kv_inv s \<Longrightarrow> pool_inv (ks_pool s) (owners s)"
  by (simp add: kv_inv_def)

lemma kv_inv_table_wf: "kv_inv s \<Longrightarrow> i < length (ks_tables s) \<Longrightarrow> table_wf (ks_tables s ! i)"
  by (simp add: kv_inv_def)

lemma kv_inv_tables_unreserved:
  "kv_inv s \<Longrightarrow> i < length (ks_tables s) \<Longrightarrow> set (bt_pages (ks_tables s ! i)) \<inter> set (reserved s) = {}"
  using reserved_disjoint [of s] nth_mem [of i "ks_tables s"] by (fastforce simp: table_pages_def)

text \<open>Appending freshly allocated pages to a table.\<close>

lemma kv_inv_grow:
  assumes inv: "kv_inv s" and i: "i < length (ks_tables s)" and pi: "pool_inv p' (owners s + mset pages)"
    and fr: "pool_frame (set pages) (ks_pool s) p'"
    and fp: "pp_free_pages (ks_pool s) = pp_free_pages p' @ rev pages"
    and t: "bt_pages t = bt_pages (ks_tables s ! i) @ pages" and wf: "table_wf t"
  shows "kv_inv (put_table s p' i t)"
proof -
  obtain R where R: "owners s = R + mset (bt_pages (ks_tables s ! i))"
    "\<And>p t. owners (put_table s p i t) = R + mset (bt_pages t)"
    using kv_inv_split [OF i] by metis
  have "pool_inv p' (owners (put_table s p' i t))" using pi t by (simp add: R add.assoc)
  moreover have "set pages \<inter> set (reserved s) = {}"
  proof -
    have "d \<notin> set (reserved s)" if "d \<in> set pages" for d
      using that fp inv pool_inv_free [OF kv_inv_pool [OF inv], of d] by (auto simp: kv_inv_def reserved_ok_def)
    then show ?thesis by blast
  qed
  ultimately show ?thesis using kv_inv_put_table [OF inv _ fr _ wf] by blast
qed

lemma table_wf_append: "table_wf t \<Longrightarrow> table_wf (t\<lparr>bt_pages := bt_pages t @ pages\<rparr>)"
  by (simp add: table_wf_def num_pages_def add_mult_distrib)

lemma kv_inv_alloc:
  assumes inv: "kv_inv s" and i: "i < length (ks_tables s)"
    and e: "alloc_pages (ks_pool s) (ks_tables s ! i) n = (p, t, r)"
  shows "kv_inv (put_table s p i t)"
proof -
  from alloc_pages_inv [OF kv_inv_pool [OF inv], of "ks_tables s ! i" n] e obtain pages where
    "t = (ks_tables s ! i)\<lparr>bt_pages := bt_pages (ks_tables s ! i) @ pages\<rparr>"
    "pool_inv p (owners s + mset pages)" "pool_frame (set pages) (ks_pool s) p"
    "pp_free_pages (ks_pool s) = pp_free_pages p @ rev pages"
    by (metis prod.inject)
  then show ?thesis
    using kv_inv_grow [OF inv i, of p pages t] table_wf_append [OF kv_inv_table_wf [OF inv i]] by simp
qed

lemma kv_inv_alloc_checked:
  assumes inv: "kv_inv s" and i: "i < length (ks_tables s)"
    and e: "alloc_pages_checked (ks_pool s) (ks_tables s ! i) n = (p, t, r)"
  shows "kv_inv (put_table s p i t)"
proof (cases "n \<le> length (pp_free_pages (ks_pool s))")
  case True
  from alloc_pages_checked_inv [OF kv_inv_pool [OF inv] True, of "ks_tables s ! i"] e obtain pages where
    "t = (ks_tables s ! i)\<lparr>bt_pages := bt_pages (ks_tables s ! i) @ pages\<rparr>"
    "pool_inv p (owners s + mset pages)" "pool_frame (set pages) (ks_pool s) p"
    "pp_free_pages (ks_pool s) = pp_free_pages p @ rev pages"
    by (metis prod.inject)
  then show ?thesis
    using kv_inv_grow [OF inv i, of p pages t] table_wf_append [OF kv_inv_table_wf [OF inv i]] by simp
next
  case False
  then have "p = ks_pool s" "t = ks_tables s ! i" using e by (simp_all add: alloc_pages_checked_def)
  then show ?thesis using inv by simp
qed

lemma kv_inv_ensure:
  assumes inv: "kv_inv s" and i: "i < length (ks_tables s)"
    and e: "ensure_capacity (ks_pool s) (ks_tables s ! i) n = (p, t, r)"
  shows "kv_inv (put_table s p i t)"
proof (cases "div_ceil n PAGE_TOKENS \<le> num_pages (ks_tables s ! i) + length (pp_free_pages (ks_pool s))")
  case True
  from ensure_capacity_Ok [OF kv_inv_pool [OF inv] True] e obtain pages where
    t: "t = (ks_tables s ! i)\<lparr>bt_pages := bt_pages (ks_tables s ! i) @ pages, bt_live_tokens := n\<rparr>"
    and r: "length pages = div_ceil n PAGE_TOKENS - num_pages (ks_tables s ! i)"
      "pool_inv p (owners s + mset pages)" "pool_frame (set pages) (ks_pool s) p"
      "pp_free_pages (ks_pool s) = pp_free_pages p @ rev pages"
    by (metis prod.inject)
  have "div_ceil n PAGE_TOKENS \<le> length (bt_pages t)" using t r(1) by (simp add: num_pages_def)
  then have "table_wf t" using t by (simp add: table_wf_def num_pages_def div_ceil_le_iff)
  then show ?thesis using kv_inv_grow [OF inv i r(2-4)] t by simp
next
  case False
  then have "p = ks_pool s" "t = ks_tables s ! i"
    using e ensure_capacity_Err [of "ks_tables s ! i" "ks_pool s" n] by simp_all
  then show ?thesis using inv by simp
qed

lemma kv_inv_share:
  assumes inv: "kv_inv s" and ij: "i < length (ks_tables s)" "j < length (ks_tables s)" "i \<noteq> j"
    and e: "pool_share_prefix (ks_pool s) (ks_tables s ! i) (ks_tables s ! j) n = (p, t, r)"
  shows "kv_inv (put_table s p j t)"
proof (cases "p = ks_pool s \<and> t = ks_tables s ! j")
  case True
  then show ?thesis using inv by simp
next
  case False
  let ?xs = "take n (bt_pages (ks_tables s ! i))"
  have e': "share_loop (ks_pool s) (ks_tables s ! j) ?xs = (p, t, r)"
    using e False by (auto simp: pool_share_prefix_def split: if_splits)
  have own: "set ?xs \<subseteq> set_mset (owners s)"
    using kv_inv_owned(1) [OF ij(1)] set_take_subset by fast
  from share_loop_inv [OF kv_inv_pool [OF inv] own, of "ks_tables s ! j"] e' obtain k where
    t: "t = (ks_tables s ! j)\<lparr>bt_pages := bt_pages (ks_tables s ! j) @ take k ?xs\<rparr>"
    and r: "pool_inv p (owners s + mset (take k ?xs))" "pool_frame (set (take k ?xs)) (ks_pool s) p"
    by auto
  obtain R where R: "owners s = R + mset (bt_pages (ks_tables s ! j))"
    "\<And>p t. owners (put_table s p j t) = R + mset (bt_pages t)"
    using kv_inv_split [OF ij(2)] by metis
  have "set (take k ?xs) \<inter> set (reserved s) = {}"
    using kv_inv_tables_unreserved [OF inv ij(1)] set_take_subset [of k ?xs]
      set_take_subset [of n "bt_pages (ks_tables s ! i)"] by blast
  then show ?thesis
    by (intro kv_inv_put_table [OF inv _ r(2)])
      (use r(1) R t table_wf_append [OF kv_inv_table_wf [OF inv ij(2)]] in \<open>simp_all add: add.assoc\<close>)
qed

lemma kv_inv_attach:
  assumes inv: "kv_inv s" and i: "i < length (ks_tables s)" and q: "q \<notin> set (reserved s)"
    and e: "refcount_inc (ks_pool s) q = (p, Ok ())"
  shows "kv_inv (put_table s p i (push_page (ks_tables s ! i) q))"
proof -
  obtain R where R: "owners s = R + mset (bt_pages (ks_tables s ! i))"
    "\<And>p t. owners (put_table s p i t) = R + mset (bt_pages t)"
    using kv_inv_split [OF i] by metis
  from refcount_inc_inv [OF kv_inv_pool [OF inv] e]
  have r: "pool_inv p (add_mset q (owners s))" "pool_frame {q} (ks_pool s) p" by simp_all
  show ?thesis
    by (rule kv_inv_put_table [OF inv _ r(2)])
      (use r(1) R q table_wf_append [OF kv_inv_table_wf [OF inv i], of "[q]"]
        in \<open>simp_all add: push_page_def\<close>)
qed

text \<open>Taking pages away from a table.\<close>

lemma kv_inv_shrink:
  assumes inv: "kv_inv s" and i: "i < length (ks_tables s)"
    and split: "bt_pages (ks_tables s ! i) = bt_pages t @ gone"
    and pi: "pool_inv p' (owners s - mset gone)" and fr: "pool_frame (set gone) (ks_pool s) p'"
    and wf: "table_wf t"
  shows "kv_inv (put_table s p' i t)"
proof -
  obtain R where R: "owners s = R + mset (bt_pages (ks_tables s ! i))"
    "\<And>p t. owners (put_table s p i t) = R + mset (bt_pages t)"
    using kv_inv_split [OF i] by metis
  have "pool_inv p' (owners (put_table s p' i t))" using pi by (simp add: R split add.assoc [symmetric])
  moreover have "set gone \<inter> set (reserved s) = {}"
    using kv_inv_tables_unreserved [OF inv i] split by auto
  ultimately show ?thesis using kv_inv_put_table [OF inv _ fr _ wf] by blast
qed

lemma kv_inv_release:
  assumes inv: "kv_inv s" and i: "i < length (ks_tables s)"
    and e: "release_table (ks_pool s) (ks_tables s ! i) = (p, t, r)"
  shows "kv_inv (put_table s p i t)"
proof -
  from release_table_inv [OF kv_inv_pool [OF inv] kv_inv_owned(2) [OF i]] e
  have "t = bt_new" "pool_inv p (owners s - mset (bt_pages (ks_tables s ! i)))"
    "pool_frame (set (bt_pages (ks_tables s ! i))) (ks_pool s) p"
    by (metis prod.inject)+
  then show ?thesis
    by (intro kv_inv_shrink [OF inv i]) (simp_all add: bt_new_def table_wf_def)
qed

lemma kv_inv_tail:
  assumes inv: "kv_inv s" and i: "i < length (ks_tables s)"
    and e: "free_pages_from_tail (ks_pool s) (ks_tables s ! i) n = (p, t, r)"
  shows "kv_inv (put_table s p i t)"
proof -
  let ?t = "ks_tables s ! i"
  let ?k = "num_pages ?t - n"
  from free_pages_from_tail_inv [OF kv_inv_pool [OF inv] kv_inv_owned(2) [OF i] refl, of n] e
  have t: "t = ?t\<lparr>bt_pages := take ?k (bt_pages ?t), bt_live_tokens := min (bt_live_tokens ?t) (?k * PAGE_TOKENS)\<rparr>"
    and r: "pool_inv p (owners s - mset (drop ?k (bt_pages ?t)))"
      "pool_frame (set (drop ?k (bt_pages ?t))) (ks_pool s) p"
    by (metis prod.inject)+
  have "table_wf t" unfolding t by (simp add: table_wf_def num_pages_def)
  then show ?thesis by (intro kv_inv_shrink [OF inv i _ r]) (simp_all add: t)
qed

lemma kv_inv_plan:
  assumes inv: "kv_inv s" and i: "i < length (ks_tables s)"
    and e: "plan_cow (ks_pool s) (ks_tables s ! i) ws we = (p, Ok plan)"
  shows "kv_inv (s\<lparr>ks_pool := p, ks_plans := plan # ks_plans s\<rparr>)"
proof -
  let ?t = "ks_tables s ! i"
  let ?ds = "map cc_dst_phys (cp_copies plan)"
  note pi = kv_inv_pool [OF inv] and own = kv_inv_owned(1) [OF i]
  have le: "ws \<le> we" using e by (auto simp: plan_cow_def not_less split: if_splits)
  have "length (filter (cow_needed (ks_pool s) ?t) (write_pages ws we)) \<le> length (pp_free_pages (ks_pool s))"
    using plan_cow_Err_inv [OF pi own le] e by (metis Inl_Inr_False not_le prod.inject)
  from plan_cow_Ok_inv [OF pi own le this] e have
    r: "map cc_logical_page (cp_copies plan) = filter (cow_needed (ks_pool s) ?t) (write_pages ws we)"
    "\<forall>c \<in> set (cp_copies plan). cow_copy_ok (ks_pool s) ?t ws c"
    "pool_inv p (owners s + mset ?ds)" "pool_frame (set ?ds) (ks_pool s) p" "reserved_ok p ?ds"
    "set ?ds \<inter> set_mset (owners s) = {}"
    by (metis prod.inject sum.inject(2))+
  have dis: "set ?ds \<inter> set (reserved s) = {}" using r(6) by (auto simp: owners_def)
  have "reserved_ok p (reserved s)"
    using inv reserved_ok_frame [OF _ r(4) dis] by (simp add: kv_inv_def)
  then have res: "reserved_ok p (?ds @ reserved s)" using r(5) dis by (auto simp: reserved_ok_def)
  have "distinct (map cc_logical_page (cp_copies plan))"
    unfolding r(1) by (simp add: write_pages_def)
  moreover have "cc_src_phys c < pp_n_pages (ks_pool s)" if "c \<in> set (cp_copies plan)" for c
  proof -
    have "cc_src_phys c \<in> set (bt_pages ?t)"
      using that r(2) by (auto simp: cow_copy_ok_def physical_def vec_get_Some)
    then show ?thesis using own pool_inv_bound [OF pi] by blast
  qed
  ultimately have "plan_wf (pp_n_pages (ks_pool s)) plan" by (simp add: plan_wf_def)
  then show ?thesis
    using inv r(3,4) res
    by (simp add: kv_inv_def owners_def table_pages_def reserved_def pool_frame_def ac_simps)
qed

lemma kv_inv_plan_failed:
  assumes inv: "kv_inv s" and i: "i < length (ks_tables s)"
    and e: "plan_cow (ks_pool s) (ks_tables s ! i) ws we = (p, Err er)"
  shows "kv_inv (s\<lparr>ks_pool := p\<rparr>)"
proof (cases "we < ws")
  case True
  then have "p = ks_pool s" using e by (simp add: plan_cow_def)
  then show ?thesis using inv by simp
next
  case False
  let ?t = "ks_tables s ! i"
  note pi = kv_inv_pool [OF inv] and own = kv_inv_owned(1) [OF i]
  from False have le: "ws \<le> we" by simp
  have "length (pp_free_pages (ks_pool s)) < length (filter (cow_needed (ks_pool s) ?t) (write_pages ws we))"
    using plan_cow_Ok_inv [OF pi own le] e by (metis Inl_Inr_False not_le prod.inject)
  from plan_cow_Err_inv [OF pi own le this] e
  have r: "pool_inv p (owners s)" "pool_frame (set (pp_free_pages (ks_pool s))) (ks_pool s) p"
    by (metis prod.inject)+
  have "d \<notin> set (pp_free_pages (ks_pool s))" if "d \<in> set (reserved s)" for d
    using that inv pool_inv_free [OF pi, of d] by (auto simp: kv_inv_def reserved_ok_def)
  then show ?thesis by (intro kv_inv_put_pool [OF inv r]) blast
qed

lemma kv_inv_drop_plan:
  assumes inv: "kv_inv s" and pl: "ks_plans s = before @ plan # after"
  defines "ds \<equiv> map cc_dst_phys (cp_copies plan)"
    and "s' \<equiv> s\<lparr>ks_plans := before @ after\<rparr>"
  shows "owners s = owners s' + mset ds" "reserved_ok (ks_pool s) ds" "reserved_ok (ks_pool s) (reserved s')"
    "set ds \<inter> set (reserved s') = {}" "set ds \<inter> set (table_pages s) = {}"
    "plan_wf (pp_n_pages (ks_pool s)) plan"
    "\<forall>pl \<in> set (ks_plans s'). plan_wf (pp_n_pages (ks_pool s)) pl" "\<forall>t \<in> set (ks_tables s'). table_wf t"
proof -
  obtain A B where AB: "reserved s = A @ ds @ B" "reserved s' = A @ B"
    by (simp add: reserved_def ds_def s'_def pl)
  have T: "table_pages s' = table_pages s" by (simp add: table_pages_def s'_def)
  show "owners s = owners s' + mset ds" by (simp add: owners_def AB T)
  have ok: "reserved_ok (ks_pool s) (A @ ds @ B)" using inv AB by (simp add: kv_inv_def)
  then show "reserved_ok (ks_pool s) ds" "reserved_ok (ks_pool s) (reserved s')"
    "set ds \<inter> set (reserved s') = {}"
    by (auto simp: AB reserved_ok_def)
  show "set ds \<inter> set (table_pages s) = {}" using reserved_disjoint [OF inv] by (auto simp: AB)
  show "plan_wf (pp_n_pages (ks_pool s)) plan" "\<forall>t \<in> set (ks_tables s'). table_wf t"
    "\<forall>pl \<in> set (ks_plans s'). plan_wf (pp_n_pages (ks_pool s)) pl"
    using inv pl by (auto simp: kv_inv_def s'_def)
qed

lemma kv_inv_abort:
  assumes inv: "kv_inv s" and pl: "ks_plans s = before @ plan # after"
  shows "kv_inv (s\<lparr>ks_pool := abort_cow (ks_pool s) plan, ks_plans := before @ after\<rparr>)"
proof -
  note d = kv_inv_drop_plan [OF inv pl]
  let ?ds = "map cc_dst_phys (cp_copies plan)"
  have "mset ?ds \<subseteq># owners s" unfolding d(1) by simp
  from release_reserved_all_inv [OF kv_inv_pool [OF inv] d(2) this]
  have r: "pool_inv (abort_cow (ks_pool s) plan) (owners (s\<lparr>ks_plans := before @ after\<rparr>))"
    "pool_frame (set ?ds) (ks_pool s) (abort_cow (ks_pool s) plan)"
    unfolding d(1) abort_cow_def by simp_all
  show ?thesis
    using r d(7,8) reserved_ok_frame [OF d(3) r(2) d(4)]
    by (simp add: kv_inv_def owners_def table_pages_def reserved_def pool_frame_def)
qed

lemma verify_cow_OkD:
  "verify_cow p t cs = Ok () \<Longrightarrow> c \<in> set cs \<Longrightarrow> physical t (cc_logical_page c) = Some (cc_src_phys c)"
  by (induction cs) (auto split: if_splits)

lemma verify_cow_no_panic:
  "\<forall>c \<in> set cs. cc_src_phys c < length (pp_page_meta p) \<Longrightarrow> verify_cow p t cs \<noteq> Err Panic"
  by (induction cs) auto

lemma commit_cow_failed:
  "verify_cow p t (cp_copies plan) = Err e \<Longrightarrow> e \<noteq> Panic
   \<Longrightarrow> commit_cow p t plan = (abort_cow p plan, t, Err e)"
  by (cases e) (simp_all add: commit_cow_def abort_cow_def)

lemma kv_inv_commit:
  assumes inv: "kv_inv s" and i: "i < length (ks_tables s)" and pl: "ks_plans s = before @ plan # after"
    and e: "commit_cow (ks_pool s) (ks_tables s ! i) plan = (p, t, r)"
  shows "kv_inv ((put_table s p i t)\<lparr>ks_plans := before @ after\<rparr>)"
proof -
  note d = kv_inv_drop_plan [OF inv pl] and pi = kv_inv_pool [OF inv]
  let ?cs = "cp_copies plan" and ?t = "ks_tables s ! i" and ?s = "s\<lparr>ks_plans := before @ after\<rparr>"
  have nop: "verify_cow (ks_pool s) ?t ?cs \<noteq> Err Panic"
    by (rule verify_cow_no_panic) (use d(6) pool_inv_length [OF pi] in \<open>simp add: plan_wf_def\<close>)
  show ?thesis
  proof (cases "verify_cow (ks_pool s) ?t ?cs")
    case (Inl er)
    with nop commit_cow_failed have "p = abort_cow (ks_pool s) plan" "t = ?t"
      using e by (metis prod.inject)+
    then show ?thesis using kv_inv_abort [OF inv pl] by simp
  next
    case (Inr u)
    then have maps: "cow_maps ?t ?cs"
      using verify_cow_OkD [of "ks_pool s" ?t ?cs] d(6) by (simp add: cow_maps_def plan_wf_def)
    have "i < length (ks_tables ?s)" using i by simp
    from kv_inv_split [OF this] obtain R where R: "owners ?s = R + mset (bt_pages (ks_tables ?s ! i))"
      "\<And>p t. owners (put_table ?s p i t) = R + mset (bt_pages t)"
      by metis
    have "pool_inv (ks_pool s) (R + mset (bt_pages ?t) + mset (map cc_dst_phys ?cs))"
      using pi d(1) R(1) by simp
    from commit_cow_inv [OF this maps] e have t: "t = ?t\<lparr>bt_pages := rebind ?cs (bt_pages ?t)\<rparr>"
      and r: "pool_inv p (R + mset (rebind ?cs (bt_pages ?t)))"
        "pool_frame (set (map cc_src_phys ?cs)) (ks_pool s) p"
      by (metis prod.inject)+
    have "set (map cc_src_phys ?cs) \<subseteq> set (bt_pages ?t)"
      using maps by (auto simp: cow_maps_def physical_def vec_get_Some)
    then have dis: "set (map cc_src_phys ?cs) \<inter> set (reserved ?s) = {}"
      using kv_inv_tables_unreserved [OF inv i] pl by (fastforce simp: reserved_def)
    have wf: "table_wf t" using kv_inv_table_wf [OF inv i] by (simp add: t table_wf_def num_pages_def)
    have "owners ((put_table s p i t)\<lparr>ks_plans := before @ after\<rparr>) = R + mset (bt_pages t)"
      using R(2) [of t p] by (simp add: owners_def table_pages_def reserved_def)
    then show ?thesis
      using r d(7,8) reserved_ok_frame [OF d(3) r(2) dis] wf t
      by (auto simp: kv_inv_def reserved_def pool_frame_def dest!: set_update_subset_insert [THEN subsetD])
  qed
qed

lemma kv_inv_drain:
  assumes inv: "kv_inv s" and e: "drain_completed (ks_pool s) = (p, freed)"
  shows "kv_inv (s\<lparr>ks_pool := p\<rparr>)"
proof -
  note r = drain_completed_inv [OF kv_inv_pool [OF inv] e]
  have "d \<notin> set freed" if "d \<in> set (reserved s)" for d
    using that inv pool_inv_reclaim [OF kv_inv_pool [OF inv], of d]
    by (auto simp: r(3) kv_inv_def reserved_ok_def)
  then show ?thesis by (intro kv_inv_put_pool [OF inv r(1,2)]) blast
qed

lemma kv_inv_lease:
  assumes "kv_inv s" "q \<notin> set (reserved s)"
    and "pool_inv p (owners s) \<and> pool_frame {q} (ks_pool s) p \<and> X"
  shows "kv_inv (s\<lparr>ks_pool := p\<rparr>)"
  using kv_inv_put_pool [OF assms(1), of p "{q}"] assms(2,3) by simp

lemma pool_step_inv: "pool_step s s' \<Longrightarrow> kv_inv s \<Longrightarrow> kv_inv s'"
proof (induction rule: pool_step.induct)
  case (step_open s)
  then show ?case
    by (simp add: kv_inv_def owners_def table_pages_def reserved_def bt_new_def table_wf_def)
next
  case (step_seal q s p ru)
  then show ?case using kv_inv_lease [OF _ _ seal_inv] by blast
next
  case (step_add_inflight q s p ru)
  then show ?case using kv_inv_lease [OF _ _ add_inflight_ref_inv] by blast
next
  case (step_release_inflight q s p ru)
  then show ?case using kv_inv_lease [OF _ _ release_inflight_ref_inv] by blast
next
  case (step_add_cache q s p ru)
  then show ?case using kv_inv_lease [OF _ _ add_cache_ref_inv] by blast
next
  case (step_release_cache q s p ru)
  then show ?case using kv_inv_lease [OF _ _ release_cache_ref_inv] by blast
qed (blast intro: kv_inv_alloc kv_inv_alloc_checked kv_inv_ensure kv_inv_share kv_inv_attach
    kv_inv_release kv_inv_tail kv_inv_plan kv_inv_plan_failed kv_inv_commit kv_inv_abort kv_inv_drain)+

lemma kv_init_inv: "kv_inv (kv_init n k v)"
  using pool_inv_new [of n k v]
  by (simp add: kv_inv_def kv_init_def owners_def table_pages_def reserved_def reserved_ok_def)

lemma kv_reachable_inv: "kv_reachable n k v s \<Longrightarrow> kv_inv s"
  unfolding kv_reachable_def by (induction rule: rtranclp_induct) (auto intro: kv_init_inv pool_step_inv)

end
