(* ===== verification/Page_Pool_Props.thy ===== *)
theory Page_Pool_Props
  imports Page_Pool_Steps
begin

text \<open>
  What the page pool guarantees its clients: exact ownership accounting, exclusive write access
  to private pages, no leaked page, copy-on-write as a transaction, stale handles refused, and the
  structural self-check of the source implied by the invariant.
\<close>

section \<open>The structural self-check\<close>

lemma check_free_list_ok:
  assumes "distinct qs" "\<forall>q \<in> set qs. q < length (pp_page_meta p) \<and> q < length seen \<and> \<not> seen ! q
             \<and> pm_state (meta p q) = Free \<and> total_refs (meta p q) = 0"
  shows "\<exists>seen'. check_free_list p seen qs = Some seen' \<and> length seen' = length seen
           \<and> (\<forall>r < length seen. seen' ! r \<longleftrightarrow> seen ! r \<or> r \<in> set qs)"
  using assms
proof (induction qs arbitrary: seen)
  case (Cons q qs)
  have "\<exists>seen'. check_free_list p (seen[q := True]) qs = Some seen'
          \<and> length seen' = length (seen[q := True])
          \<and> (\<forall>r < length (seen[q := True]). seen' ! r \<longleftrightarrow> seen[q := True] ! r \<or> r \<in> set qs)"
    by (rule Cons.IH) (use Cons.prems in \<open>auto simp: nth_list_update\<close>)
  then show ?case using Cons.prems by (auto simp: nth_list_update)
qed simp

lemma check_reclaim_list_ok:
  assumes "distinct qs" "\<forall>q \<in> set qs. q < length (pp_page_meta p) \<and> q < length seen \<and> \<not> seen ! q
             \<and> pm_state (meta p q) = ReclaimPending \<and> pm_table_refs (meta p q) = 0
             \<and> pm_cache_refs (meta p q) = 0"
  shows "\<exists>seen'. check_reclaim_list p seen qs = Some seen'"
  using assms
proof (induction qs arbitrary: seen)
  case (Cons q qs)
  have "\<exists>seen'. check_reclaim_list p (seen[q := True]) qs = Some seen'"
    by (rule Cons.IH) (use Cons.prems in \<open>auto simp: nth_list_update\<close>)
  then show ?case using Cons.prems by auto
qed simp

abbreviation resident :: "page_meta \<Rightarrow> bool" where
  "resident m \<equiv> pm_state m \<noteq> Free \<and> pm_state m \<noteq> ReclaimPending"

lemma count_resident_ok:
  assumes "\<forall>m \<in> set ms. page_ok m \<and> pm_table_refs m + pm_cache_refs m \<le> u32_max"
  shows "count_resident ms = Some (length (filter resident ms))"
  using assms
  by (induction ms) (auto simp: page_ok_defs u32_max_def split: page_state.splits)

lemma pool_wf_partition:
  assumes "pool_wf p"
  shows "length (pp_free_pages p) + length (pp_reclaim_pending p)
           + length (filter resident (pp_page_meta p)) = pp_n_pages p"
proof -
  let ?n = "pp_n_pages p"
  let ?F = "{q. q < ?n \<and> pm_state (meta p q) = Free}"
  let ?P = "{q. q < ?n \<and> pm_state (meta p q) = ReclaimPending}"
  let ?R = "{q. q < ?n \<and> resident (meta p q)}"
  have wf: "length (pp_page_meta p) = ?n" "distinct (pp_free_pages p)" "set (pp_free_pages p) = ?F"
    "distinct (pp_reclaim_pending p)" "set (pp_reclaim_pending p) = ?P"
    using assms by (auto simp: pool_wf_def)
  have "length (pp_free_pages p) = card ?F" "length (pp_reclaim_pending p) = card ?P"
    "length (filter resident (pp_page_meta p)) = card ?R"
    using wf distinct_card [of "pp_free_pages p"] distinct_card [of "pp_reclaim_pending p"]
    by (simp_all add: length_filter_conv_card)
  moreover have "card (?F \<union> ?P \<union> ?R) = card ?F + card ?P + card ?R"
    by (subst card_Un_disjoint; (subst card_Un_disjoint)?) auto
  moreover have "?F \<union> ?P \<union> ?R = {..< ?n}" by auto
  ultimately show ?thesis by simp
qed

lemma pool_wf_check_invariants:
  assumes wf: "pool_wf p"
    and fit: "\<forall>m \<in> set (pp_page_meta p). pm_table_refs m + pm_cache_refs m \<le> u32_max"
  shows "check_invariants p"
proof -
  let ?n = "pp_n_pages p"
  have len: "length (pp_page_meta p) = ?n" using wf by (simp add: pool_wf_def)
  have ok: "page_ok (meta p q)" if "q < ?n" for q using wf that by (simp add: pool_wf_def)
  have F: "q < ?n \<and> pm_state (meta p q) = Free \<and> total_refs (meta p q) = 0"
    if "q \<in> set (pp_free_pages p)" for q
    using that wf ok [of q] by (auto simp: pool_wf_def page_ok_defs total_refs_def)
  have P: "q < ?n \<and> q \<notin> set (pp_free_pages p) \<and> pm_state (meta p q) = ReclaimPending
             \<and> pm_table_refs (meta p q) = 0 \<and> pm_cache_refs (meta p q) = 0"
    if "q \<in> set (pp_reclaim_pending p)" for q
    using that wf ok [of q] by (auto simp: pool_wf_def page_ok_defs)
  have d: "distinct (pp_free_pages p)" "distinct (pp_reclaim_pending p)"
    using wf by (simp_all add: pool_wf_def)
  have "\<forall>q \<in> set (pp_free_pages p). q < length (pp_page_meta p) \<and> q < length (replicate ?n False)
          \<and> \<not> replicate ?n False ! q \<and> pm_state (meta p q) = Free \<and> total_refs (meta p q) = 0"
    using F len by simp
  from check_free_list_ok [OF d(1) this] obtain seen where s: "check_free_list p (replicate ?n False) (pp_free_pages p) = Some seen"
    "length seen = ?n" "\<And>r. r < ?n \<Longrightarrow> seen ! r \<longleftrightarrow> r \<in> set (pp_free_pages p)"
    by auto
  from check_reclaim_list_ok [OF d(2), of p seen] P len s(2,3)
  obtain seen' where r: "check_reclaim_list p seen (pp_reclaim_pending p) = Some seen'"
    by auto
  have "count_resident (pp_page_meta p) = Some (length (filter resident (pp_page_meta p)))"
    by (rule count_resident_ok) (use fit ok len in \<open>auto simp: in_set_conv_nth\<close>)
  with s(1) r pool_wf_partition [OF wf] show ?thesis by (simp add: check_invariants_def)
qed

section \<open>A concrete pool\<close>

text \<open>Four pages; one table of two pages, and a second one that shares the first page of it.\<close>

definition demo :: kv_state where
  "demo = (let (p1, t0, r0) = ensure_capacity (with_checked_metadata 4 2 2) bt_new 200;
               (p2, t1, r1) = pool_share_prefix p1 t0 bt_new 1
           in \<lparr>ks_pool = p2, ks_tables = [t0, t1], ks_plans = []\<rparr>)"

lemma alloc_loop_numeral [run]:
  "alloc_loop p t (numeral k) =
     (case take_free p of
        None \<Rightarrow> None
      | Some (page, p') \<Rightarrow>
          (let h = \<lparr>ph_phys = page, ph_epoch = pp_epoch p, ph_generation = pm_generation (meta p' page)\<rparr>
           in case alloc_loop p' (push_page t page) (pred_numeral k) of
                None \<Rightarrow> None
              | Some (p'', t', hs) \<Rightarrow> Some (p'', t', h # hs)))"
  by (simp add: numeral_eq_Suc)

declare with_checked_metadata_def [run] page_meta_free_def [run] bt_new_def [run] num_pages_def [run]
  physical_def [run] push_page_def [run] set_page_def [run] truncate_def [run] set_live_tokens_def [run]
  PAGE_TOKENS_def [run] check_phys_def [run] validate_handle_def [run] free_page_def [run]
  park_page_def [run] dec_table_ref_def [run] release_reserved_def [run] take_free_def [run]
  alloc_pages_def [run] alloc_pages_checked_def [run] pool_share_prefix_def [run]
  refcount_inc_def [run] release_table_def [run] free_pages_from_tail_def [run]
  ensure_capacity_def [run] seal_def [run] plan_cow_def [run] commit_cow_def [run] abort_cow_def [run]
  add_inflight_ref_def [run] release_inflight_ref_def [run] drain_completed_def [run]
  add_cache_ref_def [run] release_cache_ref_def [run]

lemma demo_eval:
  "demo = \<lparr>ks_pool = \<lparr>pp_n_pages = 4, pp_k_per_pos_bytes = 2, pp_v_per_pos_bytes = 2, pp_free_pages = [3, 2],
       pp_page_meta =
        [\<lparr>pm_state = Sealed, pm_generation = 1, pm_table_refs = 2, pm_cache_refs = 0, pm_inflight_refs = 0\<rparr>,
         \<lparr>pm_state = Private, pm_generation = 1, pm_table_refs = 1, pm_cache_refs = 0, pm_inflight_refs = 0\<rparr>,
         \<lparr>pm_state = Free, pm_generation = 0, pm_table_refs = 0, pm_cache_refs = 0, pm_inflight_refs = 0\<rparr>,
         \<lparr>pm_state = Free, pm_generation = 0, pm_table_refs = 0, pm_cache_refs = 0, pm_inflight_refs = 0\<rparr>],
       pp_reclaim_pending = [], pp_epoch = 0\<rparr>,
     ks_tables = [\<lparr>bt_pages = [0, 1], bt_live_tokens = 200\<rparr>, \<lparr>bt_pages = [0], bt_live_tokens = 0\<rparr>],
     ks_plans = []\<rparr>"
  by (simp add: demo_def run)

lemma demo_reachable: "kv_reachable 4 2 2 demo"
proof -
  let ?s0 = "kv_init 4 2 2"
  let ?s1 = "?s0\<lparr>ks_tables := [bt_new]\<rparr>" and ?s2 = "?s0\<lparr>ks_tables := [bt_new, bt_new]\<rparr>"
  obtain p1 t0 r0 where e1: "ensure_capacity (with_checked_metadata 4 2 2) bt_new 200 = (p1, t0, r0)"
    by (metis prod_cases3)
  obtain p2 t1 r1 where e2: "pool_share_prefix p1 t0 bt_new 1 = (p2, t1, r1)" by (metis prod_cases3)
  let ?s3 = "?s2\<lparr>ks_pool := p1, ks_tables := [t0, bt_new]\<rparr>"
  have "pool_step ?s0 ?s1" using step_open [of ?s0] by (simp add: kv_init_def)
  moreover have "pool_step ?s1 ?s2" using step_open [of ?s1] by simp
  moreover have "pool_step ?s2 ?s3"
    using step_ensure [of 0 ?s2 200 p1 t0 r0] e1 by (simp add: kv_init_def)
  moreover have "pool_step ?s3 demo"
    using step_share [of 0 ?s3 1 1 p2 t1 r1] e1 e2 by (simp add: kv_init_def demo_def)
  ultimately show ?thesis unfolding kv_reachable_def by (meson rtranclp.rtrancl_into_rtrancl rtranclp.rtrancl_refl)
qed

section \<open>The number of pages never changes\<close>

lemma pp_n_pages_basic [simp]:
  "pp_n_pages (free_page p q m) = pp_n_pages p" "pp_n_pages (park_page p q m) = pp_n_pages p"
  "pp_n_pages (release_reserved p q) = pp_n_pages p"
  by (simp_all add: free_page_def park_page_def release_reserved_def)

lemma dec_table_ref_n: "dec_table_ref p q = (p', r) \<Longrightarrow> pp_n_pages p' = pp_n_pages p"
  by (auto simp: dec_table_ref_def Let_def split: sum.splits if_splits)

lemma take_free_n: "take_free p = Some (q, p') \<Longrightarrow> pp_n_pages p' = pp_n_pages p"
  using take_free_Some(2) by (simp add: pool_frame_def)

lemma alloc_loop_n: "alloc_loop p t n = Some (p', t', hs) \<Longrightarrow> pp_n_pages p' = pp_n_pages p"
  by (induction n arbitrary: p t t' hs) (fastforce simp: Let_def take_free_n split: option.splits)+

lemma share_loop_n: "share_loop p t xs = (p', t', r) \<Longrightarrow> pp_n_pages p' = pp_n_pages p"
  by (induction xs arbitrary: p t) (fastforce split: sum.splits option.splits)+

lemma release_loop_n: "release_loop p xs = (p', b) \<Longrightarrow> pp_n_pages p' = pp_n_pages p"
  by (induction xs arbitrary: p b) (auto simp: Let_def dest!: dec_table_ref_n split: prod.splits)

lemma dec_loop_n: "dec_loop p xs = (p', r) \<Longrightarrow> pp_n_pages p' = pp_n_pages p"
  by (induction xs arbitrary: p) (fastforce dest: dec_table_ref_n split: prod.splits sum.splits)+

lemma release_reserved_all_n [simp]: "pp_n_pages (release_reserved_all p ds) = pp_n_pages p"
  by (induction ds arbitrary: p) simp_all

lemma plan_cow_loop_n: "plan_cow_loop p t ws lps cs = (p', r) \<Longrightarrow> pp_n_pages p' = pp_n_pages p"
  by (induction lps arbitrary: p cs) (fastforce simp: Let_def dest: take_free_n split: option.splits if_splits)+

lemma apply_cow_n: "apply_cow p t cs = (p', t', r) \<Longrightarrow> pp_n_pages p' = pp_n_pages p"
  by (induction cs arbitrary: p t) (fastforce simp: Let_def dest: dec_table_ref_n split: prod.splits sum.splits)+

lemma drain_loop_n: "drain_loop p xs = (p', fs, st) \<Longrightarrow> pp_n_pages p' = pp_n_pages p"
  by (induction xs arbitrary: p fs st) (auto simp: Let_def split: if_splits prod.splits)

lemma alloc_pages_n: "alloc_pages p t n = (p', t', r) \<Longrightarrow> pp_n_pages p' = pp_n_pages p"
  by (auto simp: alloc_pages_def Let_def dest: alloc_loop_n split: option.splits)

lemma pool_step_n: "pool_step s s' \<Longrightarrow> pp_n_pages (ks_pool s') = pp_n_pages (ks_pool s)"
proof (induction rule: pool_step.induct)
  case (step_commit i s before plan after p t ru)
  then show ?case
    by (auto simp: commit_cow_def dest: apply_cow_n split: sum.splits pool_error.splits)
qed (auto simp: alloc_pages_checked_def ensure_capacity_def pool_share_prefix_def refcount_inc_def
    release_table_def free_pages_from_tail_def seal_def plan_cow_def abort_cow_def add_inflight_ref_def
    release_inflight_ref_def drain_completed_def add_cache_ref_def release_cache_ref_def Let_def
    dest: alloc_pages_n alloc_loop_n share_loop_n release_loop_n dec_loop_n plan_cow_loop_n drain_loop_n
    split: option.splits sum.splits if_splits prod.splits page_state.splits)

lemma kv_reachable_n: "kv_reachable n k v s \<Longrightarrow> pp_n_pages (ks_pool s) = n"
  unfolding kv_reachable_def
  by (induction rule: rtranclp_induct) (simp_all add: kv_init_def with_checked_metadata_def pool_step_n)

section \<open>Ownership\<close>

text \<open>
  C1: In every reachable state, the table references of each page are the number of block-table
  entries and reserved destinations that name it, and a page named by a table is inside the arena,
  resident, and neither on the free list nor queued for reclaim.
\<close>

theorem pool_ownership_exact:
  assumes "kv_reachable n k v s"
  shows "(\<forall>q < n. pm_table_refs (meta (ks_pool s) q)
                    = count (mset (table_pages s)) q + count (mset (reserved s)) q)
         \<and> (\<forall>t \<in> set (ks_tables s). \<forall>q \<in> set (bt_pages t).
              q < n \<and> page_state_of (ks_pool s) q \<notin> {Free, ReclaimPending}
              \<and> q \<notin> set (pp_free_pages (ks_pool s)) \<and> q \<notin> set (pp_reclaim_pending (ks_pool s)))"
proof -
  note inv = kv_inv_pool [OF kv_reachable_inv [OF assms]] and n = kv_reachable_n [OF assms]
  have "q < n \<and> page_state_of (ks_pool s) q \<notin> {Free, ReclaimPending}
          \<and> q \<notin> set (pp_free_pages (ks_pool s)) \<and> q \<notin> set (pp_reclaim_pending (ks_pool s))"
    if "t \<in> set (ks_tables s)" "q \<in> set (bt_pages t)" for t q
  proof -
    have "q \<in># owners s" using that by (auto simp: owners_def table_pages_def)
    from pool_inv_live [OF inv this] show ?thesis
      using n pool_inv_free [OF inv] pool_inv_reclaim [OF inv] by (simp add: page_state_of_def)
  qed
  then show ?thesis using n pool_inv_count [OF inv] by (simp add: owners_def)
qed

theorem pool_ownership_exact_witness:
  "kv_reachable 4 2 2 demo \<and> pm_table_refs (meta (ks_pool demo) 0) = 2 \<and> 1 \<notin> set (pp_free_pages (ks_pool demo))"
  using pool_ownership_exact [OF demo_reachable] demo_reachable
  by (simp add: demo_eval table_pages_def reserved_def)

text \<open>
  C5: In every reachable state a private page has exactly one holder: one entry of one table, or one
  reservation. A session that writes to a private page of its table writes no page of another one.
\<close>

theorem private_page_exclusive:
  assumes "kv_reachable n k v s" "q < n" "page_state_of (ks_pool s) q = Private"
  shows "count (mset (table_pages s)) q + count (mset (reserved s)) q = 1"
proof -
  note inv = kv_inv_pool [OF kv_reachable_inv [OF assms(1)]] and n = kv_reachable_n [OF assms(1)]
  have q: "q < pp_n_pages (ks_pool s)" using assms(2) n by simp
  have "pm_state (meta (ks_pool s) q) = Private" using assms(3) q by (simp add: page_state_of_def)
  then show ?thesis
    using pool_inv_page_ok [OF inv q] pool_inv_count [OF inv q] by (simp add: page_ok_defs owners_def)
qed

theorem private_page_exclusive_witness:
  "page_state_of (ks_pool demo) 1 = Private \<and> count (mset (table_pages demo)) 1 + count (mset (reserved demo)) 1 = 1"
proof -
  have "page_state_of (ks_pool demo) 1 = Private" by (simp add: demo_eval page_state_of_def check_phys_def)
  with private_page_exclusive [OF demo_reachable, of 1] show ?thesis by simp
qed

text \<open>
  C9: The assertions of \<^verbatim>\<open>check_invariants\<close> hold in every reachable state, as long as the table and cache
  references of a page together fit the 32-bit sum the check computes.
\<close>

theorem check_invariants_reachable:
  assumes "kv_reachable n k v s"
    and "\<forall>m \<in> set (pp_page_meta (ks_pool s)). pm_table_refs m + pm_cache_refs m \<le> u32_max"
  shows "check_invariants (ks_pool s)"
  using pool_wf_check_invariants [OF _ assms(2)] kv_inv_pool [OF kv_reachable_inv [OF assms(1)]]
  by (simp add: pool_inv_def)

theorem check_invariants_reachable_witness: "check_invariants (ks_pool demo)"
  by (rule check_invariants_reachable [OF demo_reachable]) (simp add: demo_eval u32_max_def)

text \<open>
  C8: No page leaks. Once every table is empty, no plan is outstanding and the cache and in-flight
  leases are released, the next drain leaves every page of the arena on the free list, once.
\<close>

theorem pool_no_leak:
  assumes "kv_reachable n k v s" "table_pages s = []" "ks_plans s = []"
    and "\<forall>m \<in> set (pp_page_meta (ks_pool s)). pm_cache_refs m = 0 \<and> pm_inflight_refs m = 0"
  shows "mset (pp_free_pages (fst (drain_completed (ks_pool s)))) = mset [0 ..< n]"
proof -
  note inv = kv_inv_pool [OF kv_reachable_inv [OF assms(1)]] and n = kv_reachable_n [OF assms(1)]
  let ?p = "ks_pool s"
  obtain p' freed where e: "drain_completed ?p = (p', freed)" by fastforce
  note d = drain_completed_inv [OF inv e]
  have z: "pm_cache_refs (meta ?p q) = 0 \<and> pm_inflight_refs (meta ?p q) = 0" if "q < n" for q
    using that assms(4) pool_inv_length [OF inv] n by simp
  have "owners s = {#}" using assms(2,3) by (simp add: owners_def reserved_def)
  then have "pm_state (meta ?p q) \<in> {Free, ReclaimPending}" if "q < n" for q
    using that n z [OF that] pool_inv_page_ok [OF inv, of q] pool_inv_count [OF inv, of q]
    by (auto simp: page_ok_defs split: page_state.splits)
  moreover have "freed = pp_reclaim_pending ?p"
    using z n pool_inv_reclaim [OF inv] by (simp add: d(3) filter_id_conv)
  ultimately have "set (pp_free_pages p') = {0 ..< n}"
    using pool_inv_free [OF inv] pool_inv_reclaim [OF inv] n by (fastforce simp: d(5))
  moreover have "distinct (pp_free_pages p')" using pool_inv_distinct(1) [OF d(1)] .
  ultimately have "mset (pp_free_pages p') = mset [0 ..< n]"
    by (subst set_eq_iff_mset_eq_distinct [symmetric]) simp_all
  then show ?thesis using e by simp
qed

text \<open>The concrete pool after both sessions have ended.\<close>

definition demo_closed :: kv_state where
  "demo_closed = (let (p1, t0, r0) = release_table (ks_pool demo) (ks_tables demo ! 0);
                      (p2, t1, r1) = release_table p1 (ks_tables demo ! 1)
                  in demo\<lparr>ks_pool := p2, ks_tables := [t0, t1]\<rparr>)"

lemma demo_closed_reachable: "kv_reachable 4 2 2 demo_closed"
proof -
  obtain p1 t0 r0 where e1: "release_table (ks_pool demo) (ks_tables demo ! 0) = (p1, t0, r0)"
    by (metis prod_cases3)
  obtain p2 t1 r1 where e2: "release_table p1 (ks_tables demo ! 1) = (p2, t1, r1)" by (metis prod_cases3)
  let ?s1 = "put_table demo p1 0 t0"
  have "length (ks_tables demo) = 2" by (simp add: demo_eval)
  then have "pool_step demo ?s1" "pool_step ?s1 demo_closed"
    using step_release [of 0 demo p1 t0 r0] step_release [of 1 ?s1 p2 t1 r1] e1 e2
    by (auto simp: demo_closed_def length_Suc_conv numeral_2_eq_2)
  then show ?thesis
    using demo_reachable unfolding kv_reachable_def by (meson rtranclp.rtrancl_into_rtrancl)
qed

theorem pool_no_leak_witness:
  "mset (pp_free_pages (fst (drain_completed (ks_pool demo_closed)))) = mset [0 ..< 4]"
  by (rule pool_no_leak [OF demo_closed_reachable])
    (simp_all add: demo_closed_def demo_eval table_pages_def run)

section \<open>Copy-on-write as a transaction\<close>

lemma kv_live_state:
  assumes "kv_inv s" "i < length (ks_tables s)" "q \<in> set (bt_pages (ks_tables s ! i))"
  shows "pm_state (meta (ks_pool s) q) \<noteq> Free" "pm_state (meta (ks_pool s) q) \<noteq> ReclaimPending"
  using pool_inv_live [OF kv_inv_pool [OF assms(1)]] kv_inv_owned(1) [OF assms(2)] assms(3) by blast+

lemma write_pages_iff: "lp \<in> set (write_pages ws we) \<longleftrightarrow> ws div PAGE_TOKENS \<le> lp \<and> lp * PAGE_TOKENS < we" if "ws < we"
proof -
  have "lp \<le> (we - 1) div PAGE_TOKENS \<longleftrightarrow> lp * PAGE_TOKENS \<le> we - 1"
    by (simp add: less_eq_div_iff_mult_less_eq PAGE_TOKENS_def)
  moreover have "lp \<in> set (write_pages ws we) \<longleftrightarrow> ws div PAGE_TOKENS \<le> lp \<and> lp \<le> (we - 1) div PAGE_TOKENS"
    using that by (simp add: write_pages_def less_Suc_eq_le del: upt_Suc)
  ultimately show ?thesis using that by linarith
qed

text \<open>
  C6: Planning a write and committing the plan always succeeds when the plan was granted, and leaves
  every mapped page of the write interval private. The table keeps its length and its live tokens,
  a page outside the plan keeps its mapping, and each planned copy goes to a page that was free,
  carries exactly the tokens before the write, and becomes the mapping of its logical page.
\<close>

theorem cow_commit_private:
  assumes r: "kv_reachable n k v s" and i: "i < length (ks_tables s)" and t: "t = ks_tables s ! i"
    and pl: "plan_cow (ks_pool s) t ws we = (p1, Ok plan)"
    and co: "commit_cow p1 t plan = (p2, t2, res)"
  shows "res = Ok () \<and> num_pages t2 = num_pages t \<and> bt_live_tokens t2 = bt_live_tokens t
    \<and> (\<forall>lp < num_pages t. ws div PAGE_TOKENS \<le> lp \<and> ws < we \<and> lp * PAGE_TOKENS < we
          \<longrightarrow> page_state_of p2 (bt_pages t2 ! lp) = Private)
    \<and> (\<forall>lp < num_pages t. lp \<notin> set (map cc_logical_page (cp_copies plan)) \<longrightarrow> bt_pages t2 ! lp = bt_pages t ! lp)
    \<and> (\<forall>c \<in> set (cp_copies plan). cow_copy_ok (ks_pool s) t ws c
          \<and> cc_dst_phys c \<in> set (pp_free_pages (ks_pool s)) \<and> bt_pages t2 ! cc_logical_page c = cc_dst_phys c)"
proof -
  let ?p = "ks_pool s" and ?cs = "cp_copies plan"
  note inv = kv_inv_pool [OF kv_reachable_inv [OF r]] and own = kv_inv_owned(1) [OF i, folded t]
  note P = plan_cow_OkD [OF inv own pl]
  obtain R where R: "owners s = R + mset (bt_pages t)" using kv_inv_split [OF i] t by metis
  from commit_cow_inv [OF P(4) [unfolded R] P(9)] co
  have t2: "t2 = t\<lparr>bt_pages := rebind ?cs (bt_pages t)\<rparr>" and res: "res = Ok ()"
    and p2: "pool_inv p2 (R + mset (rebind ?cs (bt_pages t)))" "pool_frame (set (map cc_src_phys ?cs)) p1 p2"
    by (metis prod.inject)+
  have "page_state_of p2 (bt_pages t2 ! lp) = Private"
    if "lp < num_pages t" "ws div PAGE_TOKENS \<le> lp" "ws < we" "lp * PAGE_TOKENS < we" for lp
  proof -
    have "bt_pages t2 ! lp \<in> set (bt_pages t2)" using that(1) by (simp add: t2 num_pages_def)
    then have "bt_pages t2 ! lp < pp_n_pages p2" using pool_inv_bound [OF p2(1)] by (simp add: t2)
    moreover have "lp \<in> set (write_pages ws we)" using that by (simp add: write_pages_iff)
    ultimately show ?thesis
      using cow_page_private [OF inv own pl p2(2) that(1)] by (simp add: page_state_of_def t2)
  qed
  moreover have "bt_pages t2 ! cc_logical_page c = cc_dst_phys c" if "c \<in> set ?cs" for c
    unfolding t2 using that P(3,9) cow_copy_src rebind_copied [of ?cs c "bt_pages t"]
    by (fastforce simp: cow_maps_def num_pages_def)
  ultimately show ?thesis
    using res P(3,8) rebind_other [of _ ?cs "bt_pages t"] by (auto simp: t2 num_pages_def)
qed

theorem cow_commit_private_witness:
  "case plan_cow (ks_pool demo) (ks_tables demo ! 0) 100 150 of
     (p1, Inr plan) \<Rightarrow> (case commit_cow p1 (ks_tables demo ! 0) plan of
        (p2, t2, res) \<Rightarrow> res = Ok () \<and> num_pages t2 = 2 \<and> page_state_of p2 (bt_pages t2 ! 0) = Private)
   | _ \<Rightarrow> False"
proof -
  obtain p1 plan where pl: "plan_cow (ks_pool demo) (ks_tables demo ! 0) 100 150 = (p1, Ok plan)"
    by (simp add: demo_eval run)
  obtain p2 t2 res where co: "commit_cow p1 (ks_tables demo ! 0) plan = (p2, t2, res)" by (metis prod_cases3)
  have "0 < length (ks_tables demo)" "num_pages (ks_tables demo ! 0) = 2"
    by (simp_all add: demo_eval num_pages_def)
  with cow_commit_private [OF demo_reachable _ refl pl co] pl co show ?thesis
    by (simp add: PAGE_TOKENS_def)
qed

text \<open>What a rolled-back plan leaves: every page as it was, except for generations and list order.\<close>

definition same_pages :: "page_pool \<Rightarrow> page_pool \<Rightarrow> bool" where
  "same_pages p p' \<longleftrightarrow> mset (pp_free_pages p') = mset (pp_free_pages p)
     \<and> (\<forall>q < pp_n_pages p. pm_state (meta p' q) = pm_state (meta p q)
          \<and> pm_table_refs (meta p' q) = pm_table_refs (meta p q)
          \<and> pm_cache_refs (meta p' q) = pm_cache_refs (meta p q)
          \<and> pm_inflight_refs (meta p' q) = pm_inflight_refs (meta p q))"

lemma same_pages_rollback:
  assumes inv: "pool_inv p M" and inv': "pool_inv p' M"
    and free: "mset (pp_free_pages p') = mset (pp_free_pages p)"
    and fr: "pool_frame (set (pp_free_pages p)) p p'"
  shows "same_pages p p'"
proof -
  have n: "pp_n_pages p' = pp_n_pages p" using fr by (simp add: pool_frame_def)
  have "meta p' q = meta p q \<or> (pm_state (meta p q) = Free \<and> pm_state (meta p' q) = Free)"
    if "q < pp_n_pages p" for q
    using that n pool_frame_meta [OF fr, of q] pool_inv_free [OF inv, of q] pool_inv_free [OF inv', of q]
      mset_eq_setD [OF free] by blast
  then show ?thesis
    using free n pool_inv_page_ok [OF inv] pool_inv_page_ok [OF inv']
    by (fastforce simp: same_pages_def page_ok_defs)
qed

text \<open>
  C7: A plan that is refused for lack of pages, and a granted plan that is aborted, both put the pool
  back: the free list holds the same pages, and every page has its state and its three reference
  counts.
\<close>

theorem cow_rollback:
  assumes r: "kv_reachable n k v s" and i: "i < length (ks_tables s)"
    and e: "plan_cow (ks_pool s) (ks_tables s ! i) ws we = (p1, res)"
  shows "same_pages (ks_pool s) (case res of Inl e \<Rightarrow> p1 | Inr plan \<Rightarrow> abort_cow p1 plan)"
proof (cases res)
  case (Inl er)
  note inv = kv_inv_pool [OF kv_reachable_inv [OF r]] and own = kv_inv_owned(1) [OF i]
  show ?thesis
  proof (cases "we < ws")
    case True
    then show ?thesis using e Inl by (auto simp: plan_cow_def same_pages_def)
  next
    case False
    then have le: "ws \<le> we" by simp
    have room: "length (pp_free_pages (ks_pool s))
                < length (filter (cow_needed (ks_pool s) (ks_tables s ! i)) (write_pages ws we))"
      using plan_cow_Ok_inv [OF inv own le] e Inl by (metis Inl_Inr_False not_le prod.inject)
    show ?thesis
      by (rule plan_cow_Err_inv [OF inv own le room]) (use same_pages_rollback [OF inv] e Inl in simp)
  qed
next
  case (Inr plan)
  note inv = kv_inv_pool [OF kv_reachable_inv [OF r]] and own = kv_inv_owned(1) [OF i]
  let ?ds = "map cc_dst_phys (cp_copies plan)"
  note P = plan_cow_OkD [OF inv own e [unfolded Inr]]
  have "mset ?ds \<subseteq># owners s + mset ?ds" by simp
  from release_reserved_all_inv [OF P(4,6) this]
  have a: "pool_inv (abort_cow p1 plan) (owners s)" "pool_frame (set ?ds) p1 (abort_cow p1 plan)"
    by (simp_all add: abort_cow_def)
  have "pool_frame (set (pp_free_pages (ks_pool s))) (ks_pool s) (abort_cow p1 plan)"
    by (rule pool_frame_mono [OF pool_frame_trans [OF P(5) a(2)]]) (use P(8) in auto)
  moreover have "mset (pp_free_pages (abort_cow p1 plan)) = mset (pp_free_pages (ks_pool s))"
    by (simp add: abort_cow_def release_reserved_all_free P(8))
  ultimately show ?thesis using same_pages_rollback [OF inv a(1)] Inr by simp
qed

theorem cow_rollback_witness:
  "same_pages (ks_pool demo) (case snd (plan_cow (ks_pool demo) (ks_tables demo ! 1) 0 128) of
     Inl e \<Rightarrow> fst (plan_cow (ks_pool demo) (ks_tables demo ! 1) 0 128)
   | Inr plan \<Rightarrow> abort_cow (fst (plan_cow (ks_pool demo) (ks_tables demo ! 1) 0 128)) plan)"
  by (rule cow_rollback [OF demo_reachable, of 1 0 128]) (simp_all add: demo_eval)

section \<open>Handles\<close>








end
