(* ===== verification/Slot_Pool.thy ===== *)
theory Slot_Pool
  imports Page_Pool_Props
begin

text \<open>
  The per-slot KV descriptors, \<^verbatim>\<open>crates/rdna-compute/src/slot_pool.rs\<close>: fixed slabs in legacy mode,
  block tables over the shared page pool in paged mode, and generation-tagged leases. The vectors of
  the source have one entry per slot; a call with a slot index out of range is the index panic of the
  source. The products that size a slab are reduced modulo \<open>2 ^ 64\<close> as the source computes them.
\<close>

section \<open>Data\<close>

record slot_lease =
  sl_id :: nat
  sl_generation :: "32 word"

record slot_pool =
  sp_descs :: "kv_slot_desc list"
  sp_in_use :: "bool list"
  sp_cap_tokens :: nat
  sp_k_per_pos_bytes :: nat
  sp_v_per_pos_bytes :: nat
  sp_dirty :: bool
  sp_page_pool :: "page_pool option"
  sp_block_tables :: "block_table option list"
  sp_block_tables_dirty :: "bool list"
  sp_slot_generations :: "32 word list"

datatype slot_error =
    SlotPanic
  | SlotArenaOverflow
  | SlotPreflight preflight_error
  | PoolError pool_error
  | ExceedsCap nat nat
  | ExceedsI32 nat
  | NoBlockTable
  | NotPaged
  | DstHoldsPages nat
  | LeaseMismatch "32 word" "32 word"
  | NotInUse nat

section \<open>Construction\<close>

definition empty_desc :: kv_slot_desc where
  "empty_desc = \<lparr>kd_block_table = 0, kd_legacy_k_base = 0, kd_legacy_v_base = 0, kd_seq_len = 0,
                 kd_page_tokens = 0\<rparr>"

definition sp_new_with_strides ::
  "host_env \<Rightarrow> nat \<Rightarrow> nat \<Rightarrow> nat \<Rightarrow> nat \<Rightarrow> slot_error + slot_pool" where
  "sp_new_with_strides env n_slots cap_tokens k v =
     (if n_slots = 0 \<or> k = 0 \<or> v = 0 then Err SlotPanic
      else
        let cap = wrap64 (div_ceil cap_tokens PAGE_TOKENS * PAGE_TOKENS);
            k_slab_bytes = wrap64 (cap * k);
            v_slab_bytes = wrap64 (cap * v)
        in case checked_add64 k_slab_bytes v_slab_bytes of
             None \<Rightarrow> Err SlotArenaOverflow
           | Some slab \<Rightarrow>
               (case checked_mul64 slab n_slots of
                  None \<Rightarrow> Err SlotArenaOverflow
                | Some arena \<Rightarrow>
                    (case preflight_alloc env arena R9700_VRAM_BYTES of
                       Inl e \<Rightarrow> Err (SlotPreflight e)
                     | Inr _ \<Rightarrow>
                         Ok \<lparr>sp_descs = map (\<lambda>i. empty_desc\<lparr>kd_legacy_k_base := i * k_slab_bytes,
                                                       kd_legacy_v_base := i * v_slab_bytes\<rparr>) [0 ..< n_slots],
                             sp_in_use = replicate n_slots False, sp_cap_tokens = cap,
                             sp_k_per_pos_bytes = k, sp_v_per_pos_bytes = v, sp_dirty = True,
                             sp_page_pool = None, sp_block_tables = replicate n_slots None,
                             sp_block_tables_dirty = replicate n_slots False,
                             sp_slot_generations = replicate n_slots 0\<rparr>)))"

definition sp_new :: "host_env \<Rightarrow> nat \<Rightarrow> nat \<Rightarrow> nat \<Rightarrow> slot_error + slot_pool" where
  "sp_new env n_slots cap_tokens per_pos_bytes =
     sp_new_with_strides env n_slots cap_tokens per_pos_bytes per_pos_bytes"

definition sp_new_paged_with_strides ::
  "host_env \<Rightarrow> nat \<Rightarrow> nat \<Rightarrow> nat \<Rightarrow> nat \<Rightarrow> nat \<Rightarrow> slot_error + slot_pool" where
  "sp_new_paged_with_strides env n_slots cap_tokens k v n_pages =
     (if n_slots = 0 \<or> k = 0 \<or> v = 0 then Err SlotPanic
      else
        let cap = wrap64 (div_ceil cap_tokens PAGE_TOKENS * PAGE_TOKENS)
        in case pool_new_with_strides env n_pages k v of
             Inl Panic \<Rightarrow> Err SlotPanic
           | Inl e \<Rightarrow> Err (PoolError e)
           | Inr pool \<Rightarrow>
               Ok \<lparr>sp_descs = replicate n_slots empty_desc,
                   sp_in_use = replicate n_slots False, sp_cap_tokens = cap,
                   sp_k_per_pos_bytes = k, sp_v_per_pos_bytes = v, sp_dirty = True,
                   sp_page_pool = Some pool, sp_block_tables = replicate n_slots None,
                   sp_block_tables_dirty = replicate n_slots False,
                   sp_slot_generations = replicate n_slots 0\<rparr>)"

definition sp_new_paged :: "host_env \<Rightarrow> nat \<Rightarrow> nat \<Rightarrow> nat \<Rightarrow> nat \<Rightarrow> slot_error + slot_pool" where
  "sp_new_paged env n_slots cap_tokens per_pos_bytes n_pages =
     sp_new_paged_with_strides env n_slots cap_tokens per_pos_bytes per_pos_bytes n_pages"

section \<open>Acquire, release, reset\<close>

abbreviation put_desc :: "slot_pool \<Rightarrow> nat \<Rightarrow> kv_slot_desc \<Rightarrow> slot_pool" where
  "put_desc sp i d \<equiv> sp\<lparr>sp_descs := (sp_descs sp)[i := d]\<rparr>"

text \<open>The published length, marking the table dirty only when it changes.\<close>

definition put_seq_len :: "slot_pool \<Rightarrow> nat \<Rightarrow> int \<Rightarrow> slot_pool" where
  "put_seq_len sp i n =
     (if kd_seq_len (sp_descs sp ! i) \<noteq> n
      then (put_desc sp i ((sp_descs sp ! i)\<lparr>kd_seq_len := n\<rparr>))\<lparr>sp_dirty := True\<rparr>
      else sp)"

text \<open>The paged half of \<^verbatim>\<open>reset\<close>: give the pages back, and return the descriptor to legacy mode.\<close>

definition reset_table :: "slot_pool \<Rightarrow> page_pool \<Rightarrow> nat \<Rightarrow> slot_pool" where
  "reset_table sp pool i =
     (case sp_block_tables sp ! i of
        None \<Rightarrow> sp
      | Some bt \<Rightarrow>
          if num_pages bt > 0 then
            (let (pool', bt', _) = release_table pool bt
             in sp\<lparr>sp_page_pool := Some pool', sp_block_tables := (sp_block_tables sp)[i := Some bt'],
                   sp_block_tables_dirty := (sp_block_tables_dirty sp)[i := True]\<rparr>)
          else sp)"

definition sp_reset :: "slot_pool \<Rightarrow> nat \<Rightarrow> slot_pool \<times> (slot_error + unit)" where
  "sp_reset sp i =
     (if length (sp_descs sp) \<le> i then (sp, Err SlotPanic)
      else
        let sp = put_seq_len sp i 0
        in case sp_page_pool sp of
             None \<Rightarrow> (sp, Ok ())
           | Some pool \<Rightarrow>
               (let sp = reset_table sp pool i
                in (put_desc sp i ((sp_descs sp ! i)\<lparr>kd_block_table := 0, kd_page_tokens := 0,
                                      kd_legacy_k_base := 0, kd_legacy_v_base := 0\<rparr>), Ok ())))"

definition sp_acquire :: "slot_pool \<Rightarrow> slot_pool \<times> nat option" where
  "sp_acquire sp =
     (case position (\<lambda>u. \<not> u) (sp_in_use sp) of
        None \<Rightarrow> (sp, None)
      | Some i \<Rightarrow>
          (let sp = fst (sp_reset (sp\<lparr>sp_in_use := (sp_in_use sp)[i := True]\<rparr>) i)
           in case sp_page_pool sp of
                None \<Rightarrow> (sp, Some i)
              | Some _ \<Rightarrow>
                  (sp\<lparr>sp_block_tables := (sp_block_tables sp)[i := Some bt_new],
                      sp_block_tables_dirty := (sp_block_tables_dirty sp)[i := True]\<rparr>, Some i)))"

text \<open>The second \<^verbatim>\<open>release_table\<close> of \<^verbatim>\<open>release\<close> sees the table its \<^verbatim>\<open>reset\<close> has emptied.\<close>

definition sp_release :: "slot_pool \<Rightarrow> nat \<Rightarrow> slot_pool \<times> (slot_error + unit)" where
  "sp_release sp i =
     (case sp_reset sp i of
        (sp, Inl e) \<Rightarrow> (sp, Err e)
      | (sp, Inr _) \<Rightarrow>
          (let sp = (case sp_page_pool sp of
                       None \<Rightarrow> sp
                     | Some pool \<Rightarrow>
                         (let pool' = (case sp_block_tables sp ! i of
                                         None \<Rightarrow> pool
                                       | Some bt \<Rightarrow> fst (release_table pool bt))
                          in sp\<lparr>sp_page_pool := Some pool',
                                sp_block_tables := (sp_block_tables sp)[i := None],
                                sp_block_tables_dirty := (sp_block_tables_dirty sp)[i := False]\<rparr>))
           in (sp\<lparr>sp_slot_generations := (sp_slot_generations sp)[i := sp_slot_generations sp ! i + 1],
                  sp_in_use := (sp_in_use sp)[i := False]\<rparr>, Ok ())))"

section \<open>Lengths\<close>

text \<open>The two refusals shared by the three methods that take a length.\<close>

definition check_seq_len :: "slot_pool \<Rightarrow> nat \<Rightarrow> slot_error + unit" where
  "check_seq_len sp seq_len =
     (if seq_len > sp_cap_tokens sp then Err (ExceedsCap seq_len (sp_cap_tokens sp))
      else if seq_len > i32_max then Err (ExceedsI32 seq_len)
      else Ok ())"

definition provision_pages_for :: "slot_pool \<Rightarrow> nat \<Rightarrow> nat \<Rightarrow> slot_pool \<times> (slot_error + unit)" where
  "provision_pages_for sp i seq_len =
     (case check_seq_len sp seq_len of
        Inl e \<Rightarrow> (sp, Err e)
      | Inr _ \<Rightarrow>
          (case sp_page_pool sp of
             None \<Rightarrow> (sp, Ok ())
           | Some pool \<Rightarrow>
               if length (sp_block_tables sp) \<le> i then (sp, Err SlotPanic)
               else (case sp_block_tables sp ! i of
                  None \<Rightarrow> (sp, Err NoBlockTable)
                | Some bt \<Rightarrow>
                    (case ensure_capacity pool bt seq_len of
                       (pool', bt', Inl e) \<Rightarrow>
                         (sp\<lparr>sp_page_pool := Some pool', sp_block_tables := (sp_block_tables sp)[i := Some bt']\<rparr>,
                          Err (PoolError e))
                     | (pool', bt', Inr _) \<Rightarrow>
                         (sp\<lparr>sp_page_pool := Some pool', sp_block_tables := (sp_block_tables sp)[i := Some bt'],
                             sp_block_tables_dirty := (sp_block_tables_dirty sp)[i := True]\<rparr>, Ok ())))))"

definition publish_seq_len :: "slot_pool \<Rightarrow> nat \<Rightarrow> nat \<Rightarrow> slot_pool \<times> (slot_error + unit)" where
  "publish_seq_len sp i seq_len =
     (case check_seq_len sp seq_len of
        Inl e \<Rightarrow> (sp, Err e)
      | Inr _ \<Rightarrow>
          if length (sp_descs sp) \<le> i then (sp, Err SlotPanic)
          else (put_seq_len sp i (as_i32 seq_len), Ok ()))"

definition set_seq_len :: "slot_pool \<Rightarrow> nat \<Rightarrow> nat \<Rightarrow> slot_pool \<times> (slot_error + unit)" where
  "set_seq_len sp i seq_len =
     (case provision_pages_for sp i seq_len of
        (sp, Inl e) \<Rightarrow> (sp, Err e)
      | (sp, Inr _) \<Rightarrow>
          if length (sp_descs sp) \<le> i then (sp, Err SlotPanic)
          else (put_seq_len sp i (as_i32 seq_len), Ok ()))"

section \<open>Uploads and accessors\<close>

definition descriptors_dirty :: "slot_pool \<Rightarrow> bool" where
  "descriptors_dirty sp = (sp_dirty sp \<or> list_ex id (sp_block_tables_dirty sp))"

definition mark_uploaded :: "slot_pool \<Rightarrow> slot_pool" where
  "mark_uploaded sp =
     sp\<lparr>sp_dirty := False, sp_block_tables_dirty := map (\<lambda>_. False) (sp_block_tables_dirty sp)\<rparr>"

definition sp_k_arena_bytes :: "slot_pool \<Rightarrow> nat" where
  "sp_k_arena_bytes sp =
     (case sp_page_pool sp of
        Some pool \<Rightarrow> pool_k_arena_bytes pool
      | None \<Rightarrow> length (sp_descs sp) * sp_cap_tokens sp * sp_k_per_pos_bytes sp)"

definition sp_v_arena_bytes :: "slot_pool \<Rightarrow> nat" where
  "sp_v_arena_bytes sp =
     (case sp_page_pool sp of
        Some pool \<Rightarrow> pool_v_arena_bytes pool
      | None \<Rightarrow> length (sp_descs sp) * sp_cap_tokens sp * sp_v_per_pos_bytes sp)"

definition sp_block_table :: "slot_pool \<Rightarrow> nat \<Rightarrow> block_table option" where
  "sp_block_table sp i = Option.bind (vec_get (sp_block_tables sp) i) (\<lambda>bt. bt)"

definition block_table_dirty :: "slot_pool \<Rightarrow> nat \<Rightarrow> bool" where
  "block_table_dirty sp i = (case vec_get (sp_block_tables_dirty sp) i of None \<Rightarrow> False | Some b \<Rightarrow> b)"

definition sp_free_pages :: "slot_pool \<Rightarrow> nat" where
  "sp_free_pages sp = (case sp_page_pool sp of None \<Rightarrow> 0 | Some p \<Rightarrow> length (pp_free_pages p))"

definition activate_paged_desc :: "slot_pool \<Rightarrow> nat \<Rightarrow> nat \<Rightarrow> slot_pool \<times> (slot_error + unit)" where
  "activate_paged_desc sp i dev_addr =
     (case sp_block_table sp i of
        None \<Rightarrow> (sp, Err SlotPanic)
      | Some bt \<Rightarrow>
          ((put_desc sp i \<lparr>kd_block_table = dev_addr, kd_legacy_k_base = 0, kd_legacy_v_base = 0,
                           kd_seq_len = as_i32 (bt_live_tokens bt), kd_page_tokens = as_i32 PAGE_TOKENS\<rparr>)
             \<lparr>sp_dirty := True\<rparr>, Ok ()))"

section \<open>Sharing\<close>

text \<open>
  A page count whose product with the page size leaves \<^verbatim>\<open>usize\<close> is refused either way: here by the
  capacity, in the source by the length check of \<^verbatim>\<open>PagePool::share_prefix\<close>.
\<close>

text \<open>The last four statements of both sharing methods.\<close>

definition finish_share :: "slot_pool \<Rightarrow> page_pool \<Rightarrow> nat \<Rightarrow> block_table \<Rightarrow> nat \<Rightarrow> slot_pool" where
  "finish_share sp pool dst bt live =
     (put_desc sp dst ((sp_descs sp ! dst)\<lparr>kd_seq_len := as_i32 live\<rparr>))
       \<lparr>sp_page_pool := Some pool,
        sp_block_tables := (sp_block_tables sp)[dst := Some (set_live_tokens bt live)],
        sp_block_tables_dirty := (sp_block_tables_dirty sp)[dst := True], sp_dirty := True\<rparr>"

definition sp_share_prefix :: "slot_pool \<Rightarrow> nat \<Rightarrow> nat \<Rightarrow> nat \<Rightarrow> slot_pool \<times> (slot_error + unit)" where
  "sp_share_prefix sp src dst n =
     (let live = n * PAGE_TOKENS
      in if live > sp_cap_tokens sp then (sp, Err (ExceedsCap live (sp_cap_tokens sp)))
         else case sp_block_table sp src of
           None \<Rightarrow> (sp, Err NoBlockTable)
         | Some src_snap \<Rightarrow>
             (case sp_block_table sp dst of
                None \<Rightarrow> (sp, Err NoBlockTable)
              | Some dst_bt \<Rightarrow>
                  (case sp_page_pool sp of
                     None \<Rightarrow> (sp, Err NotPaged)
                   | Some pool \<Rightarrow>
                       (case pool_share_prefix pool src_snap dst_bt n of
                          (pool', bt', Inl e) \<Rightarrow>
                            (sp\<lparr>sp_page_pool := Some pool', sp_block_tables := (sp_block_tables sp)[dst := Some bt']\<rparr>,
                             Err (PoolError e))
                        | (pool', bt', Inr _) \<Rightarrow> (finish_share sp pool' dst bt' live, Ok ())))))"

fun check_all_attachable :: "page_pool \<Rightarrow> nat list \<Rightarrow> pool_error + unit" where
  "check_all_attachable p [] = Ok ()"
| "check_all_attachable p (phys # rest) =
     (case check_attachable p phys of Inl e \<Rightarrow> Err e | Inr _ \<Rightarrow> check_all_attachable p rest)"

fun attach_loop ::
  "page_pool \<Rightarrow> block_table \<Rightarrow> nat list \<Rightarrow> page_pool \<times> block_table \<times> (pool_error + unit)" where
  "attach_loop p bt [] = (p, bt, Ok ())"
| "attach_loop p bt (phys # rest) =
     (case refcount_inc p phys of
        (p', Inl e) \<Rightarrow> (p', bt, Err e)
      | (p', Inr _) \<Rightarrow> attach_loop p' (push_page bt phys) rest)"

definition share_published_pages :: "slot_pool \<Rightarrow> nat \<Rightarrow> nat list \<Rightarrow> slot_pool \<times> (slot_error + unit)" where
  "share_published_pages sp dst phys_pages =
     (let live = length phys_pages * PAGE_TOKENS
      in if live > sp_cap_tokens sp then (sp, Err (ExceedsCap live (sp_cap_tokens sp)))
         else case sp_page_pool sp of
           None \<Rightarrow> (sp, Err NotPaged)
         | Some pool \<Rightarrow>
             (case sp_block_table sp dst of
                None \<Rightarrow> (sp, Err NoBlockTable)
              | Some bt \<Rightarrow>
                  if num_pages bt \<noteq> 0 then (sp, Err (DstHoldsPages (num_pages bt)))
                  else case check_all_attachable pool phys_pages of
                    Inl e \<Rightarrow> (sp, Err (PoolError e))
                  | Inr _ \<Rightarrow>
                      (case attach_loop pool bt phys_pages of
                         (pool', bt', Inl e) \<Rightarrow>
                           (sp\<lparr>sp_page_pool := Some pool', sp_block_tables := (sp_block_tables sp)[dst := Some bt']\<rparr>,
                            Err (PoolError e))
                       | (pool', bt', Inr _) \<Rightarrow> (finish_share sp pool' dst bt' live, Ok ()))))"

section \<open>Copy-on-write for a slot\<close>

definition plan_cow_for_slot ::
  "slot_pool \<Rightarrow> nat \<Rightarrow> nat \<Rightarrow> nat \<Rightarrow> slot_pool \<times> (slot_error + cow_plan)" where
  "plan_cow_for_slot sp i ws we =
     (case sp_page_pool sp of
        None \<Rightarrow> (sp, Err NotPaged)
      | Some pool \<Rightarrow>
          (case sp_block_table sp i of
             None \<Rightarrow> (sp, Err NoBlockTable)
           | Some bt \<Rightarrow>
               (case plan_cow pool bt ws we of
                  (pool', Inl e) \<Rightarrow> (sp\<lparr>sp_page_pool := Some pool'\<rparr>, Err (PoolError e))
                | (pool', Inr plan) \<Rightarrow> (sp\<lparr>sp_page_pool := Some pool'\<rparr>, Ok plan))))"

definition commit_cow_for_slot ::
  "slot_pool \<Rightarrow> nat \<Rightarrow> cow_plan \<Rightarrow> slot_pool \<times> (slot_error + unit)" where
  "commit_cow_for_slot sp i plan =
     (case sp_page_pool sp of
        None \<Rightarrow> (sp, Err NotPaged)
      | Some pool \<Rightarrow>
          (case sp_block_table sp i of
             None \<Rightarrow> (sp, Err NoBlockTable)
           | Some bt \<Rightarrow>
               (case commit_cow pool bt plan of
                  (pool', bt', Inl e) \<Rightarrow>
                    (sp\<lparr>sp_page_pool := Some pool', sp_block_tables := (sp_block_tables sp)[i := Some bt']\<rparr>,
                     Err (PoolError e))
                | (pool', bt', Inr _) \<Rightarrow>
                    (sp\<lparr>sp_page_pool := Some pool', sp_block_tables := (sp_block_tables sp)[i := Some bt'],
                        sp_block_tables_dirty := (sp_block_tables_dirty sp)[i := True], sp_dirty := True\<rparr>,
                     Ok ()))))"

definition abort_cow_for_slot :: "slot_pool \<Rightarrow> cow_plan \<Rightarrow> slot_pool" where
  "abort_cow_for_slot sp plan =
     (case sp_page_pool sp of
        None \<Rightarrow> sp
      | Some pool \<Rightarrow> sp\<lparr>sp_page_pool := Some (abort_cow pool plan)\<rparr>)"

section \<open>Leases\<close>

definition slot_generation :: "slot_pool \<Rightarrow> nat \<Rightarrow> 32 word" where
  "slot_generation sp i = (case vec_get (sp_slot_generations sp) i of None \<Rightarrow> 0 | Some g \<Rightarrow> g)"

definition acquire_leased :: "slot_pool \<Rightarrow> slot_pool \<times> slot_lease option" where
  "acquire_leased sp =
     (case sp_acquire sp of
        (sp, None) \<Rightarrow> (sp, None)
      | (sp, Some i) \<Rightarrow> (sp, Some \<lparr>sl_id = i, sl_generation = slot_generation sp i\<rparr>))"

definition validate_generation :: "slot_pool \<Rightarrow> slot_lease \<Rightarrow> slot_error + unit" where
  "validate_generation sp l =
     (let current = slot_generation sp (sl_id l)
      in if current \<noteq> sl_generation l then Err (LeaseMismatch (sl_generation l) current)
         else if length (sp_in_use sp) \<le> sl_id l then Err SlotPanic
         else if \<not> sp_in_use sp ! sl_id l then Err (NotInUse (sl_id l))
         else Ok ())"

definition release_leased :: "slot_pool \<Rightarrow> slot_lease \<Rightarrow> slot_pool \<times> (slot_error + unit)" where
  "release_leased sp l =
     (case validate_generation sp l of
        Inl e \<Rightarrow> (sp, Err e)
      | Inr _ \<Rightarrow> sp_release sp (sl_id l))"

definition set_seq_len_leased :: "slot_pool \<Rightarrow> slot_lease \<Rightarrow> nat \<Rightarrow> slot_pool \<times> (slot_error + unit)" where
  "set_seq_len_leased sp l seq_len =
     (case validate_generation sp l of
        Inl e \<Rightarrow> (sp, Err e)
      | Inr _ \<Rightarrow> set_seq_len sp (sl_id l) seq_len)"

definition share_prefix_leased ::
  "slot_pool \<Rightarrow> slot_lease \<Rightarrow> slot_lease \<Rightarrow> nat \<Rightarrow> slot_pool \<times> (slot_error + unit)" where
  "share_prefix_leased sp src dst n =
     (case validate_generation sp src of
        Inl e \<Rightarrow> (sp, Err e)
      | Inr _ \<Rightarrow>
          (case validate_generation sp dst of
             Inl e \<Rightarrow> (sp, Err e)
           | Inr _ \<Rightarrow> sp_share_prefix sp (sl_id src) (sl_id dst) n))"

end
