(* ===== verification/Slot_Pool_Inv.thy ===== *)
theory Slot_Pool_Inv
  imports Slot_Pool
begin

text \<open>
  The slot pool refines the page pool's protocol: every method of \<^verbatim>\<open>SlotPool\<close> in paged mode is a
  sequence of \<open>pool_step\<close>s on the page pool with one table per slot, so the ownership guarantees of
  the page pool hold of every slot pool that was built by \<^verbatim>\<open>new_paged\<close> and used through its methods.
\<close>

section \<open>Well-formedness\<close>

definition sp_wf :: "slot_pool \<Rightarrow> bool" where
  "sp_wf sp \<longleftrightarrow>
     length (sp_in_use sp) = length (sp_descs sp)
     \<and> length (sp_block_tables sp) = length (sp_descs sp)
     \<and> length (sp_block_tables_dirty sp) = length (sp_descs sp)
     \<and> length (sp_slot_generations sp) = length (sp_descs sp)
     \<and> (\<forall>i < length (sp_descs sp).
          sp_block_tables sp ! i \<noteq> None \<longleftrightarrow> sp_page_pool sp \<noteq> None \<and> sp_in_use sp ! i)"

lemma sp_wf_lengths:
  assumes "sp_wf sp"
  shows "length (sp_in_use sp) = length (sp_descs sp)" "length (sp_block_tables sp) = length (sp_descs sp)"
    "length (sp_block_tables_dirty sp) = length (sp_descs sp)"
    "length (sp_slot_generations sp) = length (sp_descs sp)"
  using assms by (simp_all add: sp_wf_def)

lemma sp_wf_table:
  "sp_wf sp \<Longrightarrow> i < length (sp_descs sp)
   \<Longrightarrow> (sp_block_tables sp ! i = None) \<longleftrightarrow> \<not> (sp_page_pool sp \<noteq> None \<and> sp_in_use sp ! i)"
  by (auto simp: sp_wf_def)

lemma sp_block_table_Some:
  "sp_block_table sp i = Some bt \<longleftrightarrow> i < length (sp_block_tables sp) \<and> sp_block_tables sp ! i = Some bt"
  by (auto simp: sp_block_table_def vec_get_def)

section \<open>The page pool a slot pool drives\<close>

definition tab :: "block_table option \<Rightarrow> block_table" where
  "tab bt = (case bt of None \<Rightarrow> bt_new | Some t \<Rightarrow> t)"

lemma tab_simps [simp]: "tab None = bt_new" "tab (Some t) = t"
  by (simp_all add: tab_def)

definition kv_of :: "slot_pool \<Rightarrow> cow_plan list \<Rightarrow> kv_state" where
  "kv_of sp plans = \<lparr>ks_pool = the (sp_page_pool sp), ks_tables = map tab (sp_block_tables sp), ks_plans = plans\<rparr>"

lemma kv_of_put:
  "kv_of (sp\<lparr>sp_page_pool := Some p, sp_block_tables := (sp_block_tables sp)[i := Some t]\<rparr>) plans
     = put_table (kv_of sp plans) p i t"
  by (simp add: kv_of_def map_update)

lemma kv_of_pool: "kv_of (sp\<lparr>sp_page_pool := Some p\<rparr>) plans = (kv_of sp plans)\<lparr>ks_pool := p\<rparr>"
  by (simp add: kv_of_def)

lemma kv_of_same:
  "sp_page_pool sp' = sp_page_pool sp \<Longrightarrow> sp_block_tables sp' = sp_block_tables sp
   \<Longrightarrow> kv_of sp' plans = kv_of sp plans"
  by (simp add: kv_of_def)

lemma kv_of_sel [simp]:
  "ks_plans (kv_of sp plans) = plans" "length (ks_tables (kv_of sp plans)) = length (sp_block_tables sp)"
  "sp_page_pool sp = Some p \<Longrightarrow> ks_pool (kv_of sp plans) = p"
  "i < length (sp_block_tables sp) \<Longrightarrow> ks_tables (kv_of sp plans) ! i = tab (sp_block_tables sp ! i)"
  by (simp_all add: kv_of_def)

text \<open>One call of a method of the slot pool, successful or not, and the plans outstanding around it.\<close>

inductive slot_step :: "slot_pool \<times> cow_plan list \<Rightarrow> slot_pool \<times> cow_plan list \<Rightarrow> bool" where
  ss_acquire: "sp_acquire sp = (sp', got) \<Longrightarrow> slot_step (sp, plans) (sp', plans)"
| ss_release: "sp_release sp i = (sp', r) \<Longrightarrow> slot_step (sp, plans) (sp', plans)"
| ss_reset: "sp_reset sp i = (sp', r) \<Longrightarrow> slot_step (sp, plans) (sp', plans)"
| ss_provision: "provision_pages_for sp i n = (sp', r) \<Longrightarrow> slot_step (sp, plans) (sp', plans)"
| ss_publish: "publish_seq_len sp i n = (sp', r) \<Longrightarrow> slot_step (sp, plans) (sp', plans)"
| ss_set_seq_len: "set_seq_len sp i n = (sp', r) \<Longrightarrow> slot_step (sp, plans) (sp', plans)"
| ss_uploaded: "slot_step (sp, plans) (mark_uploaded sp, plans)"
| ss_activate: "activate_paged_desc sp i a = (sp', r) \<Longrightarrow> slot_step (sp, plans) (sp', plans)"
| ss_share: "i \<noteq> j \<Longrightarrow> sp_share_prefix sp i j n = (sp', r) \<Longrightarrow> slot_step (sp, plans) (sp', plans)"
| ss_published: "set qs \<inter> set (reserved (kv_of sp plans)) = {}
    \<Longrightarrow> share_published_pages sp j qs = (sp', r) \<Longrightarrow> slot_step (sp, plans) (sp', plans)"
| ss_plan: "plan_cow_for_slot sp i ws we = (sp', Ok plan) \<Longrightarrow> slot_step (sp, plans) (sp', plan # plans)"
| ss_plan_failed: "plan_cow_for_slot sp i ws we = (sp', Err e) \<Longrightarrow> slot_step (sp, plans) (sp', plans)"
| ss_commit: "sp_page_pool sp \<noteq> None \<Longrightarrow> sp_block_table sp i \<noteq> None
    \<Longrightarrow> commit_cow_for_slot sp i plan = (sp', r) \<Longrightarrow> slot_step (sp, before @ plan # after) (sp', before @ after)"
| ss_abort: "sp_page_pool sp \<noteq> None
    \<Longrightarrow> slot_step (sp, before @ plan # after) (abort_cow_for_slot sp plan, before @ after)"
| ss_lease: "sp_page_pool sp = Some pool \<Longrightarrow> q \<notin> set (reserved (kv_of sp plans))
    \<Longrightarrow> f \<in> {seal, add_inflight_ref, release_inflight_ref, add_cache_ref, release_cache_ref}
    \<Longrightarrow> f pool q = (pool', r) \<Longrightarrow> slot_step (sp, plans) (sp\<lparr>sp_page_pool := Some pool'\<rparr>, plans)"
| ss_drain: "sp_page_pool sp = Some pool \<Longrightarrow> drain_completed pool = (pool', freed)
    \<Longrightarrow> slot_step (sp, plans) (sp\<lparr>sp_page_pool := Some pool'\<rparr>, plans)"

text \<open>What a step has to show: the pool stays well formed and paged, and its pages moved by pool steps.\<close>

definition sim :: "slot_pool \<Rightarrow> cow_plan list \<Rightarrow> slot_pool \<Rightarrow> cow_plan list \<Rightarrow> bool" where
  "sim sp plans sp' plans' \<longleftrightarrow>
     sp_wf sp' \<and> sp_page_pool sp' \<noteq> None \<and> pool_step\<^sup>*\<^sup>* (kv_of sp plans) (kv_of sp' plans')"

lemma sim_refl: "sp_wf sp \<Longrightarrow> sp_page_pool sp \<noteq> None \<Longrightarrow> sim sp plans sp plans"
  by (simp add: sim_def)

lemma sim_trans: "sim sp plans sp1 plans1 \<Longrightarrow> sim sp1 plans1 sp2 plans2 \<Longrightarrow> sim sp plans sp2 plans2"
  by (auto simp: sim_def)

text \<open>A change outside the page pool and the tables.\<close>

lemma sim_same:
  assumes "sp_wf sp" "sp_page_pool sp \<noteq> None" "sp_page_pool sp' = sp_page_pool sp"
    "sp_block_tables sp' = sp_block_tables sp" "sp_in_use sp' = sp_in_use sp"
    "length (sp_descs sp') = length (sp_descs sp)"
    "length (sp_block_tables_dirty sp') = length (sp_block_tables_dirty sp)"
    "length (sp_slot_generations sp') = length (sp_slot_generations sp)"
  shows "sim sp plans sp' plans"
  using assms kv_of_same [OF assms(3,4)] by (auto simp: sim_def sp_wf_def)

text \<open>A change of one table by one pool step.\<close>

lemma sim_table:
  assumes wf: "sp_wf sp" and i: "i < length (sp_descs sp)" and st: "sp_block_tables sp ! i = Some bt"
    and step: "pool_step (kv_of sp plans) ((put_table (kv_of sp plans) p i t)\<lparr>ks_plans := plans'\<rparr>)"
    and sp': "sp_page_pool sp' = Some p" "sp_block_tables sp' = (sp_block_tables sp)[i := Some t]"
      "sp_in_use sp' = sp_in_use sp" "length (sp_descs sp') = length (sp_descs sp)"
      "length (sp_block_tables_dirty sp') = length (sp_block_tables_dirty sp)"
      "length (sp_slot_generations sp') = length (sp_slot_generations sp)"
  shows "sim sp plans sp' plans'"
proof -
  have "kv_of sp' plans' = (put_table (kv_of sp plans) p i t)\<lparr>ks_plans := plans'\<rparr>"
    by (simp add: kv_of_def sp' map_update)
  moreover have "sp_page_pool sp \<noteq> None" "sp_in_use sp ! i" using sp_wf_table [OF wf i] st by auto
  then have "sp_wf sp'" using wf i sp' by (auto simp: sp_wf_def nth_list_update)
  ultimately show ?thesis using step sp'(1) by (auto simp: sim_def)
qed

section \<open>Each method is a sequence of pool steps\<close>

lemma put_seq_len_sel [simp]:
  "sp_page_pool (put_seq_len sp i n) = sp_page_pool sp"
  "sp_block_tables (put_seq_len sp i n) = sp_block_tables sp"
  "sp_in_use (put_seq_len sp i n) = sp_in_use sp"
  "length (sp_descs (put_seq_len sp i n)) = length (sp_descs sp)"
  "sp_block_tables_dirty (put_seq_len sp i n) = sp_block_tables_dirty sp"
  "sp_slot_generations (put_seq_len sp i n) = sp_slot_generations sp"
  by (simp_all add: put_seq_len_def)

lemma sim_reset_table:
  assumes wf: "sp_wf sp" and i: "i < length (sp_descs sp)" and p: "sp_page_pool sp = Some pool"
  shows "sim sp plans (reset_table sp pool i) plans"
    "length (sp_descs (reset_table sp pool i)) = length (sp_descs sp)"
    "num_pages (tab (sp_block_tables (reset_table sp pool i) ! i)) = 0"
    "sp_in_use (reset_table sp pool i) = sp_in_use sp"
    "sp_slot_generations (reset_table sp pool i) = sp_slot_generations sp"
proof -
  show "length (sp_descs (reset_table sp pool i)) = length (sp_descs sp)"
    "sp_in_use (reset_table sp pool i) = sp_in_use sp"
    "sp_slot_generations (reset_table sp pool i) = sp_slot_generations sp"
    by (auto simp: reset_table_def Let_def split: option.splits prod.splits)
  show "num_pages (tab (sp_block_tables (reset_table sp pool i) ! i)) = 0"
    using i sp_wf_lengths [OF wf]
    by (auto simp: reset_table_def release_table_def Let_def num_pages_def bt_new_def
        split: option.splits prod.splits)
  show "sim sp plans (reset_table sp pool i) plans"
  proof (cases "\<exists>bt. sp_block_tables sp ! i = Some bt \<and> num_pages bt > 0")
    case False
    then have "reset_table sp pool i = sp" by (auto simp: reset_table_def split: option.splits)
    then show ?thesis using sim_refl wf p by simp
  next
    case True
    then obtain bt where bt: "sp_block_tables sp ! i = Some bt" "num_pages bt > 0" by blast
    obtain p' t r where e: "release_table pool bt = (p', t, r)" by (metis prod_cases3)
    have "pool_step (kv_of sp plans) (put_table (kv_of sp plans) p' i t)"
      by (rule step_release) (use i e bt p sp_wf_lengths [OF wf] in simp_all)
    then show ?thesis
      by (intro sim_table [OF wf i bt(1), where p = p' and t = t]) (simp_all add: reset_table_def bt e kv_of_def)
  qed
qed

lemma sim_reset:
  assumes wf: "sp_wf sp" and p: "sp_page_pool sp = Some pool" and e: "sp_reset sp i = (sp', r)"
  shows "sim sp plans sp' plans \<and> sp_in_use sp' = sp_in_use sp
    \<and> sp_slot_generations sp' = sp_slot_generations sp \<and> length (sp_descs sp') = length (sp_descs sp)
    \<and> (if i < length (sp_descs sp) then r = Ok () \<and> num_pages (tab (sp_block_tables sp' ! i)) = 0
       else r = Err SlotPanic \<and> sp' = sp)"
proof (cases "i < length (sp_descs sp)")
  case False
  then show ?thesis using e sim_refl wf p by (auto simp: sp_reset_def)
next
  case True
  let ?sp = "put_seq_len sp i 0"
  let ?sp2 = "reset_table ?sp pool i"
  have s1: "sim sp plans ?sp plans" using sim_same wf p by simp
  then have "sp_wf ?sp" by (simp add: sim_def)
  from sim_reset_table [OF this, of i pool] True p
  have r2: "sim ?sp plans ?sp2 plans" "length (sp_descs ?sp2) = length (sp_descs sp)"
    "num_pages (tab (sp_block_tables ?sp2 ! i)) = 0" "sp_in_use ?sp2 = sp_in_use sp"
    "sp_slot_generations ?sp2 = sp_slot_generations sp"
    by simp_all
  have "sim ?sp2 plans sp' plans"
    using r2(1) True p e by (intro sim_same) (auto simp: sp_reset_def Let_def sim_def)
  then show ?thesis
    using sim_trans [OF s1 sim_trans [OF r2(1)]] r2(2-5) True p e by (auto simp: sp_reset_def Let_def)
qed

lemma sim_acquire:
  assumes wf: "sp_wf sp" and p: "sp_page_pool sp = Some pool" and e: "sp_acquire sp = (sp', got)"
  shows "sim sp plans sp' plans"
proof (cases "position (\<lambda>u. \<not> u) (sp_in_use sp)")
  case None
  then show ?thesis using e sim_refl wf p by (auto simp: sp_acquire_def)
next
  case (Some i)
  then have i: "i < length (sp_descs sp)" "\<not> sp_in_use sp ! i"
    using sp_wf_lengths [OF wf] by (auto simp: position_Some)
  have n: "sp_block_tables sp ! i = None" using sp_wf_table [OF wf i(1)] i(2) by simp
  let ?sp0 = "sp\<lparr>sp_in_use := (sp_in_use sp)[i := True]\<rparr>"
  let ?d = "(sp_descs (put_seq_len ?sp0 i 0))[i := (sp_descs (put_seq_len ?sp0 i 0) ! i)\<lparr>kd_block_table := 0,
              kd_page_tokens := 0, kd_legacy_k_base := 0, kd_legacy_v_base := 0\<rparr>]"
  have "sp_reset ?sp0 i = ((put_seq_len ?sp0 i 0)\<lparr>sp_descs := ?d\<rparr>, Ok ())"
    using i n p by (simp add: sp_reset_def reset_table_def Let_def put_seq_len_def)
  then have sp': "sp_page_pool sp' = Some pool" "sp_block_tables sp' = (sp_block_tables sp)[i := Some bt_new]"
    "sp_in_use sp' = (sp_in_use sp)[i := True]" "length (sp_descs sp') = length (sp_descs sp)"
    "length (sp_block_tables_dirty sp') = length (sp_block_tables_dirty sp)"
    "sp_slot_generations sp' = sp_slot_generations sp"
    using e Some p by (auto simp: sp_acquire_def Let_def)
  have "kv_of sp' plans = kv_of sp plans"
    using n sp' p i(1) sp_wf_lengths [OF wf] by (simp add: kv_of_def map_update list_update_same_conv)
  moreover have "sp_wf sp'" using wf sp' i p by (auto simp: sp_wf_def nth_list_update)
  ultimately show ?thesis using sp'(1) by (simp add: sim_def)
qed

text \<open>An empty table gives back no page.\<close>

lemma release_table_empty: "num_pages bt = 0 \<Longrightarrow> release_table p bt = (p, bt_new, Ok ())"
  by (simp add: release_table_def num_pages_def bt_new_def)

lemma sim_release:
  assumes wf: "sp_wf sp" and p: "sp_page_pool sp = Some pool" and e: "sp_release sp i = (sp', r)"
  shows "sim sp plans sp' plans"
proof -
  obtain sp1 r1 where e1: "sp_reset sp i = (sp1, r1)" by fastforce
  note R = sim_reset [OF wf p e1, of plans]
  show ?thesis
  proof (cases "i < length (sp_descs sp)")
    case False
    then show ?thesis using R e e1 by (auto simp: sp_release_def)
  next
    case True
    then have r1: "r1 = Ok ()" "num_pages (tab (sp_block_tables sp1 ! i)) = 0" and s1: "sim sp plans sp1 plans"
      using R by auto
    from s1 obtain pool1 where wf1: "sp_wf sp1" and p1: "sp_page_pool sp1 = Some pool1"
      by (auto simp: sim_def)
    have il: "i < length (sp_block_tables sp1)" using True R sp_wf_lengths [OF wf1] by simp
    have np: "(case sp_block_tables sp1 ! i of None \<Rightarrow> pool1 | Some bt \<Rightarrow> fst (release_table pool1 bt)) = pool1"
      using r1(2) by (auto simp: release_table_empty split: option.splits)
    have sp': "sp_page_pool sp' = Some pool1" "sp_block_tables sp' = (sp_block_tables sp1)[i := None]"
      "sp_in_use sp' = (sp_in_use sp1)[i := False]" "length (sp_descs sp') = length (sp_descs sp1)"
      "length (sp_block_tables_dirty sp') = length (sp_block_tables_dirty sp1)"
      "length (sp_slot_generations sp') = length (sp_slot_generations sp1)"
      using e e1 r1(1) p1 np by (auto simp: sp_release_def Let_def)
    have "pool_step (kv_of sp1 plans) (put_table (kv_of sp1 plans) pool1 i bt_new)"
      by (rule step_release) (use il p1 release_table_empty [OF r1(2)] in simp_all)
    moreover have "put_table (kv_of sp1 plans) pool1 i bt_new = kv_of sp' plans"
      using sp' p1 by (simp add: kv_of_def map_update)
    moreover have "sp_wf sp'" using wf1 sp' p1 True R by (auto simp: sp_wf_def nth_list_update)
    ultimately have "sim sp1 plans sp' plans" using sp'(1) by (auto simp: sim_def)
    then show ?thesis using sim_trans s1 by blast
  qed
qed

lemma sim_provision:
  assumes wf: "sp_wf sp" and p: "sp_page_pool sp = Some pool"
    and e: "provision_pages_for sp i n = (sp', r)"
  shows "sim sp plans sp' plans"
proof (cases "sp' = sp")
  case True
  then show ?thesis using sim_refl wf p by simp
next
  case False
  then obtain bt where i: "i < length (sp_descs sp)" and bt: "sp_block_tables sp ! i = Some bt"
    using e p sp_wf_lengths [OF wf] by (auto simp: provision_pages_for_def split: sum.splits if_splits option.splits)
  obtain p' t r' where ec: "ensure_capacity pool bt n = (p', t, r')" by (metis prod_cases3)
  have step: "pool_step (kv_of sp plans) (put_table (kv_of sp plans) p' i t)"
    by (rule step_ensure) (use i ec bt p sp_wf_lengths [OF wf] in simp_all)
  show ?thesis
    by (rule sim_table [OF wf i bt, where p = p' and t = t])
      (use step e False p bt ec in \<open>auto simp: provision_pages_for_def kv_of_def
        split: sum.splits if_splits\<close>)
qed

lemma sim_set_seq_len:
  assumes wf: "sp_wf sp" and p: "sp_page_pool sp = Some pool" and e: "set_seq_len sp i n = (sp', r)"
  shows "sim sp plans sp' plans"
proof -
  obtain sp1 r1 where e1: "provision_pages_for sp i n = (sp1, r1)" by fastforce
  have s1: "sim sp plans sp1 plans" by (rule sim_provision [OF wf p e1])
  then have sp1: "sp_wf sp1" "sp_page_pool sp1 \<noteq> None" by (simp_all add: sim_def)
  have "sp' = sp1 \<or> sp' = put_seq_len sp1 i (as_i32 n)"
    using e e1 by (auto simp: set_seq_len_def split: sum.splits if_splits)
  then have "sim sp1 plans sp' plans" using sim_refl [OF sp1] sim_same [OF sp1] by auto
  then show ?thesis using sim_trans s1 by blast
qed

lemma set_live_tokens_step:
  assumes "i < length (ks_tables s)" "n \<le> num_pages (ks_tables s ! i) * PAGE_TOKENS"
  shows "pool_step s (put_table s (ks_pool s) i (set_live_tokens (ks_tables s ! i) n))"
proof (rule step_ensure)
  have "div_ceil n PAGE_TOKENS \<le> num_pages (ks_tables s ! i)"
    using assms(2) by (simp add: div_ceil_le_iff PAGE_TOKENS_def)
  then show "ensure_capacity (ks_pool s) (ks_tables s ! i) n
               = (ks_pool s, set_live_tokens (ks_tables s ! i) n, Ok 0)"
    by (simp add: ensure_capacity_def)
qed (use assms in simp)

text \<open>A table that reached \<open>bt'\<close> by pool steps, then published with its live tokens.\<close>

lemma sim_finish_share:
  assumes wf: "sp_wf sp" and j: "j < length (sp_descs sp)" and bt: "sp_block_tables sp ! j = Some bt"
    and steps: "pool_step\<^sup>*\<^sup>* (kv_of sp plans) (put_table (kv_of sp plans) p' j bt')"
    and live: "live \<le> num_pages bt' * PAGE_TOKENS"
  shows "sim sp plans (finish_share sp p' j bt' live) plans"
proof -
  let ?s = "put_table (kv_of sp plans) p' j bt'"
  have jl: "j < length (sp_block_tables sp)" using j sp_wf_lengths [OF wf] by simp
  have "pool_step ?s (put_table ?s p' j (set_live_tokens bt' live))"
    using set_live_tokens_step [of j ?s live] jl live by simp
  moreover have "put_table ?s p' j (set_live_tokens bt' live) = kv_of (finish_share sp p' j bt' live) plans"
    by (simp add: finish_share_def kv_of_def map_update)
  moreover have "sp_wf (finish_share sp p' j bt' live)"
    using wf j bt sp_wf_table [OF wf j] by (auto simp: finish_share_def sp_wf_def nth_list_update)
  ultimately show ?thesis using steps by (auto simp: sim_def finish_share_def)
qed

text \<open>The same table, when the call stops with an error.\<close>

lemma sim_stop_share:
  assumes wf: "sp_wf sp" and j: "j < length (sp_descs sp)" and bt: "sp_block_tables sp ! j = Some bt"
    and steps: "pool_step\<^sup>*\<^sup>* (kv_of sp plans) (put_table (kv_of sp plans) p' j bt')"
  shows "sim sp plans (sp\<lparr>sp_page_pool := Some p', sp_block_tables := (sp_block_tables sp)[j := Some bt']\<rparr>) plans"
  using steps wf j bt sp_wf_table [OF wf j] unfolding sim_def kv_of_put
  by (auto simp: sp_wf_def nth_list_update)

lemma share_loop_Ok: "share_loop p bt xs = (p', bt', Ok ()) \<Longrightarrow> bt_pages bt' = bt_pages bt @ xs"
  by (induction xs arbitrary: p bt) (auto simp: push_page_def split: sum.splits option.splits)

lemma pool_share_prefix_Ok:
  assumes "pool_share_prefix p src dst n = (p', t, Ok ())"
  shows "bt_pages t = take n (bt_pages src)" "num_pages t = n"
proof -
  have n: "n \<le> num_pages src" "num_pages dst = 0"
    and l: "share_loop p dst (take n (bt_pages src)) = (p', t, Ok ())"
    using assms by (auto simp: pool_share_prefix_def split: if_splits)
  from share_loop_Ok [OF l] n show "bt_pages t = take n (bt_pages src)" "num_pages t = n"
    by (simp_all add: num_pages_def)
qed

lemma sim_share:
  assumes wf: "sp_wf sp" and p: "sp_page_pool sp = Some pool" and ij: "i \<noteq> j"
    and e: "sp_share_prefix sp i j n = (sp', r)"
  shows "sim sp plans sp' plans"
proof (cases "sp' = sp")
  case True
  then show ?thesis using sim_refl wf p by simp
next
  case False
  then obtain src dst where t: "sp_block_table sp i = Some src" "sp_block_table sp j = Some dst"
    using e p by (auto simp: sp_share_prefix_def Let_def split: if_splits option.splits)
  note tt = t [unfolded sp_block_table_Some]
  have j: "j < length (sp_descs sp)" using tt sp_wf_lengths [OF wf] by simp
  obtain p' t' r' where sh: "pool_share_prefix pool src dst n = (p', t', r')" by (metis prod_cases3)
  have "pool_step (kv_of sp plans) (put_table (kv_of sp plans) p' j t')"
    by (rule step_share [of i _ j]) (use ij tt sh p in simp_all)
  then have st: "pool_step\<^sup>*\<^sup>* (kv_of sp plans) (put_table (kv_of sp plans) p' j t')" by blast
  show ?thesis
  proof (cases r')
    case (Inl er)
    then show ?thesis
      using e False t p sh sim_stop_share [OF wf j _ st] tt
      by (auto simp: sp_share_prefix_def Let_def split: if_splits)
  next
    case (Inr u)
    then have "num_pages t' = n" using pool_share_prefix_Ok(2) [of pool src dst n p' t'] sh by simp
    then show ?thesis
      using e False t p sh Inr sim_finish_share [OF wf j _ st] tt
      by (auto simp: sp_share_prefix_def Let_def split: if_splits)
  qed
qed

lemma refcount_inc_Err: "refcount_inc p q = (p', Err e) \<Longrightarrow> p' = p"
  by (auto simp: refcount_inc_def Let_def split: sum.splits if_splits option.splits)

lemma attach_loop_steps:
  assumes "attach_loop (ks_pool s) (ks_tables s ! j) qs = (p', bt', r)" "j < length (ks_tables s)"
    "set qs \<inter> set (reserved s) = {}"
  shows "pool_step\<^sup>*\<^sup>* s (put_table s p' j bt')"
  using assms
proof (induction qs arbitrary: s)
  case Nil
  then show ?case by auto
next
  case (Cons q qs)
  obtain p1 r1 where rc: "refcount_inc (ks_pool s) q = (p1, r1)" by fastforce
  show ?case
  proof (cases r1)
    case (Inl er)
    then have "p' = ks_pool s" "bt' = ks_tables s ! j" using Cons.prems(1) rc refcount_inc_Err by auto
    then show ?thesis by simp
  next
    case (Inr u)
    let ?s = "put_table s p1 j (push_page (ks_tables s ! j) q)"
    have "pool_step s ?s" using step_attach [of j s q p1] Cons.prems(2,3) rc Inr by simp
    moreover have "pool_step\<^sup>*\<^sup>* ?s (put_table ?s p' j bt')"
      by (rule Cons.IH) (use Cons.prems rc Inr in auto)
    ultimately show ?thesis by (auto intro: converse_rtranclp_into_rtranclp)
  qed
qed

lemma attach_loop_Ok: "attach_loop p bt qs = (p', bt', Ok ()) \<Longrightarrow> bt_pages bt' = bt_pages bt @ qs"
  by (induction qs arbitrary: p bt) (auto simp: push_page_def split: prod.splits sum.splits)

lemma sim_published:
  assumes wf: "sp_wf sp" and p: "sp_page_pool sp = Some pool"
    and res: "set qs \<inter> set (reserved (kv_of sp plans)) = {}"
    and e: "share_published_pages sp j qs = (sp', r)"
  shows "sim sp plans sp' plans"
proof (cases "sp' = sp")
  case True
  then show ?thesis using sim_refl wf p by simp
next
  case False
  then obtain bt where t: "sp_block_table sp j = Some bt" "num_pages bt = 0"
    using e p by (auto simp: share_published_pages_def Let_def split: if_splits option.splits)
  note tt = t(1) [unfolded sp_block_table_Some]
  have j: "j < length (sp_descs sp)" using tt sp_wf_lengths [OF wf] by simp
  obtain p' t' r' where at: "attach_loop pool bt qs = (p', t', r')" by (metis prod_cases3)
  have st: "pool_step\<^sup>*\<^sup>* (kv_of sp plans) (put_table (kv_of sp plans) p' j t')"
    by (rule attach_loop_steps [OF _ _ res, where r = r']) (use at tt p in simp_all)
  show ?thesis
  proof (cases r')
    case (Inl er)
    then show ?thesis
      using e False t p at sim_stop_share [OF wf j _ st] tt
      by (auto simp: share_published_pages_def Let_def split: if_splits sum.splits)
  next
    case (Inr u)
    then have "num_pages t' = length qs" using attach_loop_Ok at t(2) by (fastforce simp: num_pages_def)
    then show ?thesis
      using e False t p at Inr sim_finish_share [OF wf j _ st] tt
      by (auto simp: share_published_pages_def Let_def split: if_splits sum.splits)
  qed
qed

text \<open>A step that only moves the page pool.\<close>

lemma sim_pool:
  assumes "sp_wf sp" "sp_page_pool sp = Some pool"
    "pool_step (kv_of sp plans) ((kv_of sp plans)\<lparr>ks_pool := p', ks_plans := plans'\<rparr>)"
  shows "sim sp plans (sp\<lparr>sp_page_pool := Some p'\<rparr>) plans'"
proof -
  have "kv_of (sp\<lparr>sp_page_pool := Some p'\<rparr>) plans' = (kv_of sp plans)\<lparr>ks_pool := p', ks_plans := plans'\<rparr>"
    by (simp add: kv_of_def)
  then show ?thesis using assms by (auto simp: sim_def sp_wf_def)
qed

lemma sim_plan:
  assumes wf: "sp_wf sp" and p: "sp_page_pool sp = Some pool" and e: "plan_cow_for_slot sp i ws we = (sp', r)"
  shows "sim sp plans sp' (case r of Inl _ \<Rightarrow> plans | Inr plan \<Rightarrow> plan # plans)"
proof (cases "sp_block_table sp i")
  case None
  then show ?thesis using e p sim_refl wf by (auto simp: plan_cow_for_slot_def)
next
  case (Some bt)
  obtain p' r' where pc: "plan_cow pool bt ws we = (p', r')" by fastforce
  note tt = Some [unfolded sp_block_table_Some]
  show ?thesis
  proof (cases r')
    case (Inl er)
    have "pool_step (kv_of sp plans) ((kv_of sp plans)\<lparr>ks_pool := p'\<rparr>)"
      by (rule step_plan_failed [of i _ ws we]) (use tt p pc Inl in simp_all)
    then have "sim sp plans (sp\<lparr>sp_page_pool := Some p'\<rparr>) plans"
      by (intro sim_pool [OF wf p]) (simp add: kv_of_def)
    then show ?thesis using e p Some pc Inl by (auto simp: plan_cow_for_slot_def)
  next
    case (Inr plan)
    have "pool_step (kv_of sp plans) ((kv_of sp plans)\<lparr>ks_pool := p', ks_plans := plan # ks_plans (kv_of sp plans)\<rparr>)"
      by (rule step_plan [of i _ ws we]) (use tt p pc Inr in simp_all)
    then have "sim sp plans (sp\<lparr>sp_page_pool := Some p'\<rparr>) (plan # plans)"
      by (intro sim_pool [OF wf p]) simp
    then show ?thesis using e p Some pc Inr by (auto simp: plan_cow_for_slot_def)
  qed
qed

lemma sim_commit:
  assumes wf: "sp_wf sp" and p: "sp_page_pool sp = Some pool" and t: "sp_block_table sp i = Some bt"
    and e: "commit_cow_for_slot sp i plan = (sp', r)"
  shows "sim sp (before @ plan # after) sp' (before @ after)"
proof -
  note tt = t [unfolded sp_block_table_Some]
  obtain p' t' r' where cc: "commit_cow pool bt plan = (p', t', r')" by (metis prod_cases3)
  have i: "i < length (sp_descs sp)" using tt sp_wf_lengths [OF wf] by simp
  have step: "pool_step (kv_of sp (before @ plan # after))
      ((put_table (kv_of sp (before @ plan # after)) p' i t')\<lparr>ks_plans := before @ after\<rparr>)"
    by (rule step_commit) (use tt p cc in simp_all)
  show ?thesis
    by (rule sim_table [OF wf i _ step]) (use e p t tt cc in \<open>auto simp: commit_cow_for_slot_def split: sum.splits\<close>)
qed

lemma sim_lease:
  assumes wf: "sp_wf sp" and p: "sp_page_pool sp = Some pool" and q: "q \<notin> set (reserved (kv_of sp plans))"
    and f: "f \<in> {seal, add_inflight_ref, release_inflight_ref, add_cache_ref, release_cache_ref}"
    and e: "f pool q = (pool', r)"
  shows "sim sp plans (sp\<lparr>sp_page_pool := Some pool'\<rparr>) plans"
proof -
  have "pool_step (kv_of sp plans) ((kv_of sp plans)\<lparr>ks_pool := pool'\<rparr>)"
    using f e p q
    by (auto intro: step_seal step_add_inflight step_release_inflight step_add_cache step_release_cache)
  then show ?thesis by (intro sim_pool [OF wf p]) (simp add: kv_of_def)
qed

inductive_cases slot_stepE: "slot_step (sp, plans) (sp', plans')"

lemmas slot_step_cases = slot_stepE [consumes 1, case_names ss_acquire ss_release ss_reset ss_provision
  ss_publish ss_set_seq_len ss_uploaded ss_activate ss_share ss_published ss_plan ss_plan_failed
  ss_commit ss_abort ss_lease ss_drain]

lemma slot_step_sim:
  assumes step: "slot_step (sp, plans) (sp', plans')" and wf: "sp_wf sp" and pg: "sp_page_pool sp = Some pool"
  shows "sim sp plans sp' plans'"
  using step
proof (cases rule: slot_step_cases)
  case (ss_publish i n r)
  then have "sp' = sp \<or> sp' = put_seq_len sp i (as_i32 n)"
    by (auto simp: publish_seq_len_def split: sum.splits if_splits)
  then show ?thesis using sim_refl [OF wf] pg sim_same [OF wf] ss_publish(1) by auto
next
  case ss_uploaded
  then show ?thesis using sim_same [OF wf, of sp'] pg by (simp add: mark_uploaded_def)
next
  case (ss_activate i a r)
  then show ?thesis
    using sim_same [OF wf, of sp'] sim_refl [OF wf] pg by (auto simp: activate_paged_desc_def split: option.splits)
next
  case (ss_abort before plan after)
  have "pool_step (kv_of sp plans) ((kv_of sp plans)\<lparr>ks_pool := abort_cow pool plan, ks_plans := plans'\<rparr>)"
    using step_abort [of "kv_of sp plans" before plan after] ss_abort pg by simp
  then show ?thesis using sim_pool [OF wf pg] ss_abort pg by (simp add: abort_cow_for_slot_def)
next
  case (ss_drain pool2 pool' freed)
  have "pool_step (kv_of sp plans) ((kv_of sp plans)\<lparr>ks_pool := pool', ks_plans := plans'\<rparr>)"
    using step_drain [of "kv_of sp plans" pool' freed] ss_drain by (simp add: kv_of_def)
  then show ?thesis using sim_pool [OF wf pg] ss_drain by simp
next
  case (ss_plan i ws we plan)
  then show ?thesis using sim_plan [OF wf pg, of i ws we sp' "Ok plan" plans] by simp
next
  case (ss_plan_failed i ws we e)
  then show ?thesis using sim_plan [OF wf pg, of i ws we sp' "Err e" plans] by simp
next
  case (ss_acquire got)
  then show ?thesis using sim_acquire [OF wf pg] by simp
next
  case (ss_release i r)
  then show ?thesis using sim_release [OF wf pg] by simp
next
  case (ss_reset i r)
  then show ?thesis using sim_reset [OF wf pg, of i sp' r plans] by simp
next
  case (ss_provision i n r)
  then show ?thesis using sim_provision [OF wf pg] by simp
next
  case (ss_set_seq_len i n r)
  then show ?thesis using sim_set_seq_len [OF wf pg] by simp
next
  case (ss_share i j n r)
  then show ?thesis using sim_share [OF wf pg] by simp
next
  case (ss_published qs j r)
  then show ?thesis using sim_published [OF wf pg] by simp
next
  case (ss_commit i plan r before after)
  then show ?thesis using sim_commit [OF wf pg, of i _ plan sp' r before after] by auto
next
  case (ss_lease pool2 q f pool' r)
  then show ?thesis using sim_lease [OF wf, of pool2 q plans f pool' r] by simp
qed

end
