(* ===== verification/Serve_Interfaces.thy ===== *)
theory Serve_Interfaces
  imports Rust_Prelude
begin

text \<open>
  The two contracts the session table relies on. A slot source hands out slots that nobody holds
  and takes them back; a grant book hands out budget grants by session id and takes them back. The
  client facts, that assignments stay injective and that the book lists exactly the granted sessions,
  are proved here once and reach the session table through the interpretations on the slot pool
  and on the admission controller.
\<close>

section \<open>Slots\<close>

locale slot_source =
  fixes acq :: "'p \<Rightarrow> 'p \<times> nat option"
    and rel :: "'p \<Rightarrow> nat \<Rightarrow> 'p"
    and used :: "'p \<Rightarrow> nat set"
    and ok :: "'p \<Rightarrow> bool"
  assumes acq_Some: "ok p \<Longrightarrow> acq p = (p', Some i) \<Longrightarrow> ok p' \<and> i \<notin> used p \<and> used p' = insert i (used p)"
    and acq_None: "acq p = (p', None) \<Longrightarrow> p' = p"
    and rel_used: "ok p \<Longrightarrow> i \<in> used p \<Longrightarrow> ok (rel p i) \<and> used (rel p i) = used p - {i}"
begin

text \<open>An assignment of slots to keys: no slot has two keys, and every assigned slot is in use.\<close>

definition holds :: "'p \<Rightarrow> (nat \<rightharpoonup> nat) \<Rightarrow> bool" where
  "holds p f \<longleftrightarrow> ok p \<and> inj_on f (dom f) \<and> ran f \<subseteq> used p"

lemma holds_forget: "holds p f \<Longrightarrow> holds p (f(k := None))"
  unfolding holds_def by (auto simp: inj_on_def ran_def dom_def split: if_splits)

lemma holds_rel:
  assumes "holds p f" "f k = Some i"
  shows "holds (rel p i) (f(k := None))"
proof -
  have i: "i \<in> used p" "ok p" using assms by (auto simp: holds_def ran_def)
  have "i \<notin> ran (f(k := None))"
  proof
    assume "i \<in> ran (f(k := None))"
    then obtain k' where "k' \<noteq> k" "f k' = Some i" by (auto simp: ran_def split: if_splits)
    then show False using assms by (auto simp: holds_def inj_on_def dom_def)
  qed
  then show ?thesis
    using holds_forget [OF assms(1), of k] rel_used [OF i(2,1)] by (auto simp: holds_def)
qed

lemma holds_transfer: "holds p f \<Longrightarrow> ok p' \<Longrightarrow> used p' = used p \<Longrightarrow> holds p' f"
  by (simp add: holds_def)

lemma holds_acquire_spare: "holds p f \<Longrightarrow> acq p = (p', Some i) \<Longrightarrow> holds p' f"
  using acq_Some [of p p' i] by (auto simp: holds_def)

lemma holds_attach:
  "holds p f \<Longrightarrow> f k = None \<Longrightarrow> i \<in> used p \<Longrightarrow> i \<notin> ran f \<Longrightarrow> holds p (f(k \<mapsto> i))"
  by (auto simp: holds_def inj_on_def ran_def dom_def split: if_splits)

lemma holds_acq: "holds p f \<Longrightarrow> acq p = (p', Some i) \<Longrightarrow> f k = None \<Longrightarrow> holds p' (f(k \<mapsto> i))"
  using acq_Some [of p p' i] holds_acquire_spare [of p f p' i] holds_attach [of p' f k i]
  by (auto simp: holds_def)

lemma holds_release_spare: "holds p f \<Longrightarrow> i \<in> used p \<Longrightarrow> i \<notin> ran f \<Longrightarrow> holds (rel p i) f"
  using rel_used [of p i] by (auto simp: holds_def)

lemma holds_distinct: "holds p f \<Longrightarrow> f k = Some i \<Longrightarrow> f k' = Some i \<Longrightarrow> k = k'"
  by (auto simp: holds_def inj_on_def dom_def)

lemma holds_used: "holds p f \<Longrightarrow> f k = Some i \<Longrightarrow> i \<in> used p"
  by (auto simp: holds_def ran_def)

end

section \<open>Grants\<close>

locale grant_book =
  fixes grant :: "'b \<Rightarrow> nat \<Rightarrow> nat \<Rightarrow> 'b \<times> ('e + nat)"
    and revoke :: "'b \<Rightarrow> nat \<Rightarrow> 'b"
    and holders :: "'b \<Rightarrow> nat multiset"
    and ok :: "'b \<Rightarrow> bool"
  assumes grant_Ok: "ok b \<Longrightarrow> grant b i c = (b', Ok g) \<Longrightarrow> ok b' \<and> holders b' = add_mset i (holders b)"
    and grant_Err: "grant b i c = (b', Err e) \<Longrightarrow> b' = b"
    and revoke_one: "ok b \<Longrightarrow> ok (revoke b i) \<and> holders (revoke b i) = holders b - {#i#}"
    and grant_revoke: "i \<notin># holders b \<Longrightarrow> grant b i c = (b', Ok g) \<Longrightarrow> revoke b' i = b"
begin

text \<open>The book lists exactly the sessions of \<open>S\<close>, once each.\<close>

definition books :: "'b \<Rightarrow> nat set \<Rightarrow> bool" where
  "books b S \<longleftrightarrow> ok b \<and> finite S \<and> holders b = mset_set S"

lemma books_grant: "books b S \<Longrightarrow> i \<notin> S \<Longrightarrow> grant b i c = (b', Ok g) \<Longrightarrow> books b' (insert i S)"
  using grant_Ok [of b i c b' g] by (simp add: books_def)

lemma books_revoke: "books b S \<Longrightarrow> i \<in> S \<Longrightarrow> books (revoke b i) (S - {i})"
  using revoke_one by (simp add: books_def mset_set_Diff)

lemma books_undo: "books b S \<Longrightarrow> i \<notin> S \<Longrightarrow> grant b i c = (b', Ok g) \<Longrightarrow> revoke b' i = b"
  by (rule grant_revoke) (auto simp: books_def)

lemma books_refused: "books b S \<Longrightarrow> grant b i c = (b', Err e) \<Longrightarrow> books b' S"
  using grant_Err [of b i c b' e] by simp

end

end
