(* ===== verification/Slot_Pool_Props.thy ===== *)
theory Slot_Pool_Props
  imports Slot_Pool_Inv Serve_Interfaces
begin

text \<open>
  What the slot pool guarantees: it drives the page pool only by legal steps, so slots are isolated;
  leases go stale on release; a length is published only with the pages that hold it; the slabs of
  legacy mode are disjoint and inside the arenas.
\<close>

section \<open>Reachable slot pools\<close>

lemma kv_open_tables: "pool_step\<^sup>*\<^sup>* s (s\<lparr>ks_tables := ks_tables s @ replicate n bt_new\<rparr>)"
proof (induction n)
  case (Suc n)
  let ?s = "s\<lparr>ks_tables := ks_tables s @ replicate n bt_new\<rparr>"
  have "pool_step ?s (?s\<lparr>ks_tables := ks_tables ?s @ [bt_new]\<rparr>)" by (rule step_open)
  also have "?s\<lparr>ks_tables := ks_tables ?s @ [bt_new]\<rparr> = s\<lparr>ks_tables := ks_tables s @ replicate (Suc n) bt_new\<rparr>"
    by (simp flip: replicate_append_same)
  finally show ?case using Suc.IH by (rule rtranclp.rtrancl_into_rtrancl [rotated])
qed simp

lemma new_paged_start:
  assumes "sp_new_paged_with_strides env n cap k v np = Ok sp"
  shows "sp_wf sp" "sp_page_pool sp \<noteq> None" "kv_reachable np k v (kv_of sp [])"
proof -
  have sp: "sp_page_pool sp = Some (with_checked_metadata np k v)" "sp_block_tables sp = replicate n None"
    "sp_descs sp = replicate n empty_desc" "sp_in_use sp = replicate n False"
    "sp_block_tables_dirty sp = replicate n False" "sp_slot_generations sp = replicate n 0"
    using assms
    by (auto simp: sp_new_paged_with_strides_def pool_new_with_strides_def Let_def
        split: if_splits sum.splits pool_error.splits)
  show "sp_wf sp" "sp_page_pool sp \<noteq> None" by (simp_all add: sp_wf_def sp)
  have "kv_of sp [] = (kv_init np k v)\<lparr>ks_tables := ks_tables (kv_init np k v) @ replicate n bt_new\<rparr>"
    by (simp add: kv_of_def sp kv_init_def)
  then show "kv_reachable np k v (kv_of sp [])" unfolding kv_reachable_def using kv_open_tables by metis
qed

definition slot_reachable :: "host_env \<Rightarrow> nat \<Rightarrow> nat \<Rightarrow> nat \<Rightarrow> nat \<Rightarrow> nat \<Rightarrow> slot_pool \<Rightarrow> cow_plan list \<Rightarrow> bool" where
  "slot_reachable env n cap k v np sp plans \<longleftrightarrow>
     (\<exists>sp0. sp_new_paged_with_strides env n cap k v np = Ok sp0 \<and> slot_step\<^sup>*\<^sup>* (sp0, []) (sp, plans))"

lemma slot_steps_sim:
  assumes "slot_step\<^sup>*\<^sup>* (sp, plans) (sp', plans')" "sp_wf sp" "sp_page_pool sp \<noteq> None"
  shows "sim sp plans sp' plans'"
  using assms(1)
proof (induction "(sp', plans')" arbitrary: sp' plans' rule: rtranclp_induct)
  case base
  then show ?case using assms sim_refl by simp
next
  case (step y)
  obtain sp1 pl1 where y: "y = (sp1, pl1)" by fastforce
  from step(3) [OF y] have s1: "sim sp plans sp1 pl1" .
  then obtain pool where "sp_wf sp1" "sp_page_pool sp1 = Some pool" by (auto simp: sim_def)
  then have "sim sp1 pl1 sp' plans'" using slot_step_sim step(2) y by blast
  then show ?case using sim_trans s1 by blast
qed

lemma slot_reachable_kv:
  assumes "slot_reachable env n cap k v np sp plans"
  shows "sp_wf sp" "sp_page_pool sp \<noteq> None" "kv_reachable np k v (kv_of sp plans)"
proof -
  from assms obtain sp0 where 0: "sp_new_paged_with_strides env n cap k v np = Ok sp0"
    and st: "slot_step\<^sup>*\<^sup>* (sp0, []) (sp, plans)" by (auto simp: slot_reachable_def)
  note S = new_paged_start [OF 0]
  from slot_steps_sim [OF st S(1,2)] S(3) show "sp_wf sp" "sp_page_pool sp \<noteq> None"
    "kv_reachable np k v (kv_of sp plans)"
    by (auto simp: sim_def kv_reachable_def intro: rtranclp_trans)
qed

section \<open>A concrete slot pool\<close>

definition demo_env :: host_env where
  "demo_env = \<lparr>he_guard = False, he_uma = False, he_host_available = None, he_mem_available = None\<rparr>"

declare empty_desc_def [run] put_seq_len_def [run] reset_table_def [run] sp_reset_def [run] sp_acquire_def [run]
  sp_release_def [run] check_seq_len_def [run] provision_pages_for_def [run] publish_seq_len_def [run]
  set_seq_len_def [run] sp_block_table_def [run] finish_share_def [run] sp_share_prefix_def [run]
  share_published_pages_def [run] plan_cow_for_slot_def [run] commit_cow_for_slot_def [run]
  slot_generation_def [run] acquire_leased_def [run] validate_generation_def [run] release_leased_def [run]
  sp_new_with_strides_def [run] sp_new_paged_with_strides_def [run] pool_new_with_strides_def [run]
  checked_arena_bytes_def [run] preflight_alloc_def [run] preflight_checks_def [run] R9700_VRAM_BYTES_def [run]
  demo_env_def [run]

text \<open>Two slots over four pages: the first holds 200 tokens, the second shares its first page.\<close>

definition demo_slots :: slot_pool where
  "demo_slots =
     (let sp0 = projr (sp_new_paged_with_strides demo_env 2 256 1 1 4);
          sp1 = fst (sp_acquire sp0); sp2 = fst (sp_acquire sp1);
          sp3 = fst (set_seq_len sp2 0 200)
      in fst (sp_share_prefix sp3 0 1 1))"

lemma demo_slots_tables:
  "map (map_option bt_pages) (sp_block_tables demo_slots) = [Some [0, 1], Some [0]]"
  "map kd_seq_len (sp_descs demo_slots) = [200, 128]" "sp_in_use demo_slots = [True, True]"
  "sp_slot_generations demo_slots = [0, 0]" "sp_cap_tokens demo_slots = 256"
  "map_option pp_free_pages (sp_page_pool demo_slots) = Some [3, 2]"
  by (simp_all add: demo_slots_def run)

lemma demo_slots_reachable: "slot_reachable demo_env 2 256 1 1 4 demo_slots []"
proof -
  obtain sp0 where e: "sp_new_paged_with_strides demo_env 2 256 1 1 4 = Ok sp0" by (simp add: run)
  let ?sp1 = "fst (sp_acquire sp0)"
  let ?sp2 = "fst (sp_acquire ?sp1)"
  let ?sp3 = "fst (set_seq_len ?sp2 0 200)"
  have d: "demo_slots = fst (sp_share_prefix ?sp3 0 1 1)" unfolding demo_slots_def Let_def e by simp
  have "slot_step (sp0, []) (?sp1, [])" by (rule ss_acquire [where got = "snd (sp_acquire sp0)"]) simp
  moreover have "slot_step (?sp1, []) (?sp2, [])"
    by (rule ss_acquire [where got = "snd (sp_acquire ?sp1)"]) simp
  moreover have "slot_step (?sp2, []) (?sp3, [])"
    by (rule ss_set_seq_len [where r = "snd (set_seq_len ?sp2 0 200)"]) simp
  moreover have "slot_step (?sp3, []) (demo_slots, [])"
    by (rule ss_share [where i = 0 and j = 1 and n = 1 and r = "snd (sp_share_prefix ?sp3 0 1 1)"]) (simp_all add: d)
  ultimately show ?thesis unfolding slot_reachable_def
    using e by (meson rtranclp.rtrancl_into_rtrancl rtranclp.rtrancl_refl)
qed

section \<open>Isolation\<close>

text \<open>
  C3: A slot pool built by \<^verbatim>\<open>new_paged_with_strides\<close> and used through its methods is always in a state its
  page pool can reach by its own protocol with one block table per slot: the slot pool refines the
  page pool, errors and refused calls included.
\<close>

theorem slot_pool_refines_page_pool:
  assumes "slot_reachable env n cap k v np sp plans"
  shows "sp_wf sp \<and> kv_reachable np k v (kv_of sp plans)"
  using slot_reachable_kv [OF assms] by simp

theorem slot_pool_refines_page_pool_witness:
  "sp_wf demo_slots \<and> kv_reachable 4 1 1 (kv_of demo_slots [])"
  using slot_pool_refines_page_pool [OF demo_slots_reachable] .

text \<open>
  C4: Slots are isolated. A page in the tables of two different slots is sealed or held by the cache,
  and no plan will let either slot write it in place: every write interval over it copies it first.
\<close>

theorem slot_pages_isolated:
  assumes r: "slot_reachable env n cap k v np sp plans" and ij: "i \<noteq> j"
    and t: "sp_block_table sp i = Some ti" "sp_block_table sp j = Some tj"
    and lp: "lp < num_pages ti" and q: "bt_pages ti ! lp \<in> set (bt_pages tj)"
    and w: "ws \<le> lp * PAGE_TOKENS + o'" "lp * PAGE_TOKENS + o' < we" "o' < PAGE_TOKENS"
    and pl: "plan_cow_for_slot sp i ws we = (sp', Ok plan)"
  shows "lp \<in> set (map cc_logical_page (cp_copies plan))"
proof -
  note R = slot_reachable_kv [OF r]
  from R(2) obtain pool where p: "sp_page_pool sp = Some pool" by auto
  let ?s = "kv_of sp plans" and ?q = "bt_pages ti ! lp"
  note inv = kv_inv_pool [OF kv_reachable_inv [OF R(3)]]
  note ti = t(1) [unfolded sp_block_table_Some] and tj = t(2) [unfolded sp_block_table_Some]
  have i: "i < length (ks_tables ?s)" and tab: "ks_tables ?s ! i = ti" using ti by simp_all
  obtain Rm where Rm: "owners ?s = Rm + mset (bt_pages ti)"
    "\<And>j. j < length (ks_tables ?s) \<Longrightarrow> j \<noteq> i \<Longrightarrow> set (bt_pages (ks_tables ?s ! j)) \<subseteq> set_mset Rm"
    using kv_inv_split [OF i] tab by metis
  have "?q \<in># Rm" "?q \<in># mset (bt_pages ti)"
    using Rm(2) [of j] tj ij q lp by (auto simp: num_pages_def)
  then have "0 < count Rm ?q" "0 < count (mset (bt_pages ti)) ?q" by (simp_all only: count_greater_zero_iff)
  then have two: "count (owners ?s) ?q \<ge> 2" unfolding Rm(1) count_union by linarith
  then have qm: "?q \<in># owners ?s" by (metis count_eq_zero_iff not_numeral_le_zero)
  note live = pool_inv_live [OF inv qm]
  have "cow_needed pool ti lp"
    using live pool_inv_page_ok [OF inv live(1)] pool_inv_count [OF inv live(1)] two lp p
    by (cases "pm_state (meta pool ?q)") (auto simp: cow_needed_def page_ok_defs)
  moreover obtain pool' where pc: "plan_cow pool ti ws we = (pool', Ok plan)"
    using pl p t(1) by (auto simp: plan_cow_for_slot_def split: prod.splits sum.splits)
  have own: "set (bt_pages ti) \<subseteq> set_mset (owners ?s)" unfolding Rm(1) by auto
  have "ws div PAGE_TOKENS \<le> lp" using w by (simp add: div_le_mono less_mult_imp_div_less PAGE_TOKENS_def)
  then have "lp \<in> set (write_pages ws we)" using w by (subst write_pages_iff) auto
  ultimately show ?thesis using plan_cow_OkD(2) [OF _ own pc] inv p by simp
qed

theorem slot_pages_isolated_witness:
  "case plan_cow_for_slot demo_slots 1 0 10 of
     (sp', Inr plan) \<Rightarrow> 0 \<in> set (map cc_logical_page (cp_copies plan))
   | _ \<Rightarrow> False"
proof -
  obtain sp' plan where pl: "plan_cow_for_slot demo_slots 1 0 10 = (sp', Ok plan)"
    by (simp add: demo_slots_def run)
  obtain t0 t1 where t: "sp_block_table demo_slots 0 = Some t0" "sp_block_table demo_slots 1 = Some t1"
    "bt_pages t0 = [0, 1]" "bt_pages t1 = [0]"
    by (simp add: demo_slots_def run)
  have "0 \<in> set (map cc_logical_page (cp_copies plan))"
    by (rule slot_pages_isolated [OF demo_slots_reachable _ t(2,1) _ _ _ _ _ pl, where o' = 0])
      (use t in \<open>simp_all add: num_pages_def PAGE_TOKENS_def\<close>)
  then show ?thesis using pl by simp
qed

section \<open>Leases\<close>

lemma sp_reset_sel:
  assumes "sp_reset sp i = (sp', r)"
  shows "sp_in_use sp' = sp_in_use sp" "sp_slot_generations sp' = sp_slot_generations sp"
    "length (sp_descs sp') = length (sp_descs sp)" "r = (if i < length (sp_descs sp) then Ok () else Err SlotPanic)"
  using assms
  by (auto simp: sp_reset_def reset_table_def Let_def split: if_splits option.splits prod.splits)

lemma sp_acquire_sel:
  assumes "sp_wf sp" "sp_acquire sp = (sp', Some i)"
  shows "i < length (sp_descs sp)" "sp_in_use sp' = (sp_in_use sp)[i := True]"
    "sp_slot_generations sp' = sp_slot_generations sp" "\<not> sp_in_use sp ! i"
    "length (sp_descs sp') = length (sp_descs sp)"
proof -
  have pos: "position (\<lambda>u. \<not> u) (sp_in_use sp) = Some i"
    using assms(2) by (auto simp: sp_acquire_def Let_def split: option.splits)
  then show "i < length (sp_descs sp)" "\<not> sp_in_use sp ! i"
    using sp_wf_lengths(1) [OF assms(1)] by (simp_all add: position_Some)
  obtain sp1 r where e: "sp_reset (sp\<lparr>sp_in_use := (sp_in_use sp)[i := True]\<rparr>) i = (sp1, r)" by fastforce
  show "sp_in_use sp' = (sp_in_use sp)[i := True]" "sp_slot_generations sp' = sp_slot_generations sp"
    "length (sp_descs sp') = length (sp_descs sp)"
    using assms(2) pos sp_reset_sel [OF e] e by (auto simp: sp_acquire_def Let_def split: option.splits)
qed

lemma sp_release_sel:
  assumes "sp_release sp i = (sp', r)" "i < length (sp_descs sp)"
  shows "sp_in_use sp' = (sp_in_use sp)[i := False]" "r = Ok ()"
    "sp_slot_generations sp' = (sp_slot_generations sp)[i := sp_slot_generations sp ! i + 1]"
proof -
  obtain sp1 r1 where e: "sp_reset sp i = (sp1, r1)" by fastforce
  show "sp_in_use sp' = (sp_in_use sp)[i := False]" "r = Ok ()"
    "sp_slot_generations sp' = (sp_slot_generations sp)[i := sp_slot_generations sp ! i + 1]"
    using assms sp_reset_sel [OF e] e by (auto simp: sp_release_def Let_def split: option.splits)
qed

lemma sp_acquire_generations: "sp_acquire sp = (sp', got) \<Longrightarrow> sp_slot_generations sp' = sp_slot_generations sp"
  by (auto simp: sp_acquire_def sp_reset_def reset_table_def Let_def split: option.splits prod.splits if_splits)

text \<open>
  A lease is valid when it is handed out. Once it has been used to release its slot it is refused
  by every leased operation, which then changes nothing, also after the slot has been handed to the
  next session.
\<close>

theorem released_lease_refused:
  assumes wf: "sp_wf sp" and a: "acquire_leased sp = (sp1, Some l)"
    and rl: "release_leased sp1 l = (sp2, r)" and a2: "acquire_leased sp2 = (sp3, l')"
    and x: "x \<in> {sp2, sp3}"
  shows "validate_generation sp1 l = Ok () \<and> r = Ok ()
    \<and> \<not> is_ok (snd (release_leased x l)) \<and> fst (release_leased x l) = x
    \<and> \<not> is_ok (snd (set_seq_len_leased x l n)) \<and> fst (set_seq_len_leased x l n) = x
    \<and> \<not> is_ok (snd (share_prefix_leased x l dst m)) \<and> fst (share_prefix_leased x l dst m) = x
    \<and> \<not> is_ok (snd (share_prefix_leased x src l m)) \<and> fst (share_prefix_leased x src l m) = x"
proof -
  obtain i where a1: "sp_acquire sp = (sp1, Some i)" and l: "l = \<lparr>sl_id = i, sl_generation = slot_generation sp1 i\<rparr>"
    using a by (auto simp: acquire_leased_def split: prod.splits option.splits)
  note A = sp_acquire_sel [OF wf a1] and L = sp_wf_lengths [OF wf]
  have v1: "validate_generation sp1 l = Ok ()" using A L by (simp add: validate_generation_def l)
  then have "sp_release sp1 i = (sp2, r)" using rl by (simp add: release_leased_def l)
  from sp_release_sel [OF this] A have R: "r = Ok ()"
    "sp_slot_generations sp2 = (sp_slot_generations sp)[i := sp_slot_generations sp ! i + 1]"
    by simp_all
  have "sp_slot_generations sp3 = sp_slot_generations sp2"
    using a2 sp_acquire_generations [of sp2] by (auto simp: acquire_leased_def split: prod.splits option.splits)
  then have "slot_generation x i = slot_generation sp1 i + 1"
    using x R(2) A L by (auto simp: slot_generation_def vec_get_def)
  then have "\<exists>e. validate_generation x l = Err e" by (simp add: validate_generation_def l)
  then obtain e where "validate_generation x l = Err e" ..
  then show ?thesis
    using v1 R(1)
    by (simp add: release_leased_def set_seq_len_leased_def share_prefix_leased_def split: sum.split)
qed

theorem released_lease_refused_witness:
  "\<exists>sp1 l sp2. acquire_leased (fst (sp_release demo_slots 0)) = (sp1, Some l) \<and> sl_id l = 0
     \<and> release_leased sp1 l = (sp2, Ok ()) \<and> \<not> is_ok (snd (set_seq_len_leased (fst (acquire_leased sp2)) l 5))"
proof -
  let ?sp = "fst (sp_release demo_slots 0)"
  have wf: "sp_wf demo_slots" "sp_page_pool demo_slots \<noteq> None"
    using slot_reachable_kv [OF demo_slots_reachable] by simp_all
  then obtain pool where "sp_page_pool demo_slots = Some pool" by auto
  with sim_release [OF wf(1), of pool 0 ?sp "snd (sp_release demo_slots 0)"] have w: "sp_wf ?sp"
    by (simp add: sim_def)
  have "\<exists>sp1 l. acquire_leased ?sp = (sp1, Some l) \<and> sl_id l = 0" by (simp add: demo_slots_def run)
  then obtain sp1 l where a: "acquire_leased ?sp = (sp1, Some l)" "sl_id l = 0" by blast
  obtain sp2 r where rl: "release_leased sp1 l = (sp2, r)" by fastforce
  obtain sp3 l' where a2: "acquire_leased sp2 = (sp3, l')" by fastforce
  from released_lease_refused [OF w a(1) rl a2, of sp3 5] a rl a2 show ?thesis by auto
qed

section \<open>Lengths\<close>

lemma ensure_capacity_cases:
  assumes inv: "pool_inv p M" and e: "ensure_capacity p t n = (p', t', r)"
  shows "(r \<noteq> Err Panic) \<and> (\<not> is_ok r \<longrightarrow> p' = p \<and> t' = t)
    \<and> (is_ok r \<longrightarrow> (\<exists>pages. bt_pages t' = bt_pages t @ pages) \<and> bt_live_tokens t' = n \<and> n \<le> num_pages t' * PAGE_TOKENS)"
proof (cases "div_ceil n PAGE_TOKENS \<le> num_pages t + length (pp_free_pages p)")
  case True
  show ?thesis
  proof (rule ensure_capacity_Ok [OF inv True])
    fix p1 pages
    assume *: "ensure_capacity p t n = (p1, t\<lparr>bt_pages := bt_pages t @ pages, bt_live_tokens := n\<rparr>, Ok (length pages))"
      "length pages = div_ceil n PAGE_TOKENS - num_pages t"
    then have "div_ceil n PAGE_TOKENS \<le> num_pages t + length pages" by simp
    then have "n \<le> (num_pages t + length pages) * PAGE_TOKENS" by (simp add: div_ceil_le_iff)
    then show ?thesis using * e by (auto simp: num_pages_def)
  qed
next
  case False
  then show ?thesis using ensure_capacity_Err [of t p n] e by auto
qed

text \<open>
  C23: Setting the length of a slot either does nothing and reports why, or publishes exactly that
  length, within the capacity, over a table that extends the old one and has the pages to hold it. No
  other slot's table or descriptor changes.
\<close>

theorem set_seq_len_spec:
  assumes re: "slot_reachable env n cap k v np sp plans" and i: "i < length (sp_descs sp)"
    and e: "set_seq_len sp i len = (sp', r)"
  shows "case r of
      Inl _ \<Rightarrow> sp' = sp
    | Inr _ \<Rightarrow> len \<le> sp_cap_tokens sp \<and> kd_seq_len (sp_descs sp' ! i) = int len
        \<and> (\<exists>t t'. sp_block_table sp i = Some t \<and> sp_block_table sp' i = Some t'
             \<and> take (num_pages t) (bt_pages t') = bt_pages t
             \<and> bt_live_tokens t' = len \<and> len \<le> num_pages t' * PAGE_TOKENS)
        \<and> (\<forall>j. j \<noteq> i \<longrightarrow> sp_block_table sp' j = sp_block_table sp j \<and> sp_descs sp' ! j = sp_descs sp ! j)"
proof -
  note R = slot_reachable_kv [OF re]
  from R(2) obtain pool where p: "sp_page_pool sp = Some pool" by auto
  have inv: "pool_inv pool (owners (kv_of sp plans))"
    using kv_inv_pool [OF kv_reachable_inv [OF R(3)]] p by simp
  note L = sp_wf_lengths [OF R(1)]
  consider (bad) e' where "check_seq_len sp len = Err e'" | (none) "check_seq_len sp len = Ok ()" "sp_block_tables sp ! i = None"
    | (some) t where "check_seq_len sp len = Ok ()" "sp_block_tables sp ! i = Some t"
    by (cases "check_seq_len sp len"; cases "sp_block_tables sp ! i") auto
  then show ?thesis
  proof cases
    case bad
    then have "r = Err e'" "sp' = sp" using e by (simp_all add: set_seq_len_def provision_pages_for_def)
    then show ?thesis by simp
  next
    case none
    then show ?thesis using e p i L by (auto simp: set_seq_len_def provision_pages_for_def)
  next
    case (some t)
    then have len: "len \<le> sp_cap_tokens sp" "len \<le> i32_max" by (auto simp: check_seq_len_def split: if_splits)
    obtain p' t' r' where ec: "ensure_capacity pool t len = (p', t', r')" by (metis prod_cases3)
    note E = ensure_capacity_cases [OF inv ec]
    show ?thesis
    proof (cases r')
      case (Inl er)
      then have "p' = pool" "t' = t" using E by simp_all
      moreover have "(sp_block_tables sp)[i := Some t] = sp_block_tables sp"
        using some(2) by (metis list_update_id)
      ultimately show ?thesis
        using e ec p i some Inl L by (auto simp: set_seq_len_def provision_pages_for_def)
    next
      case (Inr m)
      let ?sp1 = "sp\<lparr>sp_page_pool := Some p', sp_block_tables := (sp_block_tables sp)[i := Some t'],
                     sp_block_tables_dirty := (sp_block_tables_dirty sp)[i := True]\<rparr>"
      have r: "r = Ok ()" and sp': "sp' = put_seq_len ?sp1 i (int len)"
        using e ec p i some Inr L len by (auto simp: set_seq_len_def provision_pages_for_def)
      have "sp_block_table sp' j = (if j = i then Some t' else sp_block_table sp j)" for j
        using i L by (simp add: sp' sp_block_table_def vec_get_def nth_list_update)
      moreover have "sp_descs sp' ! j = (if j = i then (sp_descs sp ! i)\<lparr>kd_seq_len := int len\<rparr> else sp_descs sp ! j)" for j
        using i by (auto simp: sp' put_seq_len_def)
      moreover have "sp_block_table sp i = Some t" using some(2) i L by (simp add: sp_block_table_Some)
      ultimately show ?thesis using E Inr r len by (auto simp: num_pages_def)
    qed
  qed
qed

theorem set_seq_len_spec_witness:
  "case set_seq_len demo_slots 1 250 of
     (sp', Inr _) \<Rightarrow> kd_seq_len (sp_descs sp' ! 1) = 250 \<and> sp_block_table sp' 0 = sp_block_table demo_slots 0
   | (sp', Inl _) \<Rightarrow> False"
proof -
  obtain sp' where e: "set_seq_len demo_slots 1 250 = (sp', Ok ())" by (simp add: demo_slots_def run)
  have "1 < length (sp_descs demo_slots)"
    using demo_slots_tables(2) by (metis length_map length_Cons list.size(3) one_less_numeral_iff semiring_norm(76) numeral_2_eq_2 One_nat_def)
  from set_seq_len_spec [OF demo_slots_reachable this e] e show ?thesis by simp
qed

section \<open>Legacy slabs\<close>

text \<open>
  C24: In legacy mode, when the size of a slab fits 64 bits, the slabs of different slots do not overlap
  in the K arena nor in the V arena, every slab lies inside its arena, and both arenas together stay
  within the device budget.
\<close>

theorem legacy_slabs_disjoint:
  assumes new: "sp_new_with_strides env n cap_tokens k v = Ok sp"
    and fit: "div_ceil cap_tokens PAGE_TOKENS * PAGE_TOKENS * k \<le> u64_max"
      "div_ceil cap_tokens PAGE_TOKENS * PAGE_TOKENS * v \<le> u64_max"
  shows "cap_tokens \<le> sp_cap_tokens sp
    \<and> sp_k_arena_bytes sp + sp_v_arena_bytes sp \<le> R9700_VRAM_BYTES
    \<and> (\<forall>i < n. kd_legacy_k_base (sp_descs sp ! i) + sp_cap_tokens sp * k \<le> sp_k_arena_bytes sp
             \<and> kd_legacy_v_base (sp_descs sp ! i) + sp_cap_tokens sp * v \<le> sp_v_arena_bytes sp
             \<and> (\<forall>j < i. kd_legacy_k_base (sp_descs sp ! j) + sp_cap_tokens sp * k \<le> kd_legacy_k_base (sp_descs sp ! i)
                      \<and> kd_legacy_v_base (sp_descs sp ! j) + sp_cap_tokens sp * v \<le> kd_legacy_v_base (sp_descs sp ! i)))"
proof -
  let ?cap = "div_ceil cap_tokens PAGE_TOKENS * PAGE_TOKENS"
  have kv: "0 < k" "0 < v" using new by (auto simp: sp_new_with_strides_def split: if_splits)
  have "?cap * 1 \<le> ?cap * k" using kv by (intro mult_le_mono) auto
  then have cap: "?cap \<le> u64_max" using fit(1) by linarith
  have sp: "sp_cap_tokens sp = ?cap" "sp_page_pool sp = None" "length (sp_descs sp) = n"
    "sp_k_per_pos_bytes sp = k" "sp_v_per_pos_bytes sp = v"
    and base: "\<And>i. i < n \<Longrightarrow> kd_legacy_k_base (sp_descs sp ! i) = i * (?cap * k)"
      "\<And>i. i < n \<Longrightarrow> kd_legacy_v_base (sp_descs sp ! i) = i * (?cap * v)"
    and bud: "(?cap * k + ?cap * v) * n \<le> R9700_VRAM_BYTES"
    using new fit cap
    by (auto simp: sp_new_with_strides_def Let_def checked_Some dest!: preflight_alloc_Ok_budget
        split: if_splits option.splits sum.splits)
  have slab: "j * s + s \<le> i * s" if "j < i" for i j s :: nat
    using that mult_le_mono1 [of "j + 1" i s] by simp
  have arena: "sp_k_arena_bytes sp = n * (?cap * k)" "sp_v_arena_bytes sp = n * (?cap * v)"
    by (simp_all add: sp_k_arena_bytes_def sp_v_arena_bytes_def sp mult.assoc)
  have "n * (?cap * k) + n * (?cap * v) \<le> R9700_VRAM_BYTES"
    using bud by (simp add: distrib_left mult.commute)
  then show ?thesis
    unfolding arena sp(1) using base slab div_ceil_mult_ge [of PAGE_TOKENS cap_tokens] by simp
qed

theorem legacy_slabs_disjoint_witness:
  "\<exists>sp. sp_new_with_strides demo_env 2 200 3 5 = Ok sp \<and> sp_cap_tokens sp = 256
     \<and> kd_legacy_k_base (sp_descs sp ! 0) + 256 * 3 \<le> kd_legacy_k_base (sp_descs sp ! 1)"
proof -
  have "\<exists>sp. sp_new_with_strides demo_env 2 200 3 5 = Ok sp \<and> sp_cap_tokens sp = 256"
    by (simp add: run PAGE_TOKENS_def)
  then obtain sp where sp: "sp_new_with_strides demo_env 2 200 3 5 = Ok sp" "sp_cap_tokens sp = 256" by blast
  from legacy_slabs_disjoint [OF sp(1)] sp show ?thesis
    by (auto simp: div_ceil_def PAGE_TOKENS_def u64_max_def)
qed


section \<open>The slot pool as a slot source\<close>

definition slots_in_use :: "slot_pool \<Rightarrow> nat set" where
  "slots_in_use sp = {i. i < length (sp_descs sp) \<and> sp_in_use sp ! i}"

lemma sp_acquire_wf: "sp_wf sp \<Longrightarrow> sp_acquire sp = (sp', got) \<Longrightarrow> sp_wf sp'"
proof (cases "sp_page_pool sp")
  case None
  assume "sp_wf sp" "sp_acquire sp = (sp', got)"
  then show ?thesis
    using None by (auto simp: sp_acquire_def sp_reset_def sp_wf_def Let_def position_Some nth_list_update
        split: option.splits if_splits)
next
  case (Some pool)
  assume "sp_wf sp" "sp_acquire sp = (sp', got)"
  then show ?thesis using sim_acquire Some by (auto simp: sim_def)
qed

lemma sp_release_wf: "sp_wf sp \<Longrightarrow> sp_release sp i = (sp', r) \<Longrightarrow> sp_wf sp'"
proof (cases "sp_page_pool sp")
  case None
  assume "sp_wf sp" "sp_release sp i = (sp', r)"
  then show ?thesis
    using None by (auto simp: sp_release_def sp_reset_def sp_wf_def Let_def nth_list_update split: if_splits)
next
  case (Some pool)
  assume "sp_wf sp" "sp_release sp i = (sp', r)"
  then show ?thesis using sim_release Some by (auto simp: sim_def)
qed

lemma sp_release_length: "sp_release sp i = (sp', r) \<Longrightarrow> length (sp_descs sp') = length (sp_descs sp)"
  by (auto simp: sp_release_def sp_reset_def reset_table_def Let_def split: prod.splits sum.splits option.splits if_splits)

interpretation sp: slot_source sp_acquire "\<lambda>sp i. fst (sp_release sp i)" slots_in_use sp_wf
proof unfold_locales
  fix p p' i
  assume wf: "sp_wf p" and e: "sp_acquire p = (p', Some i)"
  show "sp_wf p' \<and> i \<notin> slots_in_use p \<and> slots_in_use p' = insert i (slots_in_use p)"
    using sp_acquire_wf [OF wf e] sp_acquire_sel [OF wf e] sp_wf_lengths [OF wf]
    by (auto simp: slots_in_use_def nth_list_update)
next
  fix p p'
  assume "sp_acquire p = (p', None)"
  then show "p' = p" by (auto simp: sp_acquire_def Let_def split: option.splits)
next
  fix p i
  assume wf: "sp_wf p" and i: "i \<in> slots_in_use p"
  obtain p' r where e: "sp_release p i = (p', r)" by fastforce
  show "sp_wf (fst (sp_release p i)) \<and> slots_in_use (fst (sp_release p i)) = slots_in_use p - {i}"
    using sp_release_wf [OF wf e] sp_release_sel(1) [OF e] sp_release_length [OF e] i e sp_wf_lengths [OF wf]
    by (auto simp: slots_in_use_def nth_list_update split: if_splits)
qed

end
