(* ===== verification/Admission.thy ===== *)
theory Admission
  imports Serve_Interfaces
begin

text \<open>
  The admission controller, \<^verbatim>\<open>crates/hipfire-runtime/src/admission.rs\<close>: what a session may commit of
  the device budget and of the host tier, with the checked and saturating 64-bit arithmetic of the
  source. The invariant is that the exact commitment of every admitted state stays below the budget, so
  that no saturation ever hides a byte.
\<close>

section \<open>Data\<close>

record model_footprint =
  mf_weights_bytes :: nat
  mf_kv_bytes_per_token :: nat
  mf_pinned_host_bytes :: nat

datatype admit_error =
    PoolFull
  | WouldExceedBudget nat nat
  | UnknownSession nat

record admission_controller =
  ac_footprint :: model_footprint
  ac_budget_bytes :: nat
  ac_admitted :: "(nat \<times> nat) list"
  ac_host_budget :: nat
  ac_host_used :: nat

definition DEFAULT_HOST_BUDGET_BYTES :: nat where
  "DEFAULT_HOST_BUDGET_BYTES = 16 * 1024 * 1024 * 1024"

section \<open>Operations\<close>

definition adm_new :: "model_footprint \<Rightarrow> nat \<Rightarrow> admission_controller" where
  "adm_new footprint budget_bytes =
     \<lparr>ac_footprint = footprint, ac_budget_bytes = budget_bytes, ac_admitted = [],
      ac_host_budget = DEFAULT_HOST_BUDGET_BYTES, ac_host_used = mf_pinned_host_bytes footprint\<rparr>"

definition used_bytes :: "admission_controller \<Rightarrow> nat" where
  "used_bytes a =
     (if ac_admitted a = [] then 0
      else
        let bpt = mf_kv_bytes_per_token (ac_footprint a);
            kv = fold (\<lambda>b a. saturating_add64 a b)
                   (map (\<lambda>(_, ctx). case checked_mul64 ctx bpt of None \<Rightarrow> u64_max | Some b \<Rightarrow> b) (ac_admitted a)) 0
        in saturating_add64 (mf_weights_bytes (ac_footprint a)) kv)"

definition admit :: "admission_controller \<Rightarrow> nat \<Rightarrow> nat \<Rightarrow> admission_controller \<times> (admit_error + nat)" where
  "admit a session requested_ctx =
     (case checked_mul64 requested_ctx (mf_kv_bytes_per_token (ac_footprint a)) of
        None \<Rightarrow> (a, Err (WouldExceedBudget u64_max 0))
      | Some kv_need \<Rightarrow>
          (let weights_need = (if ac_admitted a = [] then mf_weights_bytes (ac_footprint a) else 0)
           in case checked_add64 kv_need weights_need of
                None \<Rightarrow> (a, Err (WouldExceedBudget u64_max 0))
              | Some need \<Rightarrow>
                  (let available = saturating_sub (ac_budget_bytes a) (used_bytes a)
                   in if need \<ge> available then (a, Err (WouldExceedBudget need available))
                      else (a\<lparr>ac_admitted := ac_admitted a @ [(session, requested_ctx)]\<rparr>, Ok requested_ctx))))"

text \<open>The addition to \<^verbatim>\<open>host_used\<close> is unchecked in the source.\<close>

definition admit_host :: "admission_controller \<Rightarrow> nat \<Rightarrow> admission_controller \<times> bool" where
  "admit_host a bytes =
     (if saturating_add64 (ac_host_used a) bytes > ac_host_budget a then (a, False)
      else (a\<lparr>ac_host_used := wrap64 (ac_host_used a + bytes)\<rparr>, True))"

definition release_host :: "admission_controller \<Rightarrow> nat \<Rightarrow> admission_controller" where
  "release_host a bytes = a\<lparr>ac_host_used := saturating_sub (ac_host_used a) bytes\<rparr>"

definition set_host_budget :: "admission_controller \<Rightarrow> nat \<Rightarrow> admission_controller" where
  "set_host_budget a bytes = a\<lparr>ac_host_budget := bytes\<rparr>"

definition resize :: "admission_controller \<Rightarrow> nat \<Rightarrow> nat \<Rightarrow> admission_controller \<times> (admit_error + nat)" where
  "resize a session new_ctx =
     (case position (\<lambda>(i, _). i = session) (ac_admitted a) of
        None \<Rightarrow> (a, Err (UnknownSession session))
      | Some pos \<Rightarrow>
          (let old_ctx = snd (ac_admitted a ! pos);
               bpt = mf_kv_bytes_per_token (ac_footprint a);
               old_kv = saturating_mul64 old_ctx bpt;
               new_kv = saturating_mul64 new_ctx bpt;
               delta = new_kv - old_kv;
               available = saturating_sub (ac_budget_bytes a) (used_bytes a)
           in if new_kv > old_kv \<and> delta \<ge> available then (a, Err (WouldExceedBudget delta available))
              else (a\<lparr>ac_admitted := (ac_admitted a)[pos := (fst (ac_admitted a ! pos), new_ctx)]\<rparr>, Ok new_ctx)))"

text \<open>\<^verbatim>\<open>Vec::remove\<close> at the first grant of the session.\<close>

definition adm_release :: "admission_controller \<Rightarrow> nat \<Rightarrow> admission_controller" where
  "adm_release a session =
     (case position (\<lambda>(i, _). i = session) (ac_admitted a) of
        None \<Rightarrow> a
      | Some i \<Rightarrow> a\<lparr>ac_admitted := take i (ac_admitted a) @ drop (Suc i) (ac_admitted a)\<rparr>)"

section \<open>Page bundles\<close>

fun page_bytes_from :: "nat \<Rightarrow> (nat \<times> nat) list \<Rightarrow> nat option" where
  "page_bytes_from acc [] = Some acc"
| "page_bytes_from acc ((k, v) # rest) =
     (case checked_add64 k v of
        None \<Rightarrow> None
      | Some kv \<Rightarrow>
          (case checked_mul64 128 kv of
             None \<Rightarrow> None
           | Some per_layer \<Rightarrow>
               (case checked_add64 acc per_layer of
                  None \<Rightarrow> None
                | Some acc' \<Rightarrow> page_bytes_from acc' rest)))"

definition page_bytes :: "nat list \<Rightarrow> nat list \<Rightarrow> nat option" where
  "page_bytes k_strides v_strides =
     (if length k_strides \<noteq> length v_strides then None else page_bytes_from 0 (zip k_strides v_strides))"

section \<open>The exact commitment\<close>

definition exact_kv :: "nat \<Rightarrow> (nat \<times> nat) list \<Rightarrow> nat" where
  "exact_kv bpt grants = sum_list (map (\<lambda>(_, ctx). ctx * bpt) grants)"

definition exact_used :: "admission_controller \<Rightarrow> nat" where
  "exact_used a = (if ac_admitted a = [] then 0
     else mf_weights_bytes (ac_footprint a) + exact_kv (mf_kv_bytes_per_token (ac_footprint a)) (ac_admitted a))"

text \<open>Nothing is admitted, or the exact commitment is below the budget, which is a 64-bit number.\<close>

definition adm_inv :: "admission_controller \<Rightarrow> bool" where
  "adm_inv a \<longleftrightarrow> ac_budget_bytes a \<le> u64_max \<and> (ac_admitted a \<noteq> [] \<longrightarrow> exact_used a < ac_budget_bytes a)"

lemma exact_kv_simps [simp]:
  "exact_kv bpt [] = 0" "exact_kv bpt ((i, c) # gs) = c * bpt + exact_kv bpt gs"
  "exact_kv bpt (gs @ hs) = exact_kv bpt gs + exact_kv bpt hs"
  by (simp_all add: exact_kv_def)

lemma saturating_fold:
  "acc + exact_kv bpt gs \<le> u64_max
   \<Longrightarrow> fold (\<lambda>b a. saturating_add64 a b)
         (map (\<lambda>(_, ctx). case checked_mul64 ctx bpt of None \<Rightarrow> u64_max | Some b \<Rightarrow> b) gs) acc
       = acc + exact_kv bpt gs"
proof (induction gs arbitrary: acc)
  case (Cons g gs)
  obtain i c where g: "g = (i, c)" by fastforce
  have "c * bpt \<le> u64_max" "acc + c * bpt \<le> u64_max" "acc + c * bpt + exact_kv bpt gs \<le> u64_max"
    using Cons.prems g by simp_all
  with Cons.IH [of "acc + c * bpt"] show ?case
    by (simp add: g checked_mul64_def saturating_add64_def)
qed simp

text \<open>Under the invariant the saturating computation of the source is exact.\<close>

lemma used_bytes_exact: "adm_inv a \<Longrightarrow> used_bytes a = exact_used a"
proof (cases "ac_admitted a = []")
  case True
  then show ?thesis by (simp add: used_bytes_def exact_used_def)
next
  case False
  assume "adm_inv a"
  then have "mf_weights_bytes (ac_footprint a)
      + exact_kv (mf_kv_bytes_per_token (ac_footprint a)) (ac_admitted a) \<le> u64_max"
    using False by (auto simp: adm_inv_def exact_used_def)
  then show ?thesis
    using False saturating_fold [of 0 "mf_kv_bytes_per_token (ac_footprint a)" "ac_admitted a"]
    by (simp add: used_bytes_def exact_used_def Let_def saturating_add64_def)
qed

lemma adm_inv_new: "budget \<le> u64_max \<Longrightarrow> adm_inv (adm_new f budget)"
  by (simp add: adm_inv_def adm_new_def)

lemma admit_cases:
  assumes "admit a s c = (a', r)"
  shows "case r of
      Inl _ \<Rightarrow> a' = a
    | Inr g \<Rightarrow> g = c \<and> a' = a\<lparr>ac_admitted := ac_admitted a @ [(s, c)]\<rparr>
        \<and> c * mf_kv_bytes_per_token (ac_footprint a)
            + (if ac_admitted a = [] then mf_weights_bytes (ac_footprint a) else 0)
          < ac_budget_bytes a - used_bytes a"
  using assms by (auto simp: admit_def Let_def checked_Some split: option.splits if_splits)

lemma admit_inv:
  assumes inv: "adm_inv a" and e: "admit a s c = (a', r)"
  shows "adm_inv a'"
proof (cases r)
  case (Inl er)
  then show ?thesis using admit_cases [OF e] inv by simp
next
  case (Inr g)
  with admit_cases [OF e] used_bytes_exact [OF inv] inv show ?thesis
    by (auto simp: adm_inv_def exact_used_def split: if_splits)
qed

lemma exact_kv_update:
  "i < length gs \<Longrightarrow> exact_kv bpt (gs[i := (s, c)]) + snd (gs ! i) * bpt = exact_kv bpt gs + c * bpt"
proof (induction gs arbitrary: i)
  case (Cons g gs)
  obtain s' c' where g: "g = (s', c')" by fastforce
  show ?case using Cons.IH Cons.prems by (cases i) (auto simp: g)
qed simp

lemma exact_kv_member: "i < length gs \<Longrightarrow> snd (gs ! i) * bpt \<le> exact_kv bpt gs"
  using exact_kv_update [of i gs bpt 0 0] by simp

lemma resize_cases:
  assumes inv: "adm_inv a" and e: "resize a s c = (a', r)"
  shows "case r of
      Inl _ \<Rightarrow> a' = a
    | Inr g \<Rightarrow> g = c \<and> (\<exists>i < length (ac_admitted a). fst (ac_admitted a ! i) = s
        \<and> a' = a\<lparr>ac_admitted := (ac_admitted a)[i := (s, c)]\<rparr>
        \<and> (c * mf_kv_bytes_per_token (ac_footprint a) \<le> snd (ac_admitted a ! i) * mf_kv_bytes_per_token (ac_footprint a)
           \<or> exact_used a + c * mf_kv_bytes_per_token (ac_footprint a)
              < ac_budget_bytes a + snd (ac_admitted a ! i) * mf_kv_bytes_per_token (ac_footprint a)))"
proof (cases "position (\<lambda>(i, _). i = s) (ac_admitted a)")
  case None
  then show ?thesis using e by (auto simp: resize_def)
next
  case (Some i)
  let ?b = "mf_kv_bytes_per_token (ac_footprint a)"
  let ?o = "snd (ac_admitted a ! i) * ?b"
  have i: "i < length (ac_admitted a)" "fst (ac_admitted a ! i) = s"
    using Some by (auto simp: position_Some split: prod.splits)
  then have ne: "ac_admitted a \<noteq> []" by auto
  have "?o \<le> exact_used a" using exact_kv_member [OF i(1)] ne by (simp add: exact_used_def trans_le_add2)
  moreover have "exact_used a < ac_budget_bytes a" "ac_budget_bytes a \<le> u64_max"
    using inv ne by (auto simp: adm_inv_def)
  ultimately have B: "?o \<le> exact_used a" "exact_used a < ac_budget_bytes a" "ac_budget_bytes a \<le> u64_max" by simp_all
  define N where "N = c * ?b"
  have so: "saturating_mul64 (snd (ac_admitted a ! i)) ?b = ?o" using B by (simp add: saturating_mul64_def)
  have sn: "saturating_mul64 c ?b = min N u64_max" by (simp add: saturating_mul64_def N_def)
  show ?thesis
  proof (cases "min N u64_max > ?o \<and> min N u64_max - ?o \<ge> ac_budget_bytes a - exact_used a")
    case True
    then show ?thesis using e Some i so sn used_bytes_exact [OF inv] by (auto simp: resize_def Let_def)
  next
    case False
    then have "N \<le> ?o \<or> exact_used a + N < ac_budget_bytes a + ?o" using B by linarith
    moreover have "r = Ok c" "a' = a\<lparr>ac_admitted := (ac_admitted a)[i := (s, c)]\<rparr>"
      using False e Some i so sn used_bytes_exact [OF inv] by (auto simp: resize_def Let_def)
    ultimately show ?thesis using i unfolding N_def by auto
  qed
qed

lemma resize_inv:
  assumes inv: "adm_inv a" and e: "resize a s c = (a', r)"
  shows "adm_inv a'"
proof (cases r)
  case (Inl er)
  then show ?thesis using resize_cases [OF inv e] inv by simp
next
  case (Inr g)
  let ?b = "mf_kv_bytes_per_token (ac_footprint a)"
  from Inr resize_cases [OF inv e] obtain i where i: "i < length (ac_admitted a)"
    and a': "a' = a\<lparr>ac_admitted := (ac_admitted a)[i := (s, c)]\<rparr>"
    and le: "c * ?b \<le> snd (ac_admitted a ! i) * ?b
      \<or> exact_used a + c * ?b < ac_budget_bytes a + snd (ac_admitted a ! i) * ?b"
    by auto
  have ne: "ac_admitted a \<noteq> []" using i by auto
  then have B: "exact_used a < ac_budget_bytes a" "ac_budget_bytes a \<le> u64_max"
    using inv by (auto simp: adm_inv_def)
  have "exact_used a' + snd (ac_admitted a ! i) * ?b = exact_used a + c * ?b"
    using exact_kv_update [OF i, of ?b s c] ne by (simp add: exact_used_def a')
  then have "exact_used a' < ac_budget_bytes a" using le B by linarith
  then show ?thesis using B by (simp add: adm_inv_def a')
qed

lemma adm_release_list:
  "ac_admitted (adm_release a s) = (case position (\<lambda>(i, _). i = s) (ac_admitted a) of
     None \<Rightarrow> ac_admitted a | Some i \<Rightarrow> take i (ac_admitted a) @ drop (Suc i) (ac_admitted a))"
  "ac_footprint (adm_release a s) = ac_footprint a" "ac_budget_bytes (adm_release a s) = ac_budget_bytes a"
  by (auto simp: adm_release_def split: option.splits)

lemma adm_release_inv:
  assumes inv: "adm_inv a"
  shows "adm_inv (adm_release a s)"
proof (cases "position (\<lambda>(i, _). i = s) (ac_admitted a)")
  case None
  then show ?thesis using inv by (simp add: adm_release_def)
next
  case (Some i)
  let ?gs = "ac_admitted a" and ?b = "mf_kv_bytes_per_token (ac_footprint a)"
  have i: "i < length ?gs" using Some by (simp add: position_Some)
  obtain s' c' where g: "?gs ! i = (s', c')" by fastforce
  have "?gs = take i ?gs @ (s', c') # drop (Suc i) ?gs" using id_take_nth_drop [OF i] g by simp
  from arg_cong [OF this, of "exact_kv ?b"]
  have "exact_kv ?b ?gs = exact_kv ?b (take i ?gs) + (c' * ?b + exact_kv ?b (drop (Suc i) ?gs))"
    by (simp only: exact_kv_simps)
  moreover have "?gs \<noteq> []" using i by auto
  ultimately show ?thesis
    using inv by (auto simp: adm_inv_def adm_release_def Some exact_used_def)
qed

section \<open>The controller as a grant book\<close>

lemma mset_remove_nth:
  assumes "i < length xs"
  shows "mset (take i xs @ drop (Suc i) xs) = mset xs - {#xs ! i#}"
  using arg_cong [OF id_take_nth_drop [OF assms], of mset] by simp

definition adm_holders :: "admission_controller \<Rightarrow> nat multiset" where
  "adm_holders a = mset (map fst (ac_admitted a))"

lemma adm_release_holders: "adm_holders (adm_release a s) = adm_holders a - {#s#}"
proof (cases "position (\<lambda>(i, _). i = s) (ac_admitted a)")
  case None
  then have "s \<notin># mset (map fst (ac_admitted a))" by (auto simp: position_None)
  then show ?thesis using None by (simp add: adm_holders_def adm_release_def diff_single_trivial)
next
  case (Some i)
  then have i: "i < length (ac_admitted a)" "fst (ac_admitted a ! i) = s"
    by (auto simp: position_Some split: prod.splits)
  from mset_remove_nth [of i "map fst (ac_admitted a)"] i Some show ?thesis
    by (simp add: adm_holders_def adm_release_def take_map drop_map)
qed

lemma adm_release_undo:
  assumes "s \<notin> fst ` set (ac_admitted a)"
  shows "adm_release (a\<lparr>ac_admitted := ac_admitted a @ [(s, c)]\<rparr>) s = a"
proof -
  have "position (\<lambda>(i, _). i = s) (ac_admitted a @ [(s, c)]) = Some (length (ac_admitted a))"
    using assms by (auto simp: position_Some nth_append split: prod.splits) (metis fst_conv image_eqI nth_mem)
  then show ?thesis by (simp add: adm_release_def)
qed

interpretation adm: grant_book admit adm_release adm_holders adm_inv
proof unfold_locales
  fix b i c b' g
  assume "adm_inv b" "admit b i c = (b', Ok g)"
  then show "adm_inv b' \<and> adm_holders b' = add_mset i (adm_holders b)"
    using admit_inv admit_cases [of b i c b' "Ok g"] by (auto simp: adm_holders_def)
next
  fix b i c b' e
  assume "admit b i c = (b', Err e)"
  then show "b' = b" using admit_cases [of b i c b' "Err e"] by simp
next
  fix b i
  assume "adm_inv b"
  then show "adm_inv (adm_release b i) \<and> adm_holders (adm_release b i) = adm_holders b - {#i#}"
    using adm_release_inv adm_release_holders by simp
next
  fix i b c b' g
  assume "i \<notin># adm_holders b" "admit b i c = (b', Ok g)"
  then show "adm_release b' i = b"
    using admit_cases [of b i c b' "Ok g"] adm_release_undo by (auto simp: adm_holders_def)
qed

section \<open>The controller over time\<close>

inductive adm_step :: "admission_controller \<Rightarrow> admission_controller \<Rightarrow> bool" where
  "admit a s c = (a', r) \<Longrightarrow> adm_step a a'"
| "resize a s c = (a', r) \<Longrightarrow> adm_step a a'"
| "adm_step a (adm_release a s)"
| "admit_host a b = (a', g) \<Longrightarrow> adm_step a a'"
| "adm_step a (release_host a b)"
| "adm_step a (set_host_budget a b)"

lemma adm_host_inv:
  "adm_inv (fst (admit_host a b)) \<longleftrightarrow> adm_inv a" "adm_inv (release_host a b) \<longleftrightarrow> adm_inv a"
  "adm_inv (set_host_budget a b) \<longleftrightarrow> adm_inv a"
  by (auto simp: admit_host_def release_host_def set_host_budget_def adm_inv_def exact_used_def)

lemma adm_step_inv: "adm_step a a' \<Longrightarrow> adm_inv a \<Longrightarrow> adm_inv a'"
proof (induction rule: adm_step.induct)
  case (1 a s c a' r)
  then show ?case using admit_inv by blast
next
  case (2 a s c a' r)
  then show ?case using resize_inv by blast
next
  case (4 a b a' g)
  then show ?case using adm_host_inv(1) [of a b] by simp
qed (simp_all add: adm_release_inv adm_host_inv)

lemma adm_step_budget: "adm_step a a' \<Longrightarrow> ac_budget_bytes a' = ac_budget_bytes a"
proof (induction rule: adm_step.induct)
  case (1 a s c a' r)
  then show ?case using admit_cases [of a s c a' r] by (cases r) auto
next
  case (2 a s c a' r)
  then show ?case by (auto simp: resize_def Let_def split: option.splits if_splits)
qed (auto simp: adm_release_def admit_host_def release_host_def set_host_budget_def split: option.splits if_splits)

text \<open>
  C22: Whatever is admitted, resized and released, in any order, the memory committed by the admitted
  sessions, the weights once and each session's context, computed exactly, stays strictly below the
  device budget, and the saturating 64-bit sum of the source equals it.
\<close>

theorem admission_within_budget:
  assumes "budget \<le> u64_max" "adm_step\<^sup>*\<^sup>* (adm_new f budget) a" "ac_admitted a \<noteq> []"
  shows "mf_weights_bytes (ac_footprint a)
           + exact_kv (mf_kv_bytes_per_token (ac_footprint a)) (ac_admitted a) < budget
         \<and> used_bytes a = mf_weights_bytes (ac_footprint a)
             + exact_kv (mf_kv_bytes_per_token (ac_footprint a)) (ac_admitted a)"
proof -
  have "adm_inv a \<and> ac_budget_bytes a = budget"
    using assms(2)
    by (induction rule: rtranclp_induct)
      (use assms(1) adm_inv_new [of budget f] in \<open>auto simp: adm_step_inv adm_step_budget, simp add: adm_new_def\<close>)
  then show ?thesis using assms(3) used_bytes_exact by (auto simp: adm_inv_def exact_used_def)
qed

theorem admission_within_budget_witness:
  "used_bytes (fst (admit (adm_new \<lparr>mf_weights_bytes = 10, mf_kv_bytes_per_token = 3, mf_pinned_host_bytes = 0\<rparr> 100) 7 20))
     = 70"
proof -
  let ?f = "\<lparr>mf_weights_bytes = 10, mf_kv_bytes_per_token = 3, mf_pinned_host_bytes = 0\<rparr>"
  let ?a = "fst (admit (adm_new ?f 100) 7 20)"
  have "adm_step (adm_new ?f 100) ?a"
    by (rule adm_step.intros(1) [of _ 7 20 _ "snd (admit (adm_new ?f 100) 7 20)"]) simp
  then have "adm_step\<^sup>*\<^sup>* (adm_new ?f 100) ?a" by blast
  moreover have ad: "ac_admitted ?a = [(7, 20)]" "ac_footprint ?a = ?f"
    by (simp_all add: admit_def adm_new_def used_bytes_def run)
  ultimately show ?thesis
    using admission_within_budget [of 100 ?f ?a] by (simp add: u64_max_def)
qed

text \<open>
  A grant in the host tier is refused exactly when it would pass the host budget; an accepted one
  is charged in full, and releasing it gives the same amount back.
\<close>

theorem host_tier_accounting:
  assumes "ac_host_budget a < u64_max" "ac_host_used a \<le> u64_max"
  shows "case admit_host a bytes of
     (a', True) \<Rightarrow> ac_host_used a' = ac_host_used a + bytes \<and> ac_host_used a' \<le> ac_host_budget a'
                   \<and> release_host a' bytes = a
   | (a', False) \<Rightarrow> a' = a \<and> ac_host_used a + bytes > ac_host_budget a"
proof (cases "ac_host_used a + bytes \<le> ac_host_budget a")
  case True
  then show ?thesis using assms by (simp add: admit_host_def saturating_add64_def release_host_def)
next
  case False
  then show ?thesis using assms by (simp add: admit_host_def saturating_add64_def min_def)
qed

theorem host_tier_accounting_witness:
  "ac_host_used (fst (admit_host (adm_new \<lparr>mf_weights_bytes = 1, mf_kv_bytes_per_token = 1, mf_pinned_host_bytes = 5\<rparr> 9) 8)) = 13"
  using host_tier_accounting [of "adm_new \<lparr>mf_weights_bytes = 1, mf_kv_bytes_per_token = 1, mf_pinned_host_bytes = 5\<rparr> 9" 8]
  by (simp add: adm_new_def DEFAULT_HOST_BUDGET_BYTES_def u64_max_def admit_host_def saturating_add64_def split: if_splits)

end
