(* ===== verification/Session_Table.thy ===== *)
theory Session_Table
  imports Slot_Pool_Props Admission "HOL-Library.AList"
begin

text \<open>
  Which session holds which slot, \<^verbatim>\<open>crates/hipfire-runtime/src/session_table.rs\<close>, and how much of a
  prompt a turn can reuse, \<^verbatim>\<open>prefix.rs\<close>. The hash map of sessions is an association list with distinct
  keys; the order of the list stands for the unspecified iteration order of the map. Times are
  numbers: a call that reads the clock takes the time as its argument \<open>now\<close>, and a duration since a
  later time is zero as in the source.
\<close>

section \<open>Prefix reuse\<close>

fun lcp :: "nat list \<Rightarrow> nat list \<Rightarrow> nat" where
  "lcp (x # xs) (y # ys) = (if x = y then Suc (lcp xs ys) else 0)"
| "lcp xs ys = 0"

record turn_plan =
  tp_lcp :: nat
  tp_reused :: nat
  tp_to_prefill :: nat

definition plan_turn :: "nat list \<Rightarrow> nat \<Rightarrow> nat list \<Rightarrow> turn_plan" where
  "plan_turn cached seq_len prompt =
     (let shared = lcp cached prompt;
          capped = min (min shared seq_len) (saturating_sub (length prompt) 1)
      in \<lparr>tp_lcp = capped, tp_reused = capped, tp_to_prefill = length prompt - capped\<rparr>)"

section \<open>Sessions\<close>

datatype residency = Resident | Swapped | Cold

record session =
  ss_slot :: "nat option"
  ss_granted_ctx :: nat
  ss_tokens :: "nat list"
  ss_next_pos :: nat
  ss_residency :: residency
  ss_convo :: "nat list"
  ss_rope_delta :: int
  ss_has_image :: bool
  ss_published_boundary :: nat
  ss_last_used :: nat
  ss_last_used_at :: nat
  ss_admitted :: bool

record session_table =
  st_sessions :: "(nat \<times> session) list"
  st_next_id :: nat
  st_clock :: nat

definition st_default :: session_table where
  "st_default = \<lparr>st_sessions = [], st_next_id = 0, st_clock = 0\<rparr>"

definition st_get :: "session_table \<Rightarrow> nat \<Rightarrow> session option" where
  "st_get t i = map_of (st_sessions t) i"

abbreviation st_put :: "session_table \<Rightarrow> nat \<Rightarrow> session \<Rightarrow> session_table" where
  "st_put t i s \<equiv> t\<lparr>st_sessions := AList.update i s (st_sessions t)\<rparr>"

definition is_admitted :: "session_table \<Rightarrow> nat \<Rightarrow> bool" where
  "is_admitted t i = (case st_get t i of None \<Rightarrow> False | Some s \<Rightarrow> ss_admitted s)"

definition st_open ::
  "session_table \<Rightarrow> slot_pool \<Rightarrow> admission_controller \<Rightarrow> nat \<Rightarrow> nat
     \<Rightarrow> session_table \<times> slot_pool \<times> admission_controller \<times> (admit_error + nat)" where
  "st_open t pool adm requested_ctx now =
     (let i = st_next_id t
      in case admit adm i requested_ctx of
           (adm, Inl e) \<Rightarrow> (t, pool, adm, Err e)
         | (adm, Inr granted_ctx) \<Rightarrow>
             (case sp_acquire pool of
                (pool, None) \<Rightarrow> (t, pool, adm_release adm i, Err PoolFull)
              | (pool, Some slot) \<Rightarrow>
                  (t\<lparr>st_next_id := i + 1, st_clock := st_clock t + 1,
                     st_sessions := AList.update i
                       \<lparr>ss_slot = Some slot, ss_granted_ctx = granted_ctx, ss_tokens = [], ss_next_pos = 0,
                        ss_residency = Resident, ss_convo = [], ss_rope_delta = 0, ss_has_image = False,
                        ss_published_boundary = 0, ss_last_used = st_clock t + 1, ss_last_used_at = now,
                        ss_admitted = True\<rparr> (st_sessions t)\<rparr>,
                   pool, adm, Ok i)))"

text \<open>The slot a session gives up, if it holds one.\<close>

definition give_slot :: "slot_pool \<Rightarrow> session \<Rightarrow> slot_pool" where
  "give_slot pool s = (case ss_slot s of None \<Rightarrow> pool | Some slot \<Rightarrow> fst (sp_release pool slot))"

definition st_close ::
  "session_table \<Rightarrow> slot_pool \<Rightarrow> admission_controller \<Rightarrow> nat
     \<Rightarrow> session_table \<times> slot_pool \<times> admission_controller" where
  "st_close t pool adm i =
     (case st_get t i of
        None \<Rightarrow> (t, pool, adm)
      | Some s \<Rightarrow>
          (t\<lparr>st_sessions := AList.delete i (st_sessions t)\<rparr>, give_slot pool s,
           if ss_admitted s then adm_release adm i else adm))"

definition readmit ::
  "session_table \<Rightarrow> admission_controller \<Rightarrow> nat \<Rightarrow> session_table \<times> admission_controller \<times> (admit_error + unit)" where
  "readmit t adm i =
     (case st_get t i of
        None \<Rightarrow> (t, adm, Ok ())
      | Some s \<Rightarrow>
          if ss_admitted s then (t, adm, Ok ())
          else (case admit adm i (ss_granted_ctx s) of
                  (adm, Inl e) \<Rightarrow> (t, adm, Err e)
                | (adm, Inr _) \<Rightarrow> (st_put t i (s\<lparr>ss_admitted := True\<rparr>), adm, Ok ())))"

datatype turn_error = TurnUnknown nat | TurnNoSlot nat | TurnSlot slot_error

text \<open>The cast of the signed descriptor length to \<^verbatim>\<open>usize\<close>.\<close>

definition as_usize :: "int \<Rightarrow> nat" where
  "as_usize n = nat (n mod 2 ^ 64)"

definition begin_turn ::
  "session_table \<Rightarrow> slot_pool \<Rightarrow> nat \<Rightarrow> nat list \<Rightarrow> nat \<Rightarrow> session_table \<times> slot_pool \<times> (turn_error + turn_plan)" where
  "begin_turn t pool i prompt now =
     (case st_get t i of
        None \<Rightarrow> (t, pool, Err (TurnUnknown i))
      | Some s \<Rightarrow>
          (case ss_slot s of
             None \<Rightarrow> (t, pool, Err (TurnNoSlot i))
           | Some slot \<Rightarrow>
               if length (sp_descs pool) \<le> slot then (t, pool, Err (TurnSlot SlotPanic))
               else
                 (let held = as_usize (kd_seq_len (sp_descs pool ! slot));
                      plan = plan_turn (ss_tokens s) held prompt
                  in case set_seq_len pool slot (tp_reused plan) of
                       (pool, Inl e) \<Rightarrow> (t, pool, Err (TurnSlot e))
                     | (pool, Inr _) \<Rightarrow>
                         (st_put t i (s\<lparr>ss_tokens := take (tp_reused plan) (ss_tokens s),
                                        ss_next_pos := tp_reused plan, ss_last_used_at := now\<rparr>),
                          pool, Ok plan))))"

section \<open>Finding sessions\<close>

definition find_continuation :: "session_table \<Rightarrow> nat list \<Rightarrow> nat list \<Rightarrow> nat option" where
  "find_continuation t want busy =
     (if length want < 2 then None
      else
        let expect = take (length want - 1) want;
            candidates = filter (\<lambda>(i, s). ss_residency s \<noteq> Cold \<and> ss_convo s = expect
                                          \<and> ss_tokens s \<noteq> [] \<and> i \<notin> set busy) (st_sessions t)
        in if length candidates \<noteq> 1 then None else Some (fst (hd candidates)))"

definition confirm_reentry :: "session_table \<Rightarrow> nat \<Rightarrow> nat list \<Rightarrow> nat list \<Rightarrow> nat option" where
  "confirm_reentry t i want busy =
     (if want = [] \<or> i \<in> set busy then None
      else case st_get t i of
        None \<Rightarrow> None
      | Some s \<Rightarrow>
          if ss_residency s \<noteq> Cold \<and> ss_convo s = want \<and> ss_tokens s \<noteq> [] then Some i else None)"

definition touch :: "session_table \<Rightarrow> nat \<Rightarrow> nat \<Rightarrow> session_table" where
  "touch t i now =
     (let clock = st_clock t + 1;
          t = t\<lparr>st_clock := clock\<rparr>
      in case st_get t i of
           None \<Rightarrow> t
         | Some s \<Rightarrow> st_put t i (s\<lparr>ss_last_used := clock, ss_last_used_at := now\<rparr>))"

definition lru_idle_victim :: "session_table \<Rightarrow> nat list \<Rightarrow> nat option" where
  "lru_idle_victim t busy =
     map_option fst (min_by_key (\<lambda>(_, s). ss_last_used s)
       (filter (\<lambda>(i, s). ss_slot s \<noteq> None \<and> i \<notin> set busy) (st_sessions t)))"

section \<open>Leaving and rejoining the device\<close>

definition resize_grant ::
  "session_table \<Rightarrow> admission_controller \<Rightarrow> nat \<Rightarrow> nat \<Rightarrow> session_table \<times> admission_controller \<times> (admit_error + nat)" where
  "resize_grant t adm i new_ctx =
     (case resize adm i new_ctx of
        (adm, Inl e) \<Rightarrow> (t, adm, Err e)
      | (adm, Inr granted) \<Rightarrow>
          ((case st_get t i of None \<Rightarrow> t | Some s \<Rightarrow> st_put t i (s\<lparr>ss_granted_ctx := granted\<rparr>)), adm, Ok granted))"

definition release_grant :: "session \<Rightarrow> admission_controller \<Rightarrow> nat \<Rightarrow> session \<times> admission_controller" where
  "release_grant s adm i = (if ss_admitted s then (s\<lparr>ss_admitted := False\<rparr>, adm_release adm i) else (s, adm))"

definition mark_swapped ::
  "session_table \<Rightarrow> slot_pool \<Rightarrow> admission_controller \<Rightarrow> nat \<Rightarrow> session_table \<times> slot_pool \<times> admission_controller" where
  "mark_swapped t pool adm i =
     (case st_get t i of
        None \<Rightarrow> (t, pool, adm)
      | Some s \<Rightarrow>
          (let (s', adm') = release_grant (s\<lparr>ss_slot := None\<rparr>) adm i
           in (st_put t i (s'\<lparr>ss_residency := Swapped, ss_published_boundary := 0\<rparr>), give_slot pool s, adm')))"

definition mark_cold ::
  "session_table \<Rightarrow> slot_pool \<Rightarrow> admission_controller \<Rightarrow> nat \<Rightarrow> session_table \<times> slot_pool \<times> admission_controller" where
  "mark_cold t pool adm i =
     (case st_get t i of
        None \<Rightarrow> (t, pool, adm)
      | Some s \<Rightarrow>
          (let (s', adm') = release_grant (s\<lparr>ss_slot := None\<rparr>) adm i
           in (st_put t i (s'\<lparr>ss_residency := Cold, ss_next_pos := 0, ss_published_boundary := 0\<rparr>),
               give_slot pool s, adm')))"

definition reopen_cold ::
  "session_table \<Rightarrow> slot_pool \<Rightarrow> admission_controller \<Rightarrow> nat \<Rightarrow> nat
     \<Rightarrow> session_table \<times> slot_pool \<times> admission_controller \<times> (admit_error + nat)" where
  "reopen_cold t pool adm i requested_ctx =
     (case st_get t i of
        None \<Rightarrow> (t, pool, adm, Err (UnknownSession i))
      | Some s \<Rightarrow>
          if ss_residency s \<noteq> Cold \<or> ss_slot s \<noteq> None \<or> ss_admitted s
          then (t, pool, adm, Err (UnknownSession i))
          else case admit adm i requested_ctx of
            (adm, Inl e) \<Rightarrow> (t, pool, adm, Err e)
          | (adm, Inr granted_ctx) \<Rightarrow>
              (case sp_acquire pool of
                 (pool, None) \<Rightarrow> (t, pool, adm_release adm i, Err PoolFull)
               | (pool, Some slot) \<Rightarrow>
                   (t\<lparr>st_clock := st_clock t + 1,
                      st_sessions := AList.update i
                        (s\<lparr>ss_slot := Some slot, ss_granted_ctx := granted_ctx, ss_admitted := True,
                           ss_residency := Resident, ss_tokens := [], ss_next_pos := 0,
                           ss_published_boundary := 0, ss_last_used := st_clock t + 1\<rparr>) (st_sessions t)\<rparr>,
                    pool, adm, Ok i)))"

definition mark_resident :: "session_table \<Rightarrow> nat \<Rightarrow> nat \<Rightarrow> nat \<Rightarrow> nat \<Rightarrow> session_table" where
  "mark_resident t i slot seq_len now =
     (let clock = st_clock t + 1;
          t = t\<lparr>st_clock := clock\<rparr>
      in case st_get t i of
           None \<Rightarrow> t
         | Some s \<Rightarrow>
             st_put t i (s\<lparr>ss_slot := Some slot, ss_residency := Resident, ss_next_pos := seq_len,
                           ss_last_used := clock, ss_last_used_at := now\<rparr>))"

section \<open>The idle sweep\<close>

fun close_all ::
  "session_table \<Rightarrow> slot_pool \<Rightarrow> admission_controller \<Rightarrow> nat list
     \<Rightarrow> session_table \<times> slot_pool \<times> admission_controller" where
  "close_all t pool adm [] = (t, pool, adm)"
| "close_all t pool adm (i # is) =
     (case st_close t pool adm i of (t, pool, adm) \<Rightarrow> close_all t pool adm is)"

definition cap_victim :: "session_table \<Rightarrow> nat option" where
  "cap_victim t =
     map_option fst (min_by_key (\<lambda>(_, s). ss_last_used s)
       (filter (\<lambda>(_, s). ss_residency s \<noteq> Resident) (st_sessions t)))"

lemma cap_victim_get: "cap_victim t = Some i \<Longrightarrow> st_get t i \<noteq> None"
  by (auto simp: cap_victim_def st_get_def map_of_eq_None_iff dest!: min_by_key_Some intro: rev_image_eqI)

lemma close_victim_shorter:
  assumes "cap_victim t = Some i" "st_close t pool adm i = (t', pool', adm')"
  shows "length (st_sessions t') < length (st_sessions t)"
  using assms(2) cap_victim_get [OF assms(1)] delete_shorter [of "st_sessions t" i]
  by (auto simp: st_close_def st_get_def split: option.splits)

text \<open>The \<^verbatim>\<open>while\<close> loop that enforces the cap: each round closes a session, so it ends.\<close>

function sweep_cap ::
  "nat \<Rightarrow> session_table \<Rightarrow> slot_pool \<Rightarrow> admission_controller
     \<Rightarrow> session_table \<times> slot_pool \<times> admission_controller \<times> nat list" where
  "sweep_cap max_sessions t pool adm =
     (if length (st_sessions t) > max_sessions then
        (case cap_victim t of
           None \<Rightarrow> (t, pool, adm, [])
         | Some i \<Rightarrow>
             (case st_close t pool adm i of
                (t', pool', adm') \<Rightarrow>
                  (case sweep_cap max_sessions t' pool' adm' of
                     (t'', pool'', adm'', closed) \<Rightarrow> (t'', pool'', adm'', i # closed))))
      else (t, pool, adm, []))"
  by pat_completeness auto
termination
proof (relation "measure (\<lambda>(m, t, pool, adm). length (st_sessions t))", goal_cases)
  case (2 max_sessions t pool adm i t' y pool' adm')
  then have "st_close t pool adm i = (t', pool', adm')" by simp
  then show ?case using close_victim_shorter 2(2) by simp
qed simp

declare sweep_cap.simps [simp del]

definition sweep_expired ::
  "session_table \<Rightarrow> slot_pool \<Rightarrow> admission_controller \<Rightarrow> nat \<Rightarrow> nat \<Rightarrow> nat
     \<Rightarrow> session_table \<times> slot_pool \<times> admission_controller \<times> nat list" where
  "sweep_expired t pool adm now max_idle max_sessions =
     (let expired = sort (map fst (filter (\<lambda>(_, s). ss_residency s \<noteq> Resident
                            \<and> saturating_sub now (ss_last_used_at s) > max_idle) (st_sessions t)))
      in case close_all t pool adm expired of
           (t, pool, adm) \<Rightarrow>
             (case sweep_cap max_sessions t pool adm of
                (t, pool, adm, closed) \<Rightarrow> (t, pool, adm, expired @ closed)))"

definition resident_count :: "session_table \<Rightarrow> nat" where
  "resident_count t = length (filter (\<lambda>(_, s). ss_slot s \<noteq> None) (st_sessions t))"

definition active_count :: "session_table \<Rightarrow> nat" where
  "active_count t = length (st_sessions t)"

end
