(* ===== verification/Session_Inv.thy ===== *)
theory Session_Inv
  imports Session_Table
begin

text \<open>
  The invariant that ties the session table to the slot pool and the admission controller, and
  its preservation by every operation: no two sessions hold one slot, a session is resident exactly
  when it holds a slot, the controller's grants are exactly those of the admitted sessions, ids are below
  the counter that mints them, and the LRU stamps are distinct (so the unspecified order of the hash
  map never decides a victim).
\<close>

section \<open>The table alone\<close>

definition stamps_ok :: "(nat \<rightharpoonup> session) \<Rightarrow> nat \<Rightarrow> bool" where
  "stamps_ok m clock \<longleftrightarrow>
     (\<forall>i s. m i = Some s \<longrightarrow> ss_last_used s \<le> clock)
     \<and> (\<forall>i j s s'. m i = Some s \<longrightarrow> m j = Some s' \<longrightarrow> ss_last_used s = ss_last_used s' \<longrightarrow> i = j)"

definition st_wf :: "session_table \<Rightarrow> bool" where
  "st_wf t \<longleftrightarrow>
     distinct (map fst (st_sessions t))
     \<and> (\<forall>i s. st_get t i = Some s \<longrightarrow> i < st_next_id t \<and> (ss_residency s = Resident \<longleftrightarrow> ss_slot s \<noteq> None))
     \<and> stamps_ok (st_get t) (st_clock t)"

lemma st_get_put [simp]: "st_get (st_put t i s) = (st_get t)(i \<mapsto> s)"
  by (simp add: st_get_def AList.update_conv' fun_eq_iff)

lemma st_get_delete [simp]:
  "st_get (t\<lparr>st_sessions := AList.delete i (st_sessions t)\<rparr>) = (st_get t)(i := None)"
  by (simp add: st_get_def AList.delete_conv' fun_eq_iff)

lemma st_get_clock [simp]: "st_get (t\<lparr>st_clock := c\<rparr>) = st_get t" "st_get (t\<lparr>st_next_id := c\<rparr>) = st_get t"
  by (simp_all add: st_get_def fun_eq_iff)

lemma st_get_mem: "st_wf t \<Longrightarrow> (i, s) \<in> set (st_sessions t) \<longleftrightarrow> st_get t i = Some s"
  by (simp add: st_wf_def st_get_def)

text \<open>Replacing a session without a new stamp, with the next stamp, and removing one.\<close>

lemma st_wf_put:
  assumes "st_wf t" "st_get t i = Some s0" "ss_last_used s = ss_last_used s0"
    "ss_residency s = Resident \<longleftrightarrow> ss_slot s \<noteq> None"
  shows "st_wf (st_put t i s)"
  using assms by (auto simp: st_wf_def stamps_ok_def AList.distinct_update)

lemma stamps_ok_new:
  assumes "stamps_ok m c" "ss_last_used s = c + 1"
  shows "stamps_ok (m(i \<mapsto> s)) (c + 1)"
proof -
  have old: "ss_last_used s' \<le> c" if "m j = Some s'" for j s'
    using that assms(1) by (auto simp: stamps_ok_def)
  have "ss_last_used s' \<le> c + 1" if "(m(i \<mapsto> s)) j = Some s'" for j s'
    using that old [of j s'] assms(2) by (auto split: if_splits)
  moreover have "j = k" if "(m(i \<mapsto> s)) j = Some s'" "(m(i \<mapsto> s)) k = Some s''"
    "ss_last_used s' = ss_last_used s''" for j k s' s''
    using that old assms by (fastforce simp: stamps_ok_def split: if_splits)
  ultimately show ?thesis unfolding stamps_ok_def by blast
qed

lemma st_wf_put_stamp:
  assumes "st_wf t" "st_get t i \<noteq> None \<or> i = st_next_id t" "ss_last_used s = st_clock t + 1"
    "ss_residency s = Resident \<longleftrightarrow> ss_slot s \<noteq> None"
  shows "st_wf ((st_put t i s)\<lparr>st_clock := st_clock t + 1, st_next_id := max (st_next_id t) (i + 1)\<rparr>)"
proof -
  have "stamps_ok ((st_get t)(i \<mapsto> s)) (st_clock t + 1)"
    by (rule stamps_ok_new) (use assms in \<open>simp_all add: st_wf_def\<close>)
  moreover have "distinct (map fst (AList.update i s (st_sessions t)))"
    using assms(1) by (simp add: st_wf_def AList.distinct_update)
  moreover have "j < max (st_next_id t) (i + 1) \<and> (ss_residency s' = Resident \<longleftrightarrow> ss_slot s' \<noteq> None)"
    if "((st_get t)(i \<mapsto> s)) j = Some s'" for j s'
    using that assms(1,4) by (auto simp: st_wf_def less_max_iff_disj split: if_splits)
  ultimately show ?thesis by (simp add: st_wf_def)
qed

lemma st_wf_clock: "st_wf t \<Longrightarrow> st_wf (t\<lparr>st_clock := st_clock t + 1\<rparr>)"
  by (auto simp: st_wf_def stamps_ok_def le_Suc_eq)

lemma st_wf_delete: "st_wf t \<Longrightarrow> st_wf (t\<lparr>st_sessions := AList.delete i (st_sessions t)\<rparr>)"
  by (auto simp: st_wf_def stamps_ok_def AList.distinct_delete split: if_splits)

section \<open>The table, the pool and the controller\<close>

definition slot_map :: "session_table \<Rightarrow> nat \<rightharpoonup> nat" where
  "slot_map t i = Option.bind (st_get t i) ss_slot"

definition admitted_ids :: "session_table \<Rightarrow> nat set" where
  "admitted_ids t = {i. \<exists>s. st_get t i = Some s \<and> ss_admitted s}"

definition st_inv :: "session_table \<Rightarrow> slot_pool \<Rightarrow> admission_controller \<Rightarrow> bool" where
  "st_inv t pool adm \<longleftrightarrow> st_wf t \<and> sp.holds pool (slot_map t) \<and> adm.books adm (admitted_ids t)"

lemma slot_map_put: "slot_map (st_put t i s) = (slot_map t)(i := ss_slot s)"
  by (auto simp: slot_map_def fun_eq_iff)

lemma slot_map_delete: "slot_map (t\<lparr>st_sessions := AList.delete i (st_sessions t)\<rparr>) = (slot_map t)(i := None)"
  by (auto simp: slot_map_def fun_eq_iff)

lemma admitted_ids_put:
  "admitted_ids (st_put t i s) = (if ss_admitted s then insert i (admitted_ids t) else admitted_ids t - {i})"
  by (auto simp: admitted_ids_def)

lemma admitted_ids_delete:
  "admitted_ids (t\<lparr>st_sessions := AList.delete i (st_sessions t)\<rparr>) = admitted_ids t - {i}"
  by (auto simp: admitted_ids_def split: if_splits)

lemma table_maps_clock [simp]:
  "slot_map (t\<lparr>st_clock := c\<rparr>) = slot_map t" "admitted_ids (t\<lparr>st_clock := c\<rparr>) = admitted_ids t"
  "slot_map (t\<lparr>st_next_id := c\<rparr>) = slot_map t" "admitted_ids (t\<lparr>st_next_id := c\<rparr>) = admitted_ids t"
  by (simp_all add: slot_map_def admitted_ids_def fun_eq_iff)

lemma st_inv_default: "sp_wf pool \<Longrightarrow> adm_inv adm \<Longrightarrow> ac_admitted adm = [] \<Longrightarrow> st_inv st_default pool adm"
proof -
  have "slot_map st_default = Map.empty" "admitted_ids st_default = {}"
    by (auto simp: slot_map_def admitted_ids_def st_default_def st_get_def)
  then show "sp_wf pool \<Longrightarrow> adm_inv adm \<Longrightarrow> ac_admitted adm = [] \<Longrightarrow> st_inv st_default pool adm"
    by (simp add: st_inv_def st_wf_def st_default_def st_get_def stamps_ok_def sp.holds_def adm.books_def
        adm_holders_def)
qed

lemma next_id_fresh: "st_wf t \<Longrightarrow> st_get t (st_next_id t) = None"
  by (cases "st_get t (st_next_id t)") (auto simp: st_wf_def)

text \<open>Giving a session's slot back, and its grant.\<close>

lemma give_slot_holds:
  "sp.holds pool (slot_map t) \<Longrightarrow> st_get t i = Some s \<Longrightarrow> sp.holds (give_slot pool s) ((slot_map t)(i := None))"
  using sp.holds_rel [of pool "slot_map t" i] sp.holds_forget [of pool "slot_map t" i]
  by (auto simp: give_slot_def slot_map_def split: option.splits)

lemma drop_grant_books:
  "adm.books adm (admitted_ids t) \<Longrightarrow> st_get t i = Some s
   \<Longrightarrow> adm.books (if ss_admitted s then adm_release adm i else adm) (admitted_ids t - {i})"
  using adm.books_revoke [of adm "admitted_ids t" i] by (auto simp: admitted_ids_def)

section \<open>Every operation keeps the invariant\<close>

lemma acquire_None: "sp_acquire pool = (pool', None) \<Longrightarrow> pool' = pool"
  by (rule sp.acq_None)

lemma st_open_cases:
  assumes inv: "st_inv t pool adm" and e: "st_open t pool adm c now = (t', pool', adm', r)"
  shows "case r of
      Inl _ \<Rightarrow> t' = t \<and> pool' = pool \<and> adm' = adm
    | Inr i \<Rightarrow> i = st_next_id t \<and> st_inv t' pool' adm' \<and> st_get t i = None
        \<and> (\<exists>s. st_get t' = (st_get t)(i \<mapsto> s) \<and> ss_residency s = Resident \<and> ss_admitted s \<and> ss_granted_ctx s = c)"
proof -
  let ?i = "st_next_id t"
  have wf: "st_wf t" and h: "sp.holds pool (slot_map t)" and b: "adm.books adm (admitted_ids t)"
    using inv by (simp_all add: st_inv_def)
  note fresh = next_id_fresh [OF wf]
  have ni: "?i \<notin> admitted_ids t" "slot_map t ?i = None" using fresh by (simp_all add: admitted_ids_def slot_map_def)
  obtain adm1 r1 where a: "admit adm ?i c = (adm1, r1)" by fastforce
  obtain pool1 got where q: "sp_acquire pool = (pool1, got)" by fastforce
  show ?thesis
  proof (cases r1)
    case (Inl er)
    then show ?thesis using e a adm.grant_Err [of adm ?i c adm1 er] by (auto simp: st_open_def Let_def)
  next
    case (Inr g)
    show ?thesis
    proof (cases got)
      case None
      then show ?thesis
        using e a q Inr acquire_None adm.books_undo [OF b ni(1)] by (auto simp: st_open_def Let_def)
    next
      case (Some slot)
      have gc: "g = c" using admit_cases [OF a] Inr by simp
      define s where "s = \<lparr>ss_slot = Some slot, ss_granted_ctx = g, ss_tokens = [], ss_next_pos = 0,
        ss_residency = Resident, ss_convo = [], ss_rope_delta = 0, ss_has_image = False,
        ss_published_boundary = 0, ss_last_used = st_clock t + 1, ss_last_used_at = now, ss_admitted = True\<rparr>"
      have t': "t' = (st_put t ?i s)\<lparr>st_clock := st_clock t + 1, st_next_id := max ?i (?i + 1)\<rparr>"
        and eq: "pool' = pool1" "adm' = adm1" "r = Ok ?i"
        using e a q Inr Some by (auto simp: st_open_def Let_def s_def)
      have "st_wf t'" unfolding t' by (rule st_wf_put_stamp [OF wf]) (simp_all add: s_def)
      moreover have "sp.holds pool' (slot_map t')"
        using sp.holds_acq [OF h] q Some ni(2) by (simp add: t' eq slot_map_put s_def)
      moreover have "adm.books adm' (admitted_ids t')"
        using adm.books_grant [OF b ni(1)] a Inr by (simp add: t' eq admitted_ids_put s_def)
      ultimately show ?thesis
        using eq fresh gc by (auto simp: st_inv_def t' s_def)
    qed
  qed
qed

lemma st_close_inv:
  assumes inv: "st_inv t pool adm" and e: "st_close t pool adm i = (t', pool', adm')"
  shows "st_inv t' pool' adm'" "st_get t' = (st_get t)(i := None)" "st_next_id t' = st_next_id t"
    "set (st_sessions t') \<subseteq> set (st_sessions t)"
proof -
  show "st_get t' = (st_get t)(i := None)" "st_next_id t' = st_next_id t"
    using e by (auto simp: st_close_def fun_eq_iff split: option.splits)
  show "set (st_sessions t') \<subseteq> set (st_sessions t)"
    using e by (auto simp: st_close_def AList.delete_eq split: option.splits)
  show "st_inv t' pool' adm'"
  proof (cases "st_get t i")
    case None
    then show ?thesis using e inv by (simp add: st_close_def)
  next
    case (Some s)
    then show ?thesis
      using e inv give_slot_holds [of pool t i s] drop_grant_books [of adm t i s]
      by (auto simp: st_close_def st_inv_def st_wf_delete slot_map_delete admitted_ids_delete)
  qed
qed

text \<open>Both ways of leaving the device.\<close>

lemma st_leave_inv:
  assumes inv: "st_inv t pool adm" and g: "st_get t i = Some s"
    and rg: "release_grant (s\<lparr>ss_slot := None\<rparr>) adm i = (s1, adm')"
    and s': "ss_slot s' = ss_slot s1" "ss_admitted s' = ss_admitted s1" "ss_last_used s' = ss_last_used s1"
      "ss_residency s' \<noteq> Resident"
  shows "st_inv (st_put t i s') (give_slot pool s) adm'"
proof -
  have s1: "ss_slot s1 = None" "\<not> ss_admitted s1" "ss_last_used s1 = ss_last_used s"
    "adm' = (if ss_admitted s then adm_release adm i else adm)"
    using rg by (auto simp: release_grant_def split: if_splits)
  have "st_wf (st_put t i s')" by (rule st_wf_put) (use inv g s' s1 in \<open>auto simp: st_inv_def\<close>)
  then show ?thesis
    using inv give_slot_holds [OF _ g] drop_grant_books [OF _ g] s' s1
    by (simp add: st_inv_def slot_map_put admitted_ids_put)
qed

lemma mark_swapped_inv:
  assumes inv: "st_inv t pool adm" and e: "mark_swapped t pool adm i = (t', pool', adm')"
  shows "st_inv t' pool' adm'"
proof (cases "st_get t i")
  case None
  then show ?thesis using e inv by (simp add: mark_swapped_def)
next
  case (Some s)
  obtain s1 adm1 where rg: "release_grant (s\<lparr>ss_slot := None\<rparr>) adm i = (s1, adm1)" by fastforce
  show ?thesis
    using st_leave_inv [OF inv Some rg, of "s1\<lparr>ss_residency := Swapped, ss_published_boundary := 0\<rparr>"] e Some rg
    by (simp add: mark_swapped_def)
qed

lemma mark_cold_inv:
  assumes inv: "st_inv t pool adm" and e: "mark_cold t pool adm i = (t', pool', adm')"
  shows "st_inv t' pool' adm'"
proof (cases "st_get t i")
  case None
  then show ?thesis using e inv by (simp add: mark_cold_def)
next
  case (Some s)
  obtain s1 adm1 where rg: "release_grant (s\<lparr>ss_slot := None\<rparr>) adm i = (s1, adm1)" by fastforce
  show ?thesis
    using st_leave_inv [OF inv Some rg, of "s1\<lparr>ss_residency := Cold, ss_next_pos := 0, ss_published_boundary := 0\<rparr>"] e Some rg
    by (simp add: mark_cold_def)
qed

text \<open>Changing a session in place, without touching its slot or its grant.\<close>

lemma st_inv_put_same:
  assumes "st_inv t pool adm" "st_get t i = Some s" "ss_slot s' = ss_slot s" "ss_admitted s' = ss_admitted s"
    "ss_residency s' = ss_residency s" "ss_last_used s' = ss_last_used s"
  shows "st_inv (st_put t i s') pool adm"
proof -
  have sm: "(slot_map t)(i := ss_slot s') = slot_map t" using assms by (auto simp: slot_map_def fun_eq_iff)
  have ad: "(if ss_admitted s' then insert i (admitted_ids t) else admitted_ids t - {i}) = admitted_ids t"
    using assms by (auto simp: admitted_ids_def)
  have "st_wf (st_put t i s')" by (rule st_wf_put) (use assms in \<open>auto simp: st_inv_def st_wf_def\<close>)
  then show ?thesis using assms(1) by (simp add: st_inv_def slot_map_put admitted_ids_put sm ad)
qed

lemma touch_inv:
  assumes "st_inv t pool adm"
  shows "st_inv (touch t i now) pool adm"
proof (cases "st_get t i")
  case None
  then show ?thesis using assms st_wf_clock by (auto simp: touch_def Let_def st_inv_def)
next
  case (Some s)
  let ?s = "s\<lparr>ss_last_used := st_clock t + 1, ss_last_used_at := now\<rparr>"
  have i: "i < st_next_id t" using assms Some by (auto simp: st_inv_def st_wf_def)
  have t: "touch t i now = (st_put t i ?s)\<lparr>st_clock := st_clock t + 1, st_next_id := max (st_next_id t) (i + 1)\<rparr>"
    using Some i by (simp add: touch_def Let_def max_def)
  have "st_wf (touch t i now)" unfolding t
    by (rule st_wf_put_stamp) (use assms Some in \<open>auto simp: st_inv_def st_wf_def\<close>)
  moreover have "slot_map (touch t i now) = slot_map t" "admitted_ids (touch t i now) = admitted_ids t"
    using Some by (auto simp: t slot_map_put admitted_ids_put slot_map_def admitted_ids_def fun_eq_iff)
  ultimately show ?thesis using assms by (simp add: st_inv_def)
qed

lemma readmit_inv:
  assumes inv: "st_inv t pool adm" and e: "readmit t adm i = (t', adm', r)"
  shows "st_inv t' pool adm'" "r = Ok () \<Longrightarrow> st_get t i = Some s \<Longrightarrow> is_admitted t' i" "st_get t' i = None \<longleftrightarrow> st_get t i = None"
    "slot_map t' = slot_map t"
proof -
  have "st_inv t' pool adm' \<and> (r = Ok () \<longrightarrow> st_get t i \<noteq> None \<longrightarrow> is_admitted t' i)
        \<and> (st_get t' i = None \<longleftrightarrow> st_get t i = None) \<and> slot_map t' = slot_map t"
  proof (cases "\<exists>s. st_get t i = Some s \<and> \<not> ss_admitted s")
    case False
    then have "t' = t" "adm' = adm" using e by (auto simp: readmit_def split: option.splits)
    then show ?thesis using inv False by (auto simp: is_admitted_def)
  next
    case True
    then obtain s where s: "st_get t i = Some s" "\<not> ss_admitted s" by blast
    then have ni: "i \<notin> admitted_ids t" by (auto simp: admitted_ids_def)
    obtain adm1 r1 where a: "admit adm i (ss_granted_ctx s) = (adm1, r1)" by fastforce
    show ?thesis
    proof (cases r1)
      case (Inl er)
      then show ?thesis using e a s inv adm.grant_Err [of adm i _ adm1 er] by (auto simp: readmit_def)
    next
      case (Inr g)
      have t': "t' = st_put t i (s\<lparr>ss_admitted := True\<rparr>)" "adm' = adm1" using e a s Inr by (auto simp: readmit_def)
      have "st_wf t'" unfolding t' by (rule st_wf_put) (use inv s in \<open>auto simp: st_inv_def st_wf_def\<close>)
      moreover have sm: "slot_map t' = slot_map t" using s by (auto simp: t' slot_map_put slot_map_def fun_eq_iff)
      moreover have "adm.books adm' (admitted_ids t')"
        using adm.books_grant [OF _ ni a [unfolded Inr]] inv by (simp add: t' admitted_ids_put st_inv_def)
      ultimately show ?thesis using inv s by (auto simp: st_inv_def t' is_admitted_def)
    qed
  qed
  then show "st_inv t' pool adm'" "r = Ok () \<Longrightarrow> st_get t i = Some s \<Longrightarrow> is_admitted t' i"
    "st_get t' i = None \<longleftrightarrow> st_get t i = None" "slot_map t' = slot_map t" by auto
qed

lemma resize_books:
  assumes b: "adm.books adm S" and e: "resize adm i c = (adm', r)"
  shows "adm.books adm' S"
proof -
  have inv: "adm_inv adm" using b by (simp add: adm.books_def)
  have "adm_holders adm' = adm_holders adm"
  proof (cases r)
    case (Inl er)
    then show ?thesis using resize_cases [OF inv e] by simp
  next
    case (Inr g)
    with resize_cases [OF inv e] obtain k where "k < length (ac_admitted adm)" "fst (ac_admitted adm ! k) = i"
      "adm' = adm\<lparr>ac_admitted := (ac_admitted adm)[k := (i, c)]\<rparr>" by auto
    moreover from this have "map fst ((ac_admitted adm)[k := (i, c)]) = map fst (ac_admitted adm)"
      by (metis fst_conv list_update_id map_update nth_map)
    ultimately show ?thesis by (simp add: adm_holders_def del: mset_map)
  qed
  then show ?thesis using b resize_inv [OF inv e] by (simp add: adm.books_def)
qed

lemma resize_grant_inv:
  assumes inv: "st_inv t pool adm" and e: "resize_grant t adm i c = (t', adm', r)"
  shows "st_inv t' pool adm'"
proof -
  obtain adm1 r1 where rz: "resize adm i c = (adm1, r1)" by fastforce
  have i1: "st_inv t pool adm1" using inv resize_books [OF _ rz] by (simp add: st_inv_def)
  have "adm' = adm1" using e rz by (auto simp: resize_grant_def split: sum.splits)
  moreover have "t' = t \<or> (\<exists>s g. st_get t i = Some s \<and> t' = st_put t i (s\<lparr>ss_granted_ctx := g\<rparr>))"
    using e rz by (cases "st_get t i") (auto simp: resize_grant_def split: sum.splits)
  ultimately show ?thesis using i1 st_inv_put_same [OF i1] by auto
qed

lemma reopen_cold_cases:
  assumes inv: "st_inv t pool adm" and e: "reopen_cold t pool adm i c = (t', pool', adm', r)"
  shows "case r of
      Inl _ \<Rightarrow> t' = t \<and> pool' = pool \<and> adm' = adm
    | Inr j \<Rightarrow> j = i \<and> st_inv t' pool' adm' \<and> st_next_id t' = st_next_id t \<and> dom (st_get t') = dom (st_get t)"
proof (cases "\<exists>s. st_get t i = Some s \<and> ss_residency s = Cold \<and> ss_slot s = None \<and> \<not> ss_admitted s")
  case False
  then show ?thesis using e by (auto simp: reopen_cold_def split: option.splits)
next
  case True
  then obtain s where s: "st_get t i = Some s" "ss_residency s = Cold" "ss_slot s = None" "\<not> ss_admitted s" by blast
  have wf: "st_wf t" and h: "sp.holds pool (slot_map t)" and b: "adm.books adm (admitted_ids t)"
    using inv by (simp_all add: st_inv_def)
  have ni: "i \<notin> admitted_ids t" "slot_map t i = None" using s by (auto simp: admitted_ids_def slot_map_def)
  have il: "i < st_next_id t" using wf s by (auto simp: st_wf_def)
  obtain adm1 r1 where a: "admit adm i c = (adm1, r1)" by fastforce
  obtain pool1 got where q: "sp_acquire pool = (pool1, got)" by fastforce
  consider (refused) er where "r1 = Inl er" | (full) g where "r1 = Inr g" "got = None"
    | (opened) g slot where "r1 = Inr g" "got = Some slot" by (cases r1; cases got) auto
  then show ?thesis
  proof cases
    case refused
    then show ?thesis using e a s adm.grant_Err [of adm i c adm1 er] by (auto simp: reopen_cold_def)
  next
    case full
    then show ?thesis
      using e a q s acquire_None adm.books_undo [OF b ni(1)] by (auto simp: reopen_cold_def)
  next
    case opened
    define s' where "s' = s\<lparr>ss_slot := Some slot, ss_granted_ctx := g, ss_admitted := True, ss_residency := Resident,
      ss_tokens := [], ss_next_pos := 0, ss_published_boundary := 0, ss_last_used := st_clock t + 1\<rparr>"
    have t': "t' = (st_put t i s')\<lparr>st_clock := st_clock t + 1, st_next_id := max (st_next_id t) (i + 1)\<rparr>"
      and eq: "pool' = pool1" "adm' = adm1" "r = Ok i"
      using e a q s opened il by (auto simp: reopen_cold_def s'_def max_def)
    have "st_wf t'" unfolding t' by (rule st_wf_put_stamp [OF wf]) (use s in \<open>simp_all add: s'_def\<close>)
    moreover have "sp.holds pool' (slot_map t')"
      using sp.holds_acq [OF h] q opened ni(2) by (simp add: t' eq slot_map_put s'_def)
    moreover have "adm.books adm' (admitted_ids t')"
      using adm.books_grant [OF b ni(1)] a opened by (simp add: t' eq admitted_ids_put s'_def)
    ultimately show ?thesis using eq s il by (auto simp: st_inv_def t' max_def)
  qed
qed

lemma mark_resident_inv:
  assumes inv: "st_inv t pool adm" and none: "slot_map t i = None"
    and slot: "slot \<in> slots_in_use pool" "slot \<notin> ran (slot_map t)"
  shows "st_inv (mark_resident t i slot n now) pool adm"
proof (cases "st_get t i")
  case None
  then show ?thesis using inv st_wf_clock by (auto simp: mark_resident_def Let_def st_inv_def)
next
  case (Some s)
  let ?s = "s\<lparr>ss_slot := Some slot, ss_residency := Resident, ss_next_pos := n,
               ss_last_used := st_clock t + 1, ss_last_used_at := now\<rparr>"
  have i: "i < st_next_id t" using inv Some by (auto simp: st_inv_def st_wf_def)
  have t: "mark_resident t i slot n now
      = (st_put t i ?s)\<lparr>st_clock := st_clock t + 1, st_next_id := max (st_next_id t) (i + 1)\<rparr>"
    using Some i by (simp add: mark_resident_def Let_def max_def)
  have "st_wf (mark_resident t i slot n now)" unfolding t
    by (rule st_wf_put_stamp) (use inv Some in \<open>auto simp: st_inv_def\<close>)
  moreover have "sp.holds pool (slot_map (mark_resident t i slot n now))"
    using sp.holds_attach [OF _ none slot] inv by (simp add: t slot_map_put st_inv_def)
  moreover have "admitted_ids (mark_resident t i slot n now) = admitted_ids t"
    using Some by (auto simp: t admitted_ids_put admitted_ids_def)
  ultimately show ?thesis using inv by (simp add: st_inv_def)
qed

end
