(* ===== verification/Session_Props.thy ===== *)
theory Session_Props
  imports Session_Inv
begin

text \<open>
  The session table over time: its state machine over the slot pool and the admission controller, the
  invariant of every reachable state, and what opening, turning, evicting and sweeping guarantee.
\<close>

section \<open>Prefixes\<close>

lemma lcp_le: "lcp xs ys \<le> length xs" "lcp xs ys \<le> length ys"
  by (induction xs ys rule: lcp.induct) auto

lemma lcp_take: "k \<le> lcp xs ys \<Longrightarrow> take k xs = take k ys"
proof (induction xs ys arbitrary: k rule: lcp.induct)
  case (1 x xs y ys)
  then show ?case by (cases k) (auto split: if_splits)
qed simp_all

lemma lcp_maximal: "lcp xs ys < length xs \<Longrightarrow> lcp xs ys < length ys \<Longrightarrow> xs ! lcp xs ys \<noteq> ys ! lcp xs ys"
  by (induction xs ys rule: lcp.induct) auto

lemma plan_turn_props:
  assumes "prompt \<noteq> []"
  shows "take (tp_reused (plan_turn cached held prompt)) cached = take (tp_reused (plan_turn cached held prompt)) prompt"
    "tp_reused (plan_turn cached held prompt) \<le> length cached" "tp_reused (plan_turn cached held prompt) \<le> held"
    "tp_reused (plan_turn cached held prompt) < length prompt"
    "tp_to_prefill (plan_turn cached held prompt) = length prompt - tp_reused (plan_turn cached held prompt)"
    "tp_reused (plan_turn cached held prompt) < held \<Longrightarrow> tp_reused (plan_turn cached held prompt) + 1 < length prompt
     \<Longrightarrow> tp_reused (plan_turn cached held prompt) < length cached
     \<Longrightarrow> cached ! tp_reused (plan_turn cached held prompt) \<noteq> prompt ! tp_reused (plan_turn cached held prompt)"
proof -
  define n where n: "n = min (min (lcp cached prompt) held) (length prompt - 1)"
  have "length prompt - 1 < length prompt" using assms by simp
  then have le: "n \<le> lcp cached prompt" "n \<le> held" "n < length prompt" unfolding n by linarith+
  have "n = lcp cached prompt" if "n < held" "n + 1 < length prompt" using that unfolding n by linarith
  then have "cached ! n \<noteq> prompt ! n" if "n < held" "n + 1 < length prompt" "n < length cached"
    using that lcp_maximal [of cached prompt] by simp
  moreover have "n \<le> length cached" using le(1) lcp_le(1) [of cached prompt] by linarith
  moreover have "plan_turn cached held prompt = \<lparr>tp_lcp = n, tp_reused = n, tp_to_prefill = length prompt - n\<rparr>"
    by (simp add: plan_turn_def n Let_def)
  ultimately show "take (tp_reused (plan_turn cached held prompt)) cached = take (tp_reused (plan_turn cached held prompt)) prompt"
    "tp_reused (plan_turn cached held prompt) \<le> length cached" "tp_reused (plan_turn cached held prompt) \<le> held"
    "tp_reused (plan_turn cached held prompt) < length prompt"
    "tp_to_prefill (plan_turn cached held prompt) = length prompt - tp_reused (plan_turn cached held prompt)"
    "tp_reused (plan_turn cached held prompt) < held \<Longrightarrow> tp_reused (plan_turn cached held prompt) + 1 < length prompt
     \<Longrightarrow> tp_reused (plan_turn cached held prompt) < length cached
     \<Longrightarrow> cached ! tp_reused (plan_turn cached held prompt) \<noteq> prompt ! tp_reused (plan_turn cached held prompt)"
    using le lcp_take [OF le(1)] by simp_all
qed

text \<open>
  The plan of a turn reuses the longest stretch that is a common prefix of the remembered tokens and the
  prompt, is held by the slot, and leaves at least one token of a non-empty prompt to compute.
\<close>

theorem plan_turn_reuses_longest:
  assumes "prompt \<noteq> []"
  shows "let n = tp_reused (plan_turn cached held prompt) in
      take n cached = take n prompt \<and> n \<le> length cached \<and> n \<le> held \<and> n < length prompt
      \<and> tp_to_prefill (plan_turn cached held prompt) = length prompt - n
      \<and> (n < held \<and> n + 1 < length prompt \<and> n < length cached \<longrightarrow> cached ! n \<noteq> prompt ! n)"
  using plan_turn_props [OF assms] by (simp add: Let_def)

theorem plan_turn_reuses_longest_witness:
  "tp_reused (plan_turn [1, 2, 3, 4] 3 [1, 2, 9, 9]) = 2 \<and> tp_to_prefill (plan_turn [1, 2, 3, 4] 3 [1, 2, 9, 9]) = 2"
  using plan_turn_reuses_longest [of "[1, 2, 9, 9]" "[1, 2, 3, 4]" 3] by (simp add: plan_turn_def)

section \<open>Turns\<close>

lemma set_seq_len_slots:
  assumes wf: "sp_wf sp" and e: "set_seq_len sp i n = (sp', r)"
  shows "sp_wf sp'" "slots_in_use sp' = slots_in_use sp" "length (sp_descs sp') = length (sp_descs sp)"
proof -
  have u: "sp_in_use sp' = sp_in_use sp \<and> length (sp_descs sp') = length (sp_descs sp)"
    using e by (auto simp: set_seq_len_def provision_pages_for_def split: sum.splits option.splits if_splits prod.splits)
  then show "slots_in_use sp' = slots_in_use sp" "length (sp_descs sp') = length (sp_descs sp)"
    by (simp_all add: slots_in_use_def)
  show "sp_wf sp'"
  proof (cases "sp_page_pool sp")
    case None
    then have "sp' = sp \<or> sp' = put_seq_len sp i (as_i32 n)"
      using e by (auto simp: set_seq_len_def provision_pages_for_def split: sum.splits if_splits)
    then show ?thesis using wf by (auto simp: sp_wf_def)
  next
    case (Some pool)
    then show ?thesis using sim_set_seq_len [OF wf _ e] by (auto simp: sim_def)
  qed
qed


lemma begin_turn_cases:
  assumes inv: "st_inv t pool adm" and e: "begin_turn t pool i prompt now = (t', pool', r)"
  shows "st_inv t' pool' adm \<and> (case r of
      Inl _ \<Rightarrow> t' = t
    | Inr plan \<Rightarrow> \<exists>s slot. st_get t i = Some s \<and> ss_slot s = Some slot \<and> slot < length (sp_descs pool)
        \<and> plan = plan_turn (ss_tokens s) (as_usize (kd_seq_len (sp_descs pool ! slot))) prompt
        \<and> set_seq_len pool slot (tp_reused plan) = (pool', Ok ())
        \<and> t' = st_put t i (s\<lparr>ss_tokens := take (tp_reused plan) (ss_tokens s), ss_next_pos := tp_reused plan,
                             ss_last_used_at := now\<rparr>))"
proof (cases "\<exists>s slot. st_get t i = Some s \<and> ss_slot s = Some slot \<and> slot < length (sp_descs pool)")
  case False
  then show ?thesis using e inv by (auto simp: begin_turn_def not_less split: option.splits if_splits)
next
  case True
  then obtain s slot where s: "st_get t i = Some s" "ss_slot s = Some slot" "slot < length (sp_descs pool)" by blast
  let ?plan = "plan_turn (ss_tokens s) (as_usize (kd_seq_len (sp_descs pool ! slot))) prompt"
  obtain pool1 r1 where q: "set_seq_len pool slot (tp_reused ?plan) = (pool1, r1)" by fastforce
  have p': "pool' = pool1" using e s q by (auto simp: begin_turn_def Let_def split: sum.splits)
  have wf: "sp_wf pool" using inv by (simp add: st_inv_def sp.holds_def)
  have i1: "st_inv t pool' adm"
    using inv sp.holds_transfer [of pool "slot_map t" pool'] set_seq_len_slots [OF wf q] by (simp add: st_inv_def p')
  show ?thesis
  proof (cases r1)
    case (Inl er)
    then show ?thesis using e s q i1 by (auto simp: begin_turn_def Let_def)
  next
    case (Inr u)
    then have "r = Ok ?plan" "t' = st_put t i (s\<lparr>ss_tokens := take (tp_reused ?plan) (ss_tokens s),
        ss_next_pos := tp_reused ?plan, ss_last_used_at := now\<rparr>)"
      using e s q by (auto simp: begin_turn_def Let_def)
    then show ?thesis using st_inv_put_same [OF i1 s(1)] s q Inr p' by auto
  qed
qed

section \<open>The idle sweep\<close>

lemma close_all_inv:
  assumes "st_inv t pool adm" "close_all t pool adm is = (t', pool', adm')"
  shows "st_inv t' pool' adm' \<and> st_get t' = (st_get t) |` (- set is) \<and> st_next_id t' = st_next_id t"
  using assms
proof (induction "is" arbitrary: t pool adm)
  case (Cons i "is")
  obtain t1 pool1 adm1 where c: "st_close t pool adm i = (t1, pool1, adm1)" by (metis prod_cases3)
  note C = st_close_inv [OF Cons.prems(1) c]
  have "close_all t1 pool1 adm1 is = (t', pool', adm')" using Cons.prems(2) c by simp
  from Cons.IH [OF C(1) this] C(2,3) show ?case
    by (auto simp: restrict_map_def fun_eq_iff)
qed (simp add: restrict_map_def)

lemma cap_victim_Some:
  assumes "st_wf t" "cap_victim t = Some i"
  shows "\<exists>s. st_get t i = Some s \<and> ss_residency s \<noteq> Resident
    \<and> (\<forall>j s'. st_get t j = Some s' \<longrightarrow> ss_residency s' \<noteq> Resident \<longrightarrow> ss_last_used s \<le> ss_last_used s')"
  using assms(2) st_get_mem [OF assms(1)]
  by (fastforce simp: cap_victim_def dest!: min_by_key_Some)

lemma cap_victim_None: "st_wf t \<Longrightarrow> cap_victim t = None \<Longrightarrow> st_get t i = Some s \<Longrightarrow> ss_residency s = Resident"
  using st_get_mem [of t i s] by (fastforce simp: cap_victim_def filter_empty_conv)

lemma sweep_cap_inv:
  assumes "st_inv t pool adm" "sweep_cap m t pool adm = (t', pool', adm', closed)"
  shows "st_inv t' pool' adm' \<and> st_get t' = (st_get t) |` (- set closed) \<and> st_next_id t' = st_next_id t
    \<and> (\<forall>i \<in> set closed. \<exists>s. st_get t i = Some s \<and> ss_residency s \<noteq> Resident)
    \<and> (length (st_sessions t') \<le> m \<or> (\<forall>i s. st_get t' i = Some s \<longrightarrow> ss_residency s = Resident))"
  using assms
proof (induction m t pool adm arbitrary: closed rule: sweep_cap.induct)
  case (1 m t pool adm)
  note wf = 1(2) [unfolded st_inv_def, THEN conjunct1]
  consider (small) "length (st_sessions t) \<le> m" | (stuck) "m < length (st_sessions t)" "cap_victim t = None"
    | (victim) i where "m < length (st_sessions t)" "cap_victim t = Some i"
    by (cases "cap_victim t") fastforce+
  then show ?case
  proof cases
    case small
    then show ?thesis using 1(2,3) by (auto simp: sweep_cap.simps [of m t] restrict_map_def)
  next
    case stuck
    then show ?thesis using 1(2,3) cap_victim_None [OF wf] by (auto simp: sweep_cap.simps [of m t] restrict_map_def)
  next
    case victim
    obtain t1 pool1 adm1 where c: "st_close t pool adm i = (t1, pool1, adm1)" by (metis prod_cases3)
    obtain closed1 where sw: "sweep_cap m t1 pool1 adm1 = (t', pool', adm', closed1)" and cl: "closed = i # closed1"
      using 1(3) victim c by (auto simp: sweep_cap.simps [of m t] split: prod.splits)
    note C = st_close_inv [OF 1(2) c]
    have "st_inv t' pool' adm' \<and> st_get t' = (st_get t1) |` (- set closed1) \<and> st_next_id t' = st_next_id t1
      \<and> (\<forall>i \<in> set closed1. \<exists>s. st_get t1 i = Some s \<and> ss_residency s \<noteq> Resident)
      \<and> (length (st_sessions t') \<le> m \<or> (\<forall>i s. st_get t' i = Some s \<longrightarrow> ss_residency s = Resident))"
      by (rule 1(1) [OF victim c [symmetric] refl C(1) sw])
    then show ?thesis
      using C(2,3) cap_victim_Some [OF wf victim(2)]
      by (auto simp: cl restrict_map_def fun_eq_iff split: if_splits)
  qed
qed

lemma sweep_expired_split:
  assumes inv: "st_inv t pool adm" and e: "sweep_expired t pool adm now max_idle m = (t', pool', adm', closed)"
  obtains expired capped where "closed = expired @ capped"
    "set expired = {i. \<exists>s. st_get t i = Some s \<and> ss_residency s \<noteq> Resident \<and> max_idle < now - ss_last_used_at s}"
    "st_inv t' pool' adm'" "st_get t' = (st_get t) |` (- set closed)" "st_next_id t' = st_next_id t"
    "\<forall>i \<in> set capped. \<exists>s. st_get t i = Some s \<and> ss_residency s \<noteq> Resident"
    "length (st_sessions t') \<le> m \<or> (\<forall>i s. st_get t' i = Some s \<longrightarrow> ss_residency s = Resident)"
proof -
  define ex where "ex = sort (map fst (filter (\<lambda>(_, s). ss_residency s \<noteq> Resident
      \<and> max_idle < now - ss_last_used_at s) (st_sessions t)))"
  obtain t1 pool1 adm1 where c: "close_all t pool adm ex = (t1, pool1, adm1)" by (metis prod_cases3)
  obtain capped where sw: "sweep_cap m t1 pool1 adm1 = (t', pool', adm', capped)" and cl: "closed = ex @ capped"
    using e c unfolding sweep_expired_def Let_def ex_def [symmetric] by (auto split: prod.splits)
  note C = close_all_inv [OF inv c]
  from C have "st_inv t1 pool1 adm1" by simp
  note S = sweep_cap_inv [OF this sw]
  have wf: "st_wf t" using inv by (simp add: st_inv_def)
  have "set ex = {i. \<exists>s. st_get t i = Some s \<and> ss_residency s \<noteq> Resident \<and> max_idle < now - ss_last_used_at s}"
    by (force simp: ex_def st_get_mem [OF wf])
  moreover have "st_get t' = (st_get t) |` (- set closed)"
    using C S by (auto simp: cl restrict_map_def fun_eq_iff)
  moreover have "\<forall>i \<in> set capped. \<exists>s. st_get t i = Some s \<and> ss_residency s \<noteq> Resident"
    using C S by (fastforce simp: restrict_map_def split: if_splits)
  moreover have "st_inv t' pool' adm'" "st_next_id t' = st_next_id t"
    "length (st_sessions t') \<le> m \<or> (\<forall>i s. st_get t' i = Some s \<longrightarrow> ss_residency s = Resident)"
    using C S by metis+
  ultimately show ?thesis by (intro that [OF cl])
qed

section \<open>The state machine\<close>

type_synonym serving = "session_table \<times> slot_pool \<times> admission_controller"

inductive session_step :: "serving \<Rightarrow> serving \<Rightarrow> bool" where
  ses_open: "st_open t pool adm c now = (t', pool', adm', r) \<Longrightarrow> session_step (t, pool, adm) (t', pool', adm')"
| ses_close: "st_close t pool adm i = (t', pool', adm') \<Longrightarrow> session_step (t, pool, adm) (t', pool', adm')"
| ses_readmit: "readmit t adm i = (t', adm', r) \<Longrightarrow> session_step (t, pool, adm) (t', pool, adm')"
| ses_turn: "begin_turn t pool i prompt now = (t', pool', r) \<Longrightarrow> session_step (t, pool, adm) (t', pool', adm)"
| ses_touch: "session_step (t, pool, adm) (touch t i now, pool, adm)"
| ses_resize: "resize_grant t adm i c = (t', adm', r) \<Longrightarrow> session_step (t, pool, adm) (t', pool, adm')"
| ses_swap: "mark_swapped t pool adm i = (t', pool', adm') \<Longrightarrow> session_step (t, pool, adm) (t', pool', adm')"
| ses_cold: "mark_cold t pool adm i = (t', pool', adm') \<Longrightarrow> session_step (t, pool, adm) (t', pool', adm')"
| ses_reopen: "reopen_cold t pool adm i c = (t', pool', adm', r) \<Longrightarrow> session_step (t, pool, adm) (t', pool', adm')"
| ses_sweep: "sweep_expired t pool adm now idle m = (t', pool', adm', closed)
    \<Longrightarrow> session_step (t, pool, adm) (t', pool', adm')"
| ses_spare_slot: "sp_acquire pool = (pool', got) \<Longrightarrow> session_step (t, pool, adm) (t, pool', adm)"
| ses_spare_release: "slot \<in> slots_in_use pool \<Longrightarrow> slot \<notin> ran (slot_map t) \<Longrightarrow> sp_release pool slot = (pool', r)
    \<Longrightarrow> session_step (t, pool, adm) (t, pool', adm)"
| ses_resident: "slot_map t i = None \<Longrightarrow> slot \<in> slots_in_use pool \<Longrightarrow> slot \<notin> ran (slot_map t)
    \<Longrightarrow> session_step (t, pool, adm) (mark_resident t i slot n now, pool, adm)"
| ses_length: "set_seq_len pool slot n = (pool', r) \<Longrightarrow> session_step (t, pool, adm) (t, pool', adm)"
| ses_edit: "st_get t i = Some s \<Longrightarrow> ss_slot s' = ss_slot s \<Longrightarrow> ss_admitted s' = ss_admitted s
    \<Longrightarrow> ss_residency s' = ss_residency s \<Longrightarrow> ss_last_used s' = ss_last_used s
    \<Longrightarrow> session_step (t, pool, adm) (st_put t i s', pool, adm)"

inductive_cases session_stepE: "session_step (t, pool, adm) (t', pool', adm')"

lemmas session_step_cases = session_stepE [consumes 1,
  case_names opens close readmit turn touch resize swap cold reopen sweep spare_slot spare_release resident length edit]

definition st_invs :: "serving \<Rightarrow> bool" where
  "st_invs s = (case s of (t, pool, adm) \<Rightarrow> st_inv t pool adm)"

text \<open>A session id below the next one either keeps its session or loses it for good.\<close>

definition ids_kept :: "session_table \<Rightarrow> session_table \<Rightarrow> bool" where
  "ids_kept t t' \<longleftrightarrow> st_next_id t \<le> st_next_id t' \<and> (\<forall>i < st_next_id t. st_get t i = None \<longrightarrow> st_get t' i = None)"

lemma ids_kept_trans: "ids_kept t t' \<Longrightarrow> ids_kept t' t'' \<Longrightarrow> ids_kept t t''"
  by (auto simp: ids_kept_def)

lemma st_get_updates:
  "st_get (t\<lparr>st_clock := c, st_sessions := AList.update i s (st_sessions t)\<rparr>) = (st_get t)(i \<mapsto> s)"
  by (simp add: st_get_def AList.update_conv' fun_eq_iff)

lemma ids_kept_small:
  "ids_kept t t" "ids_kept t (touch t i now)" "ids_kept t (mark_resident t i slot n now)"
  "st_get t i = Some s \<Longrightarrow> ids_kept t (st_put t i s')"
  "readmit t adm i = (t', adm', r) \<Longrightarrow> ids_kept t t'"
  "resize_grant t adm i c = (t', adm', rg) \<Longrightarrow> ids_kept t t'"
  "mark_swapped t pool adm i = (t', pool', adm') \<Longrightarrow> ids_kept t t'"
  "mark_cold t pool adm i = (t', pool', adm') \<Longrightarrow> ids_kept t t'"
  "begin_turn t pool i prompt now = (t', pool', rt) \<Longrightarrow> ids_kept t t'"
  by (auto simp: ids_kept_def st_get_updates touch_def mark_resident_def readmit_def resize_grant_def mark_swapped_def
      mark_cold_def begin_turn_def Let_def split: option.splits prod.splits sum.splits if_splits)

lemma session_step_ok:
  assumes "session_step (t, pool, adm) (t', pool', adm')" "st_inv t pool adm"
  shows "st_inv t' pool' adm' \<and> ids_kept t t'"
  using assms(1)
proof (cases rule: session_step_cases)
  case (opens c now r)
  note O = st_open_cases [OF assms(2) opens]
  have "st_next_id t' = st_next_id t + 1" if "r = Ok i" for i
    using opens that by (auto simp: st_open_def Let_def split: prod.splits sum.splits option.splits)
  with O assms(2) show ?thesis by (cases r) (auto simp: ids_kept_def)
next
  case (reopen i c r)
  note R = reopen_cold_cases [OF assms(2) reopen]
  then show ?thesis using assms(2) by (cases r) (auto simp: ids_kept_def)
next
  case (close i)
  then show ?thesis using st_close_inv [OF assms(2)] by (auto simp: ids_kept_def)
next
  case (readmit i r)
  then show ?thesis using readmit_inv(1) [OF assms(2)] ids_kept_small(5) by blast
next
  case (turn i prompt now r)
  then show ?thesis using begin_turn_cases [OF assms(2)] ids_kept_small(9) by blast
next
  case (touch i now)
  then show ?thesis using touch_inv [OF assms(2)] ids_kept_small(2) by blast
next
  case (resize i c r)
  then show ?thesis using resize_grant_inv [OF assms(2)] ids_kept_small(6) by blast
next
  case (swap i)
  then show ?thesis using mark_swapped_inv [OF assms(2)] ids_kept_small(7) by blast
next
  case (cold i)
  then show ?thesis using mark_cold_inv [OF assms(2)] ids_kept_small(8) by blast
next
  case (sweep now idle m closed)
  show ?thesis
    by (rule sweep_expired_split [OF assms(2) sweep]) (simp add: ids_kept_def restrict_map_def)
next
  case (spare_slot got)
  then show ?thesis
    using assms(2) sp.acq_None [of pool pool'] sp.holds_acquire_spare [of pool "slot_map t" pool'] ids_kept_small(1)
    by (cases got) (auto simp: st_inv_def)
next
  case (spare_release slot r)
  then show ?thesis
    using assms(2) sp.holds_release_spare [of pool "slot_map t" slot] ids_kept_small(1) by (auto simp: st_inv_def)
next
  case (resident i slot n now)
  then show ?thesis using mark_resident_inv [OF assms(2)] ids_kept_small(3) by blast
next
  case (length slot n r)
  have "sp_wf pool" using assms(2) by (simp add: st_inv_def sp.holds_def)
  from set_seq_len_slots [OF this] length assms(2) ids_kept_small(1) show ?thesis
    using sp.holds_transfer [of pool "slot_map t" pool'] by (simp add: st_inv_def)
next
  case (edit i s s')
  then show ?thesis using st_inv_put_same [OF assms(2)] ids_kept_small(4) by blast
qed

lemma session_steps_ok:
  assumes "session_step\<^sup>*\<^sup>* s s'" "st_invs s"
  shows "st_invs s' \<and> ids_kept (fst s) (fst s')"
  using assms(1)
proof (induction rule: rtranclp_induct)
  case base
  then show ?case using assms(2) ids_kept_small(1) by simp
next
  case (step y z)
  obtain t pool adm where y: "y = (t, pool, adm)" by (metis prod_cases3)
  obtain t' pool' adm' where z: "z = (t', pool', adm')" by (metis prod_cases3)
  show ?case
    using session_step_ok [of t pool adm t' pool' adm'] step y z ids_kept_trans by (auto simp: st_invs_def)
qed

text \<open>The states a server reaches from an empty table, a new pool in either mode, and a new controller.\<close>

definition new_pool :: "host_env \<Rightarrow> nat \<Rightarrow> nat \<Rightarrow> nat \<Rightarrow> nat \<Rightarrow> nat option \<Rightarrow> slot_error + slot_pool" where
  "new_pool env n cap k v np =
     (case np of None \<Rightarrow> sp_new_with_strides env n cap k v | Some p \<Rightarrow> sp_new_paged_with_strides env n cap k v p)"

definition session_reachable ::
  "host_env \<Rightarrow> nat \<Rightarrow> nat \<Rightarrow> nat \<Rightarrow> nat \<Rightarrow> nat option \<Rightarrow> model_footprint \<Rightarrow> nat \<Rightarrow> serving \<Rightarrow> bool" where
  "session_reachable env n cap k v np f budget s \<longleftrightarrow> budget \<le> u64_max
     \<and> (\<exists>pool. new_pool env n cap k v np = Ok pool \<and> session_step\<^sup>*\<^sup>* (st_default, pool, adm_new f budget) s)"

lemma new_pool_wf: "new_pool env n cap k v np = Ok pool \<Longrightarrow> sp_wf pool"
proof (cases np)
  case None
  assume "new_pool env n cap k v np = Ok pool"
  then show ?thesis
    by (auto simp: None new_pool_def sp_new_with_strides_def sp_wf_def Let_def split: if_splits option.splits sum.splits)
next
  case (Some p)
  assume "new_pool env n cap k v np = Ok pool"
  then show ?thesis using new_paged_start(1) by (simp add: Some new_pool_def)
qed

lemma session_reachable_inv:
  assumes "session_reachable env n cap k v np f budget (t, pool, adm)"
  shows "st_inv t pool adm"
proof -
  obtain pool0 where 0: "new_pool env n cap k v np = Ok pool0" "budget \<le> u64_max"
    "session_step\<^sup>*\<^sup>* (st_default, pool0, adm_new f budget) (t, pool, adm)"
    using assms by (auto simp: session_reachable_def)
  have "st_inv st_default pool0 (adm_new f budget)"
    by (rule st_inv_default [OF new_pool_wf [OF 0(1)] adm_inv_new [OF 0(2)]]) (simp add: adm_new_def)
  then show ?thesis using session_steps_ok [OF 0(3)] by (simp add: st_invs_def)
qed

section \<open>A concrete server\<close>

declare st_default_def [run] st_get_def [run] st_open_def [run] give_slot_def [run] st_close_def [run]
  admit_def [run] adm_new_def [run] used_bytes_def [run] adm_release_def [run] release_grant_def [run]
  mark_swapped_def [run] mark_cold_def [run] plan_turn_def [run] begin_turn_def [run] as_usize_def [run]
  lru_idle_victim_def [run] find_continuation_def [run] close_all.simps [run] cap_victim_def [run]
  sweep_expired_def [run] AList.delete_eq [run] new_pool_def [run]

text \<open>Two slots over four pages; two sessions are opened, and the second is parked.\<close>

definition demo_pool :: slot_pool where
  "demo_pool = projr (sp_new_paged_with_strides demo_env 2 256 1 1 4)"

definition demo_adm :: admission_controller where
  "demo_adm = adm_new \<lparr>mf_weights_bytes = 10, mf_kv_bytes_per_token = 1, mf_pinned_host_bytes = 0\<rparr> 1000"

definition demo_one :: serving where
  "demo_one = (case st_open st_default demo_pool demo_adm 256 5 of (t, p, a, _) \<Rightarrow> (t, p, a))"

definition demo_two :: serving where
  "demo_two = (case demo_one of (t, p, a) \<Rightarrow> case st_open t p a 256 6 of (t, p, a, _) \<Rightarrow> (t, p, a))"

definition demo_parked :: serving where
  "demo_parked = (case demo_two of (t, p, a) \<Rightarrow> mark_swapped t p a 1)"

lemma demo_steps:
  "session_step (st_default, demo_pool, demo_adm) demo_one" "session_step demo_one demo_two"
  "session_step demo_two demo_parked"
proof -
  show "session_step (st_default, demo_pool, demo_adm) demo_one"
    unfolding demo_one_def by (simp split: prod.splits) (blast intro: ses_open)
  obtain t p a where d: "demo_one = (t, p, a)" by (metis prod_cases3)
  then show "session_step demo_one demo_two"
    unfolding demo_two_def d by (auto split: prod.splits intro: ses_open)
  show "session_step demo_two demo_parked"
    unfolding demo_parked_def by (simp split: prod.splits) (metis ses_swap prod_cases3)
qed

abbreviation demo_reach :: "serving \<Rightarrow> bool" where
  "demo_reach \<equiv> session_reachable demo_env 2 256 1 1 (Some 4)
     \<lparr>mf_weights_bytes = 10, mf_kv_bytes_per_token = 1, mf_pinned_host_bytes = 0\<rparr> 1000"

lemma demo_reachable_states: "demo_reach demo_one" "demo_reach demo_two" "demo_reach demo_parked"
proof -
  have "new_pool demo_env 2 256 1 1 (Some 4) = Ok demo_pool" by (simp add: demo_pool_def run)
  then show "demo_reach demo_one" "demo_reach demo_two" "demo_reach demo_parked"
    using demo_steps unfolding session_reachable_def demo_adm_def
    by (auto simp: u64_max_def intro: rtranclp.rtrancl_into_rtrancl)
qed

lemma demo_parked_eval:
  "map (\<lambda>(i, s). (i, ss_slot s, ss_admitted s, ss_residency s)) (st_sessions (fst demo_parked))
     = [(0, Some 0, True, Resident), (1, None, False, Swapped)]"
  "ac_admitted (snd (snd demo_parked)) = [(0, 256)]" "sp_in_use (fst (snd demo_parked)) = [True, False]"
  by (simp_all add: demo_parked_def demo_two_def demo_one_def demo_pool_def demo_adm_def run)

section \<open>What a server can rely on\<close>

text \<open>
  C2: In every reachable state of the server, in either pool mode: a session is Resident exactly when it
  holds a slot, that slot is in use, and no two sessions hold the same one; the admission controller
  lists exactly the sessions that hold a grant, each once; ids are below the next id.
\<close>

theorem sessions_slots_grants:
  assumes "session_reachable env n cap k v np f budget (t, pool, adm)"
  shows "(\<forall>i s. st_get t i = Some s \<longrightarrow> i < st_next_id t \<and> (ss_residency s = Resident \<longleftrightarrow> ss_slot s \<noteq> None))
    \<and> (\<forall>i s sl. st_get t i = Some s \<longrightarrow> ss_slot s = Some sl \<longrightarrow> sl < length (sp_descs pool) \<and> sp_in_use pool ! sl)
    \<and> (\<forall>i j s s' sl. st_get t i = Some s \<longrightarrow> ss_slot s = Some sl \<longrightarrow> st_get t j = Some s' \<longrightarrow> ss_slot s' = Some sl \<longrightarrow> i = j)
    \<and> distinct (map fst (ac_admitted adm))
    \<and> set (map fst (ac_admitted adm)) = {i. is_admitted t i}"
proof -
  note inv = session_reachable_inv [OF assms, unfolded st_inv_def]
  have sm: "st_get t i = Some s \<Longrightarrow> ss_slot s = Some sl \<Longrightarrow> slot_map t i = Some sl" for i s sl
    by (simp add: slot_map_def)
  have h: "adm_holders adm = mset_set (admitted_ids t)" "finite (admitted_ids t)"
    using inv by (simp_all add: adm.books_def)
  have ids: "{i. is_admitted t i} = admitted_ids t"
    by (auto simp: is_admitted_def admitted_ids_def split: option.splits)
  have d: "mset (map fst (ac_admitted adm)) = mset_set (admitted_ids t)"
    using h(1) unfolding adm_holders_def .
  have "set (map fst (ac_admitted adm)) = admitted_ids t"
    using arg_cong [OF d, of set_mset] h(2) by (simp only: set_mset_mset finite_set_mset_mset_set)
  moreover have "distinct (map fst (ac_admitted adm))"
    using d h(2) unfolding distinct_count_atmost_1 by (metis calculation count_mset_0_iff count_mset_set(1,3))
  moreover have "sl \<in> slots_in_use pool" if "st_get t i = Some s" "ss_slot s = Some sl" for i s sl
    using sp.holds_used [of pool "slot_map t" i sl] sm [OF that] inv by blast
  ultimately show ?thesis
    using inv sp.holds_distinct [of pool "slot_map t"] sm unfolding ids st_wf_def
    by (auto simp: slots_in_use_def)
qed

theorem sessions_slots_grants_witness:
  "case demo_parked of (t, pool, adm) \<Rightarrow>
     sp_in_use pool ! 0 \<and> set (map fst (ac_admitted adm)) = {i. is_admitted t i} \<and> \<not> is_admitted t 1"
proof -
  obtain t pool adm where d: "demo_parked = (t, pool, adm)" by (metis prod_cases3)
  have r: "demo_reach (t, pool, adm)" using demo_reachable_states(3) d by simp
  have "sp_in_use pool ! 0" "ac_admitted adm = [(0, 256)]" using demo_parked_eval(2,3) unfolding d by simp_all
  then show ?thesis using sessions_slots_grants [OF r] by (auto simp: d)
qed

text \<open>
  C20: A session id is never reused: once an id below the next id resolves to no session, it resolves to
  none in every later state, whatever is opened, closed, swapped or swept in between.
\<close>

theorem closed_id_stays_closed:
  assumes "session_reachable env n cap k v np f budget (t, pool, adm)"
    and "session_step\<^sup>*\<^sup>* (t, pool, adm) (t', pool', adm')" "i < st_next_id t" "st_get t i = None"
  shows "st_get t' i = None"
  using session_steps_ok [OF assms(2)] session_reachable_inv [OF assms(1)] assms(3,4)
  by (simp add: st_invs_def ids_kept_def)



lemma close_closes: "st_close t pool adm i = (t', pool', adm') \<Longrightarrow> st_get t' i = None \<and> st_next_id t' = st_next_id t"
  by (auto simp: st_close_def split: option.splits)

theorem closed_id_stays_closed_witness:
  "case st_close (fst demo_two) (fst (snd demo_two)) (snd (snd demo_two)) 1 of (t, pool, adm) \<Rightarrow>
     st_get t 1 = None \<and> (case st_open t pool adm 128 7 of (t', _, _, r) \<Rightarrow> st_get t' 1 = None)"
proof -
  obtain t pool adm where c: "st_close (fst demo_two) (fst (snd demo_two)) (snd (snd demo_two)) 1 = (t, pool, adm)"
    by (metis prod_cases3)
  obtain t' pool' adm' r where o: "st_open t pool adm 128 7 = (t', pool', adm', r)" by (metis prod_cases4)
  have "session_step demo_two (t, pool, adm)" using ses_close [OF c] by simp
  then have r: "demo_reach (t, pool, adm)"
    using demo_reachable_states(2) by (auto simp: session_reachable_def intro: rtranclp.rtrancl_into_rtrancl)
  have "st_next_id (fst demo_two) = 2"
    by (simp add: demo_two_def demo_one_def demo_pool_def demo_adm_def run)
  then have n: "1 < st_next_id t" "st_get t 1 = None"
    using close_closes [OF c] by simp_all
  have "session_step\<^sup>*\<^sup>* (t, pool, adm) (t', pool', adm')" using ses_open [OF o] by blast
  from closed_id_stays_closed [OF r this n] show ?thesis using c o n by simp
qed





text \<open>
  C21: The idle sweep closes exactly the sessions it reports, never a Resident one, and every parked session
  that was idle too long; what it leaves is within the cap unless only Resident sessions are left. The
  loop that enforces the cap ends, and slots and grants stay balanced.
\<close>

theorem sweep_spares_residents:
  assumes "session_reachable env n cap k v np f budget (t, pool, adm)"
    and "sweep_expired t pool adm now max_idle m = (t', pool', adm', closed)"
  shows "st_inv t' pool' adm' \<and> st_get t' = (st_get t) |` (- set closed)
    \<and> (\<forall>i \<in> set closed. \<exists>s. st_get t i = Some s \<and> ss_residency s \<noteq> Resident)
    \<and> (\<forall>i s. st_get t' i = Some s \<longrightarrow> ss_residency s \<noteq> Resident \<longrightarrow> now - ss_last_used_at s \<le> max_idle)
    \<and> (active_count t' \<le> m \<or> resident_count t' = active_count t')"
proof (rule sweep_expired_split [OF session_reachable_inv [OF assms(1)] assms(2)])
  fix expired capped
  assume c: "closed = expired @ capped"
    and ex: "set expired = {i. \<exists>s. st_get t i = Some s \<and> ss_residency s \<noteq> Resident \<and> max_idle < now - ss_last_used_at s}"
    and inv: "st_inv t' pool' adm'" and g: "st_get t' = (st_get t) |` (- set closed)"
    and cp: "\<forall>i \<in> set capped. \<exists>s. st_get t i = Some s \<and> ss_residency s \<noteq> Resident"
    and len: "length (st_sessions t') \<le> m \<or> (\<forall>i s. st_get t' i = Some s \<longrightarrow> ss_residency s = Resident)"
  have wf: "st_wf t'" using inv by (simp add: st_inv_def)
  have "now - ss_last_used_at s \<le> max_idle" if "st_get t' i = Some s" "ss_residency s \<noteq> Resident" for i s
    using that ex by (auto simp: g c restrict_map_def not_less split: if_splits)
  moreover have "resident_count t' = active_count t'" if "\<forall>i s. st_get t' i = Some s \<longrightarrow> ss_residency s = Resident"
  proof -
    have "ss_slot s \<noteq> None" if "(i, s) \<in> set (st_sessions t')" for i s
      using that \<open>\<forall>i s. _ i s\<close> wf st_get_mem [OF wf, of i s] unfolding st_wf_def by blast
    then have "filter (\<lambda>(_, s). ss_slot s \<noteq> None) (st_sessions t') = st_sessions t'"
      by (intro filter_True) auto
    then show ?thesis by (simp add: resident_count_def active_count_def)
  qed
  moreover have "\<forall>i \<in> set closed. \<exists>s. st_get t i = Some s \<and> ss_residency s \<noteq> Resident"
    using cp unfolding c set_append ex by blast
  ultimately show ?thesis using inv g len by (auto simp: active_count_def)
qed

theorem sweep_spares_residents_witness:
  "case demo_parked of (t, pool, adm) \<Rightarrow> case sweep_expired t pool adm 1000 60 10 of (t', pool', adm', closed) \<Rightarrow>
     st_inv t' pool' adm' \<and> 0 \<notin> set closed"
proof -
  obtain t pool adm where d: "demo_parked = (t, pool, adm)" by (metis prod_cases3)
  obtain t' pool' adm' closed where e: "sweep_expired t pool adm 1000 60 10 = (t', pool', adm', closed)"
    by (metis prod_cases4)
  have r: "demo_reach (t, pool, adm)" using demo_reachable_states(3) d by simp
  have "map_option ss_residency (st_get (fst demo_parked) 0) = Some Resident"
    by (simp add: demo_parked_def demo_two_def demo_one_def demo_pool_def demo_adm_def run)
  then have "\<exists>s. st_get t 0 = Some s \<and> ss_residency s = Resident" unfolding d by auto
  then show ?thesis using sweep_spares_residents [OF r e] by (auto simp: d e)
qed

text \<open>
  The cap of the sweep counts every session, Resident ones included: with one Resident and one parked
  session that is not idle, a cap of one closes the parked session although only one session is parked.
\<close>

theorem sweep_cap_counts_residents:
  "case demo_parked of (t, pool, adm) \<Rightarrow> case sweep_expired t pool adm 6 60 1 of (t', _, _, closed) \<Rightarrow>
     length (filter (\<lambda>(_, s). ss_residency s \<noteq> Resident) (st_sessions t)) = 1 \<and> closed = [1] \<and> active_count t' = 1"
  by (simp add: demo_parked_def demo_two_def demo_one_def demo_pool_def demo_adm_def active_count_def run
      sweep_cap.simps)

text \<open>
  The victim of an eviction holds a slot, is not busy, and was used strictly before every other
  candidate; there is none exactly when every session holding a slot is busy.
\<close>

theorem lru_victim_is_oldest_idle:
  assumes "session_reachable env n cap k v np f budget (t, pool, adm)"
  shows "case lru_idle_victim t busy of
      None \<Rightarrow> \<forall>i s. st_get t i = Some s \<longrightarrow> ss_slot s \<noteq> None \<longrightarrow> i \<in> set busy
    | Some i \<Rightarrow> i \<notin> set busy \<and> (\<exists>s. st_get t i = Some s \<and> ss_slot s \<noteq> None
        \<and> (\<forall>j s'. st_get t j = Some s' \<longrightarrow> j \<noteq> i \<longrightarrow> ss_slot s' \<noteq> None \<longrightarrow> j \<notin> set busy
             \<longrightarrow> ss_last_used s < ss_last_used s'))"
proof -
  have wf: "st_wf t" using session_reachable_inv [OF assms] by (simp add: st_inv_def)
  note mem = st_get_mem [OF wf]
  let ?c = "filter (\<lambda>(i, s). ss_slot s \<noteq> None \<and> i \<notin> set busy) (st_sessions t)"
  show ?thesis
  proof (cases "min_by_key (\<lambda>(_, s). ss_last_used s) ?c")
    case None
    then show ?thesis using mem by (fastforce simp: lru_idle_victim_def filter_empty_conv)
  next
    case (Some p)
    obtain i s where p: "p = (i, s)" by fastforce
    note m = min_by_key_Some [OF Some]
    have i: "st_get t i = Some s" "ss_slot s \<noteq> None" "i \<notin> set busy" using m mem by (auto simp: p)
    have "ss_last_used s < ss_last_used s'"
      if "st_get t j = Some s'" "j \<noteq> i" "ss_slot s' \<noteq> None" "j \<notin> set busy" for j s'
    proof -
      have "ss_last_used s \<le> ss_last_used s'" using m that mem by (fastforce simp: p)
      moreover have "ss_last_used s \<noteq> ss_last_used s'"
        using wf that i unfolding st_wf_def stamps_ok_def by blast
      ultimately show ?thesis by simp
    qed
    then show ?thesis using i Some by (auto simp: lru_idle_victim_def p)
  qed
qed

theorem lru_victim_is_oldest_idle_witness:
  "case demo_two of (t, pool, adm) \<Rightarrow> lru_idle_victim t [] = Some 0 \<and> 0 \<notin> set ([] :: nat list)"
proof -
  obtain t pool adm where d: "demo_two = (t, pool, adm)" by (metis prod_cases3)
  have "demo_reach (t, pool, adm)" using demo_reachable_states(2) d by simp
  from lru_victim_is_oldest_idle [OF this, of "[]"]
  have "lru_idle_victim t [] \<noteq> None \<Longrightarrow> ?thesis \<or> lru_idle_victim t [] \<noteq> Some 0" by (auto simp: d)
  moreover have "lru_idle_victim (fst demo_two) [] = Some 0"
    by (simp add: demo_two_def demo_one_def demo_pool_def demo_adm_def run)
  ultimately show ?thesis unfolding d by simp
qed

end
