(* ===== verification/Kv_Slots_Props.thy ===== *)
theory Kv_Slots_Props
  imports Kv_Slots
begin

text \<open>
  What the kernels are launched with: the tiles cut the query rows of every slot into disjoint blocks, and
  a batch that passes the VMM gate reads no row outside the mapped positions of a live slot.
\<close>

section \<open>Tiles\<close>

lemma tile_spec_small:
  assumes "x \<in> set (tile_spec br 0 ms 0)" "length ms \<le> i32_max" "sum_list ms \<le> i32_max" "0 < br"
  shows "fst x \<le> i32_max" "fst (snd x) \<le> i32_max" "snd (snd x) \<le> i32_max"
proof -
  obtain i j where ij: "i < length ms" "j < div_ceil (ms ! i) br" and x: "x = (i, j * br, sum_list (take i ms) + j * br)"
    using assms(1) by (auto simp: set_tile_spec)
  have "j * br < ms ! i" using ij(2) div_ceil_le_iff [OF assms(4), of "ms ! i" j] by simp
  moreover have "sum_list (take i ms) + ms ! i \<le> sum_list ms"
    using ij(1) by (subst (3) id_take_nth_drop [OF ij(1)]) simp
  ultimately show "fst x \<le> i32_max" "fst (snd x) \<le> i32_max" "snd (snd x) \<le> i32_max"
    using x ij(1) assms(2,3) by auto
qed

text \<open>The block of rows of length \<open>br\<close> that holds row \<open>r\<close> starts at the multiple of \<open>br\<close> below it, and at no other.\<close>

lemma block_of_row:
  fixes br r j :: nat
  assumes "0 < br"
  shows "j * br \<le> r \<and> r < j * br + br \<longleftrightarrow> j = r div br"
proof
  assume "j * br \<le> r \<and> r < j * br + br"
  then show "j = r div br" by (intro div_nat_eqI [symmetric]) (simp_all add: mult.commute)
next
  assume j: "j = r div br"
  have "r div br * br + r mod br = r" "r mod br < br" using assms by simp_all
  then show "j * br \<le> r \<and> r < j * br + br" unfolding j by linarith
qed

text \<open>
  C27: The tile list covers every query row exactly once: for every slot and every row of it there is exactly
  one tile of that slot whose block of \<^verbatim>\<open>br\<close> rows holds it, and the tile's base is the row's position in the
  flat batch.
\<close>

theorem build_tiles_partition:
  assumes "0 < br" "length ms \<le> i32_max" "total_rows ms \<le> i32_max"
    and "build_tiles ms br = Some (ts, r0, qb)" and "i < length ms" "r < ms ! i"
  shows "length r0 = length ts \<and> length qb = length ts
    \<and> (\<exists>!t. t < length ts \<and> ts ! t = int i \<and> r0 ! t \<le> int r \<and> int r < r0 ! t + int br)
    \<and> (\<forall>t < length ts. ts ! t = int i \<longrightarrow> qb ! t = int (sum_list (take i ms)) + r0 ! t)"
proof -
  let ?s = "tile_spec br 0 ms 0"
  have small: "sum_list ms \<le> i32_max" using assms(3) by (simp add: total_rows_def)
  have eq: "ts = map (\<lambda>x. int (fst x)) ?s" "r0 = map (\<lambda>x. int (fst (snd x))) ?s" "qb = map (\<lambda>x. int (snd (snd x))) ?s"
    using assms(4,1) tile_spec_small [OF _ assms(2) small assms(1)]
    by (auto simp: build_tiles_def build_tiles_from_eq [OF assms(1)])
  have shape: "\<exists>j. ?s ! t = (i', j * br, sum_list (take i' ms) + j * br) \<and> j < div_ceil (ms ! i') br"
    if "t < length ?s" "fst (?s ! t) = i'" for t i'
    using that nth_mem [OF that(1)] by (auto simp: set_tile_spec)
  have "r div br < div_ceil (ms ! i) br"
    using assms(6) div_ceil_le_iff [OF assms(1), of "ms ! i" "r div br"] div_times_less_eq_dividend [of r br]
    by linarith
  then have "(i, r div br * br, sum_list (take i ms) + r div br * br) \<in> set ?s"
    using assms(5) unfolding set_tile_spec by auto
  then obtain t where t: "t < length ?s" "?s ! t = (i, r div br * br, sum_list (take i ms) + r div br * br)"
    by (auto simp: in_set_conv_nth)
  have row: "fst (snd (?s ! t')) = r div br * br"
    if c: "t' < length ?s" "fst (?s ! t') = i" "fst (snd (?s ! t')) \<le> r" "r < fst (snd (?s ! t')) + br" for t'
  proof -
    obtain j where j: "?s ! t' = (i, j * br, sum_list (take i ms) + j * br)" using shape [OF c(1,2)] by blast
    then show ?thesis using c(3,4) block_of_row [OF assms(1), of j r] by simp
  qed
  have "\<exists>!t. t < length ts \<and> ts ! t = int i \<and> r0 ! t \<le> int r \<and> int r < r0 ! t + int br"
  proof (rule ex1I [of _ t])
    show "t < length ts \<and> ts ! t = int i \<and> r0 ! t \<le> int r \<and> int r < r0 ! t + int br"
      using t block_of_row [OF assms(1), of "r div br" r] unfolding eq by (simp flip: of_nat_add of_nat_mult)
  next
    fix t' assume "t' < length ts \<and> ts ! t' = int i \<and> r0 ! t' \<le> int r \<and> int r < r0 ! t' + int br"
    then have "t' < length ?s" "fst (?s ! t') = i" "fst (snd (?s ! t')) \<le> r" "r < fst (snd (?s ! t')) + br"
      unfolding eq by (auto simp flip: of_nat_add)
    with row [OF this] show "t' = t" using tile_spec_inj [OF assms(1) _ t(1), of t'] t(2) by simp
  qed
  moreover have "qb ! t = int (sum_list (take i ms)) + r0 ! t" if c: "t < length ts" "ts ! t = int i" for t
  proof -
    have "t < length ?s" "fst (?s ! t) = i" using c by (auto simp: eq)
    then obtain j where "?s ! t = (i, j * br, sum_list (take i ms) + j * br)" using shape by blast
    then show ?thesis using c(1) by (simp add: eq)
  qed
  ultimately show ?thesis unfolding eq by simp
qed

theorem build_tiles_partition_witness:
  "build_tiles [5, 3] 2 = Some ([0, 0, 0, 1, 1], [0, 2, 4, 0, 2], [0, 2, 4, 5, 7])
   \<and> (\<exists>!t. t < length [0, 0, 0, 1, 1 :: int] \<and> [0, 0, 0, 1, 1] ! t = int 1 \<and> [0, 2, 4, 0, 2] ! t \<le> int 2 \<and> int 2 < [0, 2, 4, 0, 2] ! t + int 2)"
proof -
  have e: "build_tiles [5, 3] 2 = Some ([0, 0, 0, 1, 1], [0, 2, 4, 0, 2], [0, 2, 4, 5, 7])"
    by (simp add: build_tiles_def tile_rows.simps as_i32_def i32_max_def)
  from build_tiles_partition [OF _ _ _ e, of 1 2] have
    "\<exists>!t. t < length [0, 0, 0, 1, 1 :: int] \<and> [0, 0, 0, 1, 1] ! t = int 1 \<and> [0, 2, 4, 0, 2] ! t \<le> int 2 \<and> int 2 < [0, 2, 4, 0, 2] ! t + int 2"
    by (simp add: total_rows_def i32_max_def del: One_nat_def)
  then show ?thesis using e by blast
qed

section \<open>The VMM gate\<close>

lemma check_position_Ok:
  "check_position d pos = Ok () \<longleftrightarrow> vd_k_base d \<noteq> 0 \<and> vd_v_base d \<noteq> 0 \<and> vd_owner_generation d \<noteq> 0
     \<and> vd_mapped_positions d \<le> vd_logical_bound d \<and> 0 \<le> pos \<and> pos < int (vd_mapped_positions d)"
  by (auto simp: check_position_def)

definition row_safe :: "vmm_kv_slot_desc list \<Rightarrow> int \<Rightarrow> int \<Rightarrow> nat \<Rightarrow> bool" where
  "row_safe descs slot pos generation \<longleftrightarrow> 0 \<le> slot \<and> slot < int (length descs)
     \<and> (let d = descs ! nat slot in
         vd_k_base d \<noteq> 0 \<and> vd_v_base d \<noteq> 0 \<and> generation \<noteq> 0 \<and> vd_owner_generation d = generation
         \<and> 0 \<le> pos \<and> pos < int (vd_mapped_positions d) \<and> vd_mapped_positions d \<le> vd_logical_bound d)"

lemma validate_rows_from_Ok:
  assumes "length ss = length ps" "length ps = length gs"
  shows "validate_vmm_rows_from descs row ss ps gs = Ok ()
    \<longleftrightarrow> (\<forall>j < length ss. row_safe descs (ss ! j) (ps ! j) (gs ! j))"
  using assms
proof (induction ss ps gs arbitrary: row rule: list_induct3)
  case (Cons slot ss pos ps generation gs)
  have "validate_vmm_rows_from descs row (slot # ss) (pos # ps) (generation # gs) = Ok ()
     \<longleftrightarrow> row_safe descs slot pos generation \<and> validate_vmm_rows_from descs (row + 1) ss ps gs = Ok ()"
    using check_position_Ok [of "descs ! nat slot" pos]
    by (cases "check_position (descs ! nat slot) pos") (auto simp: row_safe_def vec_get_def Let_def nat_less_iff)
  then show ?case using Cons.IH [of "row + 1"] by (simp add: All_less_Suc2 del: validate_vmm_rows_from.simps)
qed simp

text \<open>
  C28: The gate passes a batch exactly when the three row arrays have one length and every row names an
  existing slot that is mapped, is owned by the row's generation, and has the row's position inside its
  mapped positions, themselves within the slot's logical bound.
\<close>

theorem validate_vmm_rows_exact:
  "validate_vmm_rows descs row_slot positions gens = Ok ()
   \<longleftrightarrow> length row_slot = length positions \<and> length row_slot = length gens
     \<and> (\<forall>j < length row_slot. row_safe descs (row_slot ! j) (positions ! j) (gens ! j))"
proof (cases "length row_slot = length positions \<and> length positions = length gens")
  case True
  then show ?thesis using validate_rows_from_Ok [of row_slot positions gens descs 0] by (simp add: validate_vmm_rows_def)
next
  case False
  then have "length row_slot \<noteq> length positions \<or> length row_slot \<noteq> length gens" by linarith
  then show ?thesis by (auto simp: validate_vmm_rows_def)
qed

theorem validate_vmm_rows_exact_witness:
  "row_safe [vmm_masked, \<lparr>vd_k_base = 64, vd_v_base = 128, vd_mapped_positions = 4, vd_logical_bound = 8,
                         vd_owner_generation = 7\<rparr>] 1 3 7"
  using validate_vmm_rows_exact [of "[vmm_masked, \<lparr>vd_k_base = 64, vd_v_base = 128, vd_mapped_positions = 4,
      vd_logical_bound = 8, vd_owner_generation = 7\<rparr>]" "[1]" "[3]" "[7]"]
  by (simp add: validate_vmm_rows_def vec_get_def check_position_def)

end
