(* ===== verification/Scheduler.thy ===== *)
theory Scheduler
  imports Kv_Slots
begin

text \<open>
  The step scheduler, \<^verbatim>\<open>crates/hipfire-runtime/src/scheduler.rs\<close>: how many rows every slot contributes to the
  next step, and the flat batch built from them. Token ids are naturals, float buffers are lists of
  their bit patterns.
\<close>

section \<open>Work of a slot\<close>

datatype spec_kind = SpecNone | Mtp | Dflash

definition spec_active :: "spec_kind \<Rightarrow> bool" where
  "spec_active k = (case k of SpecNone \<Rightarrow> False | _ \<Rightarrow> True)"

record vl_prefill =
  vl_patches :: "32 word list"
  vl_grid_h :: nat
  vl_grid_w :: nat
  vl_n_visual_tokens :: nat
  vl_embeddings :: "32 word list"
  vl_dim :: nat
  vl_visual_idx :: nat
  vl_image_pad_id :: nat
  vl_mrope_positions :: "(int \<times> int \<times> int) list"
  vl_rope_delta :: int
  vl_base :: nat

record pending_work =
  pw_slot :: nat
  pw_remaining_prompt :: "nat list"
  pw_next_pos :: nat
  pw_decoding :: bool
  pw_vl_prefill :: "vl_prefill option"
  pw_spec :: spec_kind
  pw_spec_cycles :: nat
  pw_spec_committed :: nat
  pw_spec_retire_fails :: nat
  pw_pos3_delta :: int

text \<open>The wrapping sum of two 32-bit signed integers.\<close>

definition add_i32 :: "int \<Rightarrow> int \<Rightarrow> int" where
  "add_i32 a b = (a + b + 2 ^ 31) mod 2 ^ 32 - 2 ^ 31"

definition vl_pos3 :: "vl_prefill \<Rightarrow> nat \<Rightarrow> int \<times> int \<times> int" where
  "vl_pos3 vl pos =
     (case Option.bind (checked_sub pos (vl_base vl)) (vec_get (vl_mrope_positions vl)) of
        Some p \<Rightarrow> p
      | None \<Rightarrow> (let p = add_i32 (as_i32 pos) (vl_rope_delta vl) in (p, p, p)))"

section \<open>Runnable slots\<close>

definition skip_entirely :: "pending_work \<Rightarrow> bool \<Rightarrow> bool" where
  "skip_entirely w vl_sequential \<longleftrightarrow>
     pw_vl_prefill w \<noteq> None \<and> vl_sequential \<or> spec_active (pw_spec w) \<and> pw_decoding w"

definition vl_waiting :: "pending_work \<Rightarrow> bool" where
  "vl_waiting w =
     (case pw_vl_prefill w of None \<Rightarrow> False | Some vl \<Rightarrow> vl_embeddings vl = [] \<and> vl_n_visual_tokens vl > 0)"

definition is_runnable_decode :: "pending_work \<Rightarrow> bool \<Rightarrow> bool" where
  "is_runnable_decode w vl_sequential =
     (if skip_entirely w vl_sequential \<or> vl_waiting w then False
      else pw_decoding w \<and> pw_remaining_prompt w \<noteq> [])"

definition is_runnable_prefill :: "pending_work \<Rightarrow> bool \<Rightarrow> bool" where
  "is_runnable_prefill w vl_sequential =
     (if skip_entirely w vl_sequential \<or> vl_waiting w then False
      else \<not> pw_decoding w \<and> pw_remaining_prompt w \<noteq> [])"

section \<open>Row allocation\<close>

record scheduler =
  sc_chunk_size :: nat
  sc_vl_sequential :: bool
  sc_prefill_cursor :: nat

definition page_align_take :: "nat \<Rightarrow> nat \<Rightarrow> nat \<Rightarrow> nat \<Rightarrow> nat" where
  "page_align_take take_rows take_start_pos remaining_incl_take prefill_min =
     (if take_rows \<ge> remaining_incl_take \<and> remaining_incl_take > 0 \<and> prefill_min \<le> PAGE_TOKENS then
        let stop = take_start_pos + remaining_incl_take in
        if stop mod PAGE_TOKENS \<noteq> 0 \<and> stop > PAGE_TOKENS then
          let boundary = stop div PAGE_TOKENS * PAGE_TOKENS in
          if boundary > take_start_pos then boundary - take_start_pos else take_rows
        else take_rows
      else take_rows)"

text \<open>\<^verbatim>\<open>eligible.get(i).copied().unwrap_or(false)\<close>\<close>

definition eligible_at :: "bool list \<Rightarrow> nat \<Rightarrow> bool" where
  "eligible_at eligible i = (case vec_get eligible i of None \<Rightarrow> False | Some b \<Rightarrow> b)"

text \<open>Phase 1: one row per runnable decode slot, in slot order, until the budget is used up.\<close>

fun decode_lanes :: "bool \<Rightarrow> bool list \<Rightarrow> nat \<Rightarrow> nat \<Rightarrow> nat \<Rightarrow> pending_work list \<Rightarrow> nat list" where
  "decode_lanes vl_sequential eligible remaining_rows used i [] = []"
| "decode_lanes vl_sequential eligible remaining_rows used i (w # ws) =
     (if \<not> is_runnable_decode w vl_sequential \<or> \<not> eligible_at eligible i
      then 0 # decode_lanes vl_sequential eligible remaining_rows used (i + 1) ws
      else if used + 1 > remaining_rows then replicate (length (w # ws)) 0
      else 1 # decode_lanes vl_sequential eligible remaining_rows (used + 1) (i + 1) ws)"

definition quota_of :: "scheduler \<Rightarrow> nat \<Rightarrow> pending_work \<Rightarrow> nat" where
  "quota_of sc prefill_min_tokens w =
     (let left = length (pw_remaining_prompt w)
      in if left = 0 then 0
         else page_align_take (max (min (sc_chunk_size sc) left) (min prefill_min_tokens left))
                (pw_next_pos w) left prefill_min_tokens)"

definition prefill_slots :: "bool \<Rightarrow> bool list \<Rightarrow> pending_work list \<Rightarrow> nat list" where
  "prefill_slots vl_sequential eligible work =
     filter (\<lambda>i. is_runnable_prefill (work ! i) vl_sequential \<and> eligible_at eligible i) [0 ..< length work]"

text \<open>The slots of \<open>xs\<close> in the order of \<^verbatim>\<open>(start + k) % n_pr\<close>.\<close>

definition rotated :: "nat list \<Rightarrow> nat \<Rightarrow> nat list" where
  "rotated xs start = map (\<lambda>k. xs ! ((start + k) mod length xs)) [0 ..< length xs]"

text \<open>What one slot takes of the leftover: its quota and its prompt bound it.\<close>

definition round_take :: "scheduler \<Rightarrow> nat \<Rightarrow> pending_work \<Rightarrow> nat \<Rightarrow> nat \<Rightarrow> nat" where
  "round_take sc pmin w already avail =
     (let prompt_left = saturating_sub (length (pw_remaining_prompt w)) already;
          cap = saturating_sub (quota_of sc pmin w) already
      in min (min cap prompt_left) avail)"

text \<open>One round of the leftover distribution; the flag is \<^verbatim>\<open>keep_going\<close>.\<close>

fun give_round ::
  "scheduler \<Rightarrow> nat \<Rightarrow> pending_work list \<Rightarrow> nat list \<Rightarrow> nat list \<Rightarrow> nat \<Rightarrow> bool \<Rightarrow> nat list \<times> nat \<times> bool" where
  "give_round sc pmin work [] alloc avail keep_going = (alloc, avail, keep_going)"
| "give_round sc pmin work (i # is) alloc avail keep_going =
     (if avail = 0 then (alloc, avail, keep_going)
      else
        let taken = round_take sc pmin (work ! i) (alloc ! i) avail
        in if taken = 0 then give_round sc pmin work is alloc avail keep_going
           else give_round sc pmin work is (alloc[i := alloc ! i + taken]) (avail - taken) True)"

lemma give_round_avail:
  "give_round sc pmin work is alloc avail g = (alloc', avail', g') \<Longrightarrow> avail' \<le> avail \<and> (g' \<longrightarrow> g \<or> avail' < avail)"
proof (induction "is" arbitrary: alloc avail g)
  case (Cons i "is")
  define t where "t = round_take sc pmin (work ! i) (alloc ! i) avail"
  have rec: "(if avail = 0 then (alloc, avail, g)
      else if t = 0 then give_round sc pmin work is alloc avail g
      else give_round sc pmin work is (alloc[i := alloc ! i + t]) (avail - t) True) = (alloc', avail', g')"
    using Cons.prems unfolding give_round.simps Let_def t_def .
  show ?case
  proof (cases "avail = 0 \<or> t = 0")
    case True
    then show ?thesis using rec Cons.IH [of alloc avail g] by (auto split: if_splits)
  next
    case False
    then show ?thesis using rec Cons.IH [of "alloc[i := alloc ! i + t]" "avail - t" True] by auto
  qed
qed simp

text \<open>The \<^verbatim>\<open>while avail > 0 && keep_going\<close> loop: a round that keeps it going takes at least one row.\<close>

function distribute :: "scheduler \<Rightarrow> nat \<Rightarrow> pending_work list \<Rightarrow> nat list \<Rightarrow> nat list \<Rightarrow> nat \<Rightarrow> nat list" where
  "distribute sc pmin work order alloc avail =
     (if avail > 0 then
        (case give_round sc pmin work order alloc avail False of
           (alloc', avail', keep_going) \<Rightarrow>
             if keep_going then distribute sc pmin work order alloc' avail' else alloc')
      else alloc)"
  by pat_completeness auto
termination
  by (relation "measure (\<lambda>(sc, pmin, work, order, alloc, avail). avail)")
    (auto dest: give_round_avail [OF sym])

declare distribute.simps [simp del]

record row_allocation =
  ra_alloc :: "nat list"
  ra_next_prefill_cursor :: "nat option"

definition allocate_rows ::
  "scheduler \<Rightarrow> pending_work list \<Rightarrow> nat \<Rightarrow> nat \<Rightarrow> bool list \<Rightarrow> row_allocation" where
  "allocate_rows sc work remaining_rows prefill_min_tokens eligible =
     (let alloc = decode_lanes (sc_vl_sequential sc) eligible remaining_rows 0 0 work;
          avail = saturating_sub remaining_rows (sum_list alloc);
          slots = prefill_slots (sc_vl_sequential sc) eligible work
      in if avail > 0 \<and> slots \<noteq> [] then
           let start = sc_prefill_cursor sc mod length slots;
               head = slots ! start;
               head_take = min (quota_of sc prefill_min_tokens (work ! head)) avail;
               took = head_take > 0 \<and> pw_remaining_prompt (work ! head) \<noteq> [];
               alloc = (if took then alloc[head := alloc ! head + head_take] else alloc);
               avail = (if took then avail - head_take else avail)
           in \<lparr>ra_alloc = distribute sc prefill_min_tokens work (rotated slots start) alloc avail,
               ra_next_prefill_cursor = Some ((sc_prefill_cursor sc + 1) mod length slots)\<rparr>
         else \<lparr>ra_alloc = alloc, ra_next_prefill_cursor = None\<rparr>)"

section \<open>The batch of a step\<close>

record slot_batch =
  sb_m_per_slot :: "nat list"
  sb_tokens :: "nat list"
  sb_positions :: "int list"
  sb_row_slot :: "int list"
  sb_pos3 :: "(int \<times> int \<times> int) list"
  sb_ext_emb :: "int list"

definition sb_default :: slot_batch where
  "sb_default = \<lparr>sb_m_per_slot = [], sb_tokens = [], sb_positions = [], sb_row_slot = [], sb_pos3 = [], sb_ext_emb = []\<rparr>"

definition any_pos3 :: "scheduler \<Rightarrow> pending_work list \<Rightarrow> bool" where
  "any_pos3 sc work =
     list_ex (\<lambda>w. pw_vl_prefill w \<noteq> None \<and> \<not> sc_vl_sequential sc \<or> pw_pos3_delta w \<noteq> 0) work"

text \<open>
  One row: the token at its absolute position, its slot, and with \<open>any3\<close> its phases and the index of the
  visual embedding it splices. A VL slot's splice index moves past each image pad it consumed.
\<close>

definition push_row ::
  "bool \<Rightarrow> nat \<Rightarrow> nat \<Rightarrow> slot_batch \<times> pending_work \<Rightarrow> slot_batch \<times> pending_work" where
  "push_row any3 t pos bw =
     (case bw of (b, w) \<Rightarrow>
        let b = b\<lparr>sb_tokens := sb_tokens b @ [t], sb_positions := sb_positions b @ [as_i32 pos],
                  sb_row_slot := sb_row_slot b @ [as_i32 (pw_slot w)]\<rparr>
        in if \<not> any3 then (b, w)
           else case pw_vl_prefill w of
             Some vl \<Rightarrow>
               let b = b\<lparr>sb_pos3 := sb_pos3 b @ [vl_pos3 vl pos]\<rparr>
               in if t = vl_image_pad_id vl \<and> vl_visual_idx vl < vl_n_visual_tokens vl
                  then (b\<lparr>sb_ext_emb := sb_ext_emb b @ [as_i32 (vl_visual_idx vl)]\<rparr>,
                        w\<lparr>pw_vl_prefill := Some (vl\<lparr>vl_visual_idx := vl_visual_idx vl + 1\<rparr>)\<rparr>)
                  else (b\<lparr>sb_ext_emb := sb_ext_emb b @ [- 1]\<rparr>, w)
           | None \<Rightarrow>
               (let p = add_i32 (as_i32 pos) (pw_pos3_delta w)
                in (b\<lparr>sb_pos3 := sb_pos3 b @ [(p, p, p)], sb_ext_emb := sb_ext_emb b @ [- 1]\<rparr>, w)))"

fun push_rows ::
  "bool \<Rightarrow> nat list \<Rightarrow> nat \<Rightarrow> slot_batch \<times> pending_work \<Rightarrow> slot_batch \<times> pending_work" where
  "push_rows any3 [] pos bw = bw"
| "push_rows any3 (t # ts) pos bw = push_rows any3 ts (pos + 1) (push_row any3 t pos bw)"

definition take_slot :: "bool \<Rightarrow> nat \<Rightarrow> nat \<Rightarrow> slot_batch \<Rightarrow> pending_work \<Rightarrow> slot_batch \<times> pending_work" where
  "take_slot any3 i taken b w =
     (let toks = take taken (pw_remaining_prompt w);
          start_pos = pw_next_pos w;
          w = w\<lparr>pw_remaining_prompt := drop taken (pw_remaining_prompt w)\<rparr>;
          b = b\<lparr>sb_m_per_slot := (sb_m_per_slot b)[i := length toks]\<rparr>;
          (b, w) = push_rows any3 toks start_pos (b, w)
      in (b, w\<lparr>pw_next_pos := pw_next_pos w + length toks\<rparr>))"

fun take_slots ::
  "bool \<Rightarrow> nat list \<Rightarrow> nat \<Rightarrow> slot_batch \<Rightarrow> pending_work list \<Rightarrow> slot_batch \<times> pending_work list" where
  "take_slots any3 alloc i b [] = (b, [])"
| "take_slots any3 alloc i b (w # ws) =
     (if alloc ! i = 0 then
        (case take_slots any3 alloc (i + 1) b ws of (b, ws) \<Rightarrow> (b, w # ws))
      else
        (case take_slot any3 i (alloc ! i) b w of
           (b, w) \<Rightarrow> (case take_slots any3 alloc (i + 1) b ws of (b, ws) \<Rightarrow> (b, w # ws))))"

definition next_batch_eligible ::
  "scheduler \<Rightarrow> pending_work list \<Rightarrow> nat \<Rightarrow> nat \<Rightarrow> bool list \<Rightarrow> scheduler \<times> pending_work list \<times> slot_batch" where
  "next_batch_eligible sc work remaining_rows prefill_min_tokens eligible =
     (let plan = allocate_rows sc work remaining_rows prefill_min_tokens eligible;
          sc' = (case ra_next_prefill_cursor plan of None \<Rightarrow> sc | Some c \<Rightarrow> sc\<lparr>sc_prefill_cursor := c\<rparr>);
          b = sb_default\<lparr>sb_m_per_slot := replicate (length work) 0\<rparr>
      in case take_slots (any_pos3 sc work) (ra_alloc plan) 0 b work of
           (b, work) \<Rightarrow> (sc', work, b))"

definition next_batch ::
  "scheduler \<Rightarrow> pending_work list \<Rightarrow> nat \<Rightarrow> nat \<Rightarrow> scheduler \<times> pending_work list \<times> slot_batch" where
  "next_batch sc work remaining_rows prefill_min_tokens =
     next_batch_eligible sc work remaining_rows prefill_min_tokens (replicate (length work) True)"

end
