(* ===== verification/Scheduler_Props.thy ===== *)
theory Scheduler_Props
  imports Scheduler
begin

text \<open>
  The scheduler never plans more rows than the budget, gives a slot only rows it asked for and has tokens
  for, leaves no row unused while a slot could take it, lets every prefilling slot lead in turn, and
  builds a batch that is a faithful cut of the pending prompts.
\<close>

section \<open>Decode lanes\<close>

lemma decode_lanes_length [simp]: "length (decode_lanes vls el rem used i ws) = length ws"
  by (induction vls el rem used i ws rule: decode_lanes.induct) auto

lemma decode_lanes_sum: "used \<le> rem \<Longrightarrow> used + sum_list (decode_lanes vls el rem used i ws) \<le> rem"
  by (induction vls el rem used i ws rule: decode_lanes.induct) (auto simp: sum_list_replicate)

lemma decode_lanes_one:
  "j < length ws \<Longrightarrow> decode_lanes vls el rem used i ws ! j \<le> 1
    \<and> (0 < decode_lanes vls el rem used i ws ! j \<longrightarrow> is_runnable_decode (ws ! j) vls \<and> eligible_at el (i + j))"
proof (induction vls el rem used i ws arbitrary: j rule: decode_lanes.induct)
  case (2 vls el rem used i w ws)
  then show ?case by (cases j) (auto simp: nth_Cons')
qed simp

lemma decode_lanes_all:
  "used + sum_list (decode_lanes vls el rem used i ws) < rem \<Longrightarrow> j < length ws \<Longrightarrow> is_runnable_decode (ws ! j) vls
   \<Longrightarrow> eligible_at el (i + j) \<Longrightarrow> decode_lanes vls el rem used i ws ! j = 1"
proof (induction vls el rem used i ws arbitrary: j rule: decode_lanes.induct)
  case (2 vls el rem used i w ws)
  then show ?case by (cases j) (auto split: if_splits)
qed simp

text \<open>A slot is never both decoding and prefilling.\<close>

lemma runnable_exclusive: "is_runnable_prefill w vls \<Longrightarrow> \<not> is_runnable_decode w vls"
  by (auto simp: is_runnable_prefill_def is_runnable_decode_def split: if_splits)

lemma runnable_prompt: "is_runnable_prefill w vls \<or> is_runnable_decode w vls \<Longrightarrow> pw_remaining_prompt w \<noteq> []"
  by (auto simp: is_runnable_prefill_def is_runnable_decode_def split: if_splits)

section \<open>Quotas\<close>

lemma page_align_take_le: "page_align_take n start rem pmin \<le> n"
proof -
  have "(start + rem) div PAGE_TOKENS * PAGE_TOKENS \<le> start + rem" by simp
  then have "(start + rem) div PAGE_TOKENS * PAGE_TOKENS - start \<le> rem" by linarith
  then show ?thesis by (auto simp: page_align_take_def Let_def)
qed


lemma quota_le_prompt: "quota_of sc pmin w \<le> length (pw_remaining_prompt w)"
  using page_align_take_le [of "max (min (sc_chunk_size sc) (length (pw_remaining_prompt w)))
      (min pmin (length (pw_remaining_prompt w)))" "pw_next_pos w" "length (pw_remaining_prompt w)" pmin]
  by (simp add: quota_of_def Let_def) linarith

lemma quota_le_max: "quota_of sc pmin w \<le> max (sc_chunk_size sc) pmin"
  using page_align_take_le [of "max (min (sc_chunk_size sc) (length (pw_remaining_prompt w)))
      (min pmin (length (pw_remaining_prompt w)))" "pw_next_pos w" "length (pw_remaining_prompt w)" pmin]
  by (simp add: quota_of_def Let_def) linarith


lemma round_take_le:
  "round_take sc pmin w already avail \<le> avail"
  "round_take sc pmin w already avail \<le> quota_of sc pmin w - already"
  by (simp_all add: round_take_def Let_def)

lemma round_take_zero: "0 < avail \<Longrightarrow> round_take sc pmin w already avail = 0 \<Longrightarrow> quota_of sc pmin w \<le> already"
  using quota_le_prompt [of sc pmin w] by (auto simp: round_take_def Let_def)

section \<open>The leftover distribution\<close>

text \<open>What a round and the whole loop keep: the total, every row given so far, and the quotas of the order's slots.\<close>

definition fair_share :: "scheduler \<Rightarrow> nat \<Rightarrow> pending_work list \<Rightarrow> nat list \<Rightarrow> nat list \<Rightarrow> nat list \<Rightarrow> bool" where
  "fair_share sc pmin work order alloc alloc' \<longleftrightarrow>
     length alloc' = length alloc \<and> (\<forall>j. j \<notin> set order \<longrightarrow> alloc' ! j = alloc ! j)
     \<and> (\<forall>j < length alloc. alloc ! j \<le> alloc' ! j \<and> alloc' ! j \<le> max (alloc ! j) (quota_of sc pmin (work ! j)))"

lemma fair_share_refl: "fair_share sc pmin work order alloc alloc"
  by (simp add: fair_share_def)

lemma fair_share_trans:
  "fair_share sc pmin work order a b \<Longrightarrow> fair_share sc pmin work order b c \<Longrightarrow> fair_share sc pmin work order a c"
  by (fastforce simp: fair_share_def)

lemma fair_share_mono: "fair_share sc pmin work o1 a b \<Longrightarrow> set o1 \<subseteq> set o2 \<Longrightarrow> fair_share sc pmin work o2 a b"
  by (auto simp: fair_share_def)

lemma fair_share_give:
  assumes "i < length alloc" "t \<le> quota_of sc pmin (work ! i) - alloc ! i"
  shows "fair_share sc pmin work [i] alloc (alloc[i := alloc ! i + t])"
  using assms by (auto simp: fair_share_def nth_list_update)

lemma give_round_share:
  assumes "give_round sc pmin work is alloc avail g = (alloc', avail', g')" "set is \<subseteq> {..< length alloc}"
  shows "fair_share sc pmin work is alloc alloc' \<and> sum_list alloc' + avail' = sum_list alloc + avail
    \<and> (g \<longrightarrow> g') \<and> (0 < avail \<longrightarrow> \<not> g' \<longrightarrow> alloc' = alloc \<and> (\<forall>i \<in> set is. quota_of sc pmin (work ! i) \<le> alloc ! i))"
  using assms
proof (induction "is" arbitrary: alloc avail g)
  case Nil
  then show ?case by (simp add: fair_share_refl)
next
  case (Cons i "is")
  define t where "t = round_take sc pmin (work ! i) (alloc ! i) avail"
  have rec: "(if avail = 0 then (alloc, avail, g)
      else if t = 0 then give_round sc pmin work is alloc avail g
      else give_round sc pmin work is (alloc[i := alloc ! i + t]) (avail - t) True) = (alloc', avail', g')"
    using Cons.prems(1) unfolding give_round.simps Let_def t_def .
  have i: "i < length alloc" "set is \<subseteq> {..< length alloc}" using Cons.prems(2) by auto
  consider "avail = 0" | "0 < avail" "t = 0" | "0 < avail" "0 < t" by blast
  then show ?case
  proof cases
    case 1
    then show ?thesis using rec by (auto simp: fair_share_refl)
  next
    case 2
    then have "give_round sc pmin work is alloc avail g = (alloc', avail', g')" using rec by simp
    note IH = Cons.IH [OF this i(2)]
    have "quota_of sc pmin (work ! i) \<le> alloc ! i"
      by (rule round_take_zero [OF 2(1) 2(2) [unfolded t_def]])
    moreover have "fair_share sc pmin work (i # is) alloc alloc'"
      using IH fair_share_mono [of sc pmin work "is" alloc alloc' "i # is"] by auto
    ultimately show ?thesis using IH by auto
  next
    case 3
    let ?a = "alloc[i := alloc ! i + t]"
    have r: "give_round sc pmin work is ?a (avail - t) True = (alloc', avail', g')" using rec 3 by simp
    have IH: "fair_share sc pmin work is ?a alloc'" "sum_list alloc' + avail' = sum_list ?a + (avail - t)" "g'"
      using Cons.IH [OF r] i by auto
    have "fair_share sc pmin work [i] alloc ?a"
      using round_take_le(2) [of sc pmin "work ! i" "alloc ! i" avail] i by (intro fair_share_give) (simp_all add: t_def)
    then have "fair_share sc pmin work (i # is) alloc alloc'"
      using fair_share_trans fair_share_mono [of _ _ _ "[i]" _ _ "i # is"] fair_share_mono [OF IH(1), of "i # is"]
      by (metis empty_subsetI insert_subset list.set(1,2) list.set_intros(1) set_subset_Cons)
    moreover have "sum_list ?a + alloc ! i = sum_list alloc + (alloc ! i + t)" by (rule sum_list_update_nat [OF i(1)])
    moreover have "t \<le> avail" using round_take_le(1) by (simp add: t_def)
    ultimately show ?thesis using IH by auto
  qed
qed

lemma distribute_share:
  assumes "set order \<subseteq> {..< length alloc}"
  shows "fair_share sc pmin work order alloc (distribute sc pmin work order alloc avail)
    \<and> sum_list (distribute sc pmin work order alloc avail) \<le> sum_list alloc + avail
    \<and> (sum_list (distribute sc pmin work order alloc avail) = sum_list alloc + avail
       \<or> (\<forall>i \<in> set order. quota_of sc pmin (work ! i) \<le> distribute sc pmin work order alloc avail ! i))"
  using assms
proof (induction sc pmin work order alloc avail rule: distribute.induct)
  case (1 sc pmin work order alloc avail)
  show ?case
  proof (cases "0 < avail")
    case False
    then have "distribute sc pmin work order alloc avail = alloc" by (subst distribute.simps) simp
    then show ?thesis using False by (simp add: fair_share_refl)
  next
    case True
    obtain a v g where r: "give_round sc pmin work order alloc avail False = (a, v, g)" by (metis prod_cases3)
    note R = give_round_share [OF r "1.prems"]
    show ?thesis
    proof (cases g)
      case False
      then have "distribute sc pmin work order alloc avail = alloc" using R True r
        by (simp add: distribute.simps [of _ _ _ _ alloc avail])
      then show ?thesis using R True False by (simp add: fair_share_refl)
    next
      case gt: True
      have d: "distribute sc pmin work order alloc avail = distribute sc pmin work order a v"
        using True r gt by (simp add: distribute.simps [of _ _ _ _ alloc avail])
      have "length a = length alloc" using R by (simp add: fair_share_def)
      then have "set order \<subseteq> {..< length a}" using "1.prems" by simp
      from "1.IH" [OF True r [symmetric] refl gt this] R
      show ?thesis using fair_share_trans [of sc pmin work order alloc a] unfolding d by simp
    qed
  qed
qed

section \<open>A whole allocation\<close>

lemma set_rotated: "xs \<noteq> [] \<Longrightarrow> set (rotated xs start) = set xs"
proof
  assume ne: "xs \<noteq> []"
  then show "set (rotated xs start) \<subseteq> set xs" by (auto simp: rotated_def)
  show "set xs \<subseteq> set (rotated xs start)"
  proof
    fix x assume "x \<in> set xs"
    then obtain j where j: "j < length xs" "xs ! j = x" by (auto simp: in_set_conv_nth)
    let ?k = "(j + (length xs - start mod length xs)) mod length xs"
    have "(start + ?k) mod length xs = (start mod length xs + (j + (length xs - start mod length xs))) mod length xs"
      by (simp add: mod_simps)
    also have "start mod length xs + (j + (length xs - start mod length xs)) = j + length xs"
      using ne mod_less_divisor [of "length xs" start] by (metis add.commute add.left_commute le_add_diff_inverse length_greater_0_conv less_imp_le)
    also have "(j + length xs) mod length xs = j" using j by simp
    finally show "x \<in> set (rotated xs start)"
      using j ne by (auto simp: rotated_def intro!: image_eqI [of _ _ ?k])
  qed
qed

lemma prefill_slots_mem:
  "i \<in> set (prefill_slots vls el work) \<longleftrightarrow> i < length work \<and> is_runnable_prefill (work ! i) vls \<and> eligible_at el i"
  by (auto simp: prefill_slots_def)

abbreviation lanes :: "scheduler \<Rightarrow> pending_work list \<Rightarrow> nat \<Rightarrow> bool list \<Rightarrow> nat list" where
  "lanes sc work rem el \<equiv> decode_lanes (sc_vl_sequential sc) el rem 0 0 work"

lemma lanes_prefill: "i \<in> set (prefill_slots (sc_vl_sequential sc) el work) \<Longrightarrow> lanes sc work rem el ! i = 0"
  using runnable_exclusive decode_lanes_one [of i work "sc_vl_sequential sc" el rem 0 0]
  by (auto simp: prefill_slots_mem)

text \<open>The head of the rotation is served first, then the leftover is shared.\<close>

lemma allocate_rows_share:
  fixes sc work rem pmin el
  defines "slots \<equiv> prefill_slots (sc_vl_sequential sc) el work"
  defines "alloc' \<equiv> ra_alloc (allocate_rows sc work rem pmin el)"
  shows "fair_share sc pmin work slots (lanes sc work rem el) alloc'" "sum_list alloc' \<le> rem"
    "sum_list alloc' = rem \<or> (\<forall>i \<in> set slots. quota_of sc pmin (work ! i) \<le> alloc' ! i)"
    "slots \<noteq> [] \<Longrightarrow> sum_list (lanes sc work rem el) < rem \<Longrightarrow>
       min (quota_of sc pmin (work ! (slots ! (sc_prefill_cursor sc mod length slots)))) (rem - sum_list (lanes sc work rem el))
         \<le> alloc' ! (slots ! (sc_prefill_cursor sc mod length slots))
       \<and> ra_next_prefill_cursor (allocate_rows sc work rem pmin el) = Some ((sc_prefill_cursor sc + 1) mod length slots)"
proof -
  define l where "l = lanes sc work rem el"
  define avail where "avail = rem - sum_list l"
  have le: "sum_list l \<le> rem" using decode_lanes_sum [of 0 rem] by (simp add: l_def)
  have len: "length l = length work" by (simp add: l_def)
  have all: "fair_share sc pmin work slots l alloc' \<and> sum_list alloc' \<le> rem
    \<and> (sum_list alloc' = rem \<or> (\<forall>i \<in> set slots. quota_of sc pmin (work ! i) \<le> alloc' ! i))
    \<and> (slots \<noteq> [] \<and> sum_list l < rem \<longrightarrow>
        min (quota_of sc pmin (work ! (slots ! (sc_prefill_cursor sc mod length slots)))) (rem - sum_list l)
          \<le> alloc' ! (slots ! (sc_prefill_cursor sc mod length slots))
        \<and> ra_next_prefill_cursor (allocate_rows sc work rem pmin el) = Some ((sc_prefill_cursor sc + 1) mod length slots))"
  proof (cases "avail > 0 \<and> slots \<noteq> []")
    case False
    then have "alloc' = l"
      unfolding alloc'_def allocate_rows_def Let_def slots_def [symmetric] l_def [symmetric] avail_def [symmetric] by auto
    then show ?thesis using False le by (auto simp: avail_def fair_share_refl)
  next
    case True
    define start where "start = sc_prefill_cursor sc mod length slots"
    define h where "h = slots ! start"
    have h: "h \<in> set slots" using True by (simp add: h_def start_def)
    then have hw: "h < length work" "l ! h = 0" "pw_remaining_prompt (work ! h) \<noteq> []"
      using lanes_prefill [of h sc el work rem] runnable_prompt
      by (auto simp: slots_def l_def prefill_slots_mem)
    define t where "t = min (quota_of sc pmin (work ! h)) avail"
    define a where "a = l[h := t]"
    have alloc': "alloc' = distribute sc pmin work (rotated slots start) a (avail - t)"
      and cur: "ra_next_prefill_cursor (allocate_rows sc work rem pmin el) = Some ((sc_prefill_cursor sc + 1) mod length slots)"
      using True hw
      unfolding alloc'_def allocate_rows_def Let_def slots_def [symmetric] l_def [symmetric] avail_def [symmetric]
        start_def [symmetric] h_def [symmetric] t_def [symmetric]
      by (auto simp: a_def list_update_id [of l h, unfolded hw(2)])
    have sub: "set (rotated slots start) \<subseteq> {..< length a}"
      using True by (auto simp: set_rotated a_def len slots_def prefill_slots_mem)
    note D = distribute_share [OF sub, of sc pmin work "avail - t", folded alloc']
    have sr: "set (rotated slots start) = set slots" using True by (simp add: set_rotated)
    have "fair_share sc pmin work [h] l a"
      using fair_share_give [of h l t sc pmin work] hw by (simp add: a_def len t_def)
    then have "fair_share sc pmin work slots l a" by (rule fair_share_mono) (simp add: h)
    moreover have "fair_share sc pmin work slots a alloc'" using D sr by (auto intro: fair_share_mono)
    ultimately have fs: "fair_share sc pmin work slots l alloc'" by (rule fair_share_trans)
    have "sum_list a = sum_list l + t"
      using sum_list_update_nat [of h l t] hw by (simp add: a_def len)
    moreover have "t \<le> avail" by (simp add: t_def)
    moreover have "t \<le> alloc' ! h"
      using D hw by (auto simp: fair_share_def a_def len)
    ultimately show ?thesis using D fs cur le unfolding sr by (auto simp: avail_def t_def h_def start_def)
  qed
  then show "fair_share sc pmin work slots (lanes sc work rem el) alloc'" "sum_list alloc' \<le> rem"
    "sum_list alloc' = rem \<or> (\<forall>i \<in> set slots. quota_of sc pmin (work ! i) \<le> alloc' ! i)"
    "slots \<noteq> [] \<Longrightarrow> sum_list (lanes sc work rem el) < rem \<Longrightarrow>
       min (quota_of sc pmin (work ! (slots ! (sc_prefill_cursor sc mod length slots)))) (rem - sum_list (lanes sc work rem el))
         \<le> alloc' ! (slots ! (sc_prefill_cursor sc mod length slots))
       \<and> ra_next_prefill_cursor (allocate_rows sc work rem pmin el) = Some ((sc_prefill_cursor sc + 1) mod length slots)"
    unfolding l_def by blast+
qed

text \<open>Rows per slot.\<close>

lemma allocate_rows_slot:
  assumes "i < length work"
  shows "length (ra_alloc (allocate_rows sc work rem pmin el)) = length work"
    "ra_alloc (allocate_rows sc work rem pmin el) ! i \<le> length (pw_remaining_prompt (work ! i))"
    "0 < ra_alloc (allocate_rows sc work rem pmin el) ! i \<Longrightarrow> eligible_at el i
       \<and> (is_runnable_decode (work ! i) (sc_vl_sequential sc) \<and> ra_alloc (allocate_rows sc work rem pmin el) ! i = 1
          \<or> is_runnable_prefill (work ! i) (sc_vl_sequential sc)
            \<and> ra_alloc (allocate_rows sc work rem pmin el) ! i \<le> quota_of sc pmin (work ! i))"
proof -
  note F = allocate_rows_share(1) [of sc pmin work el rem, unfolded fair_share_def]
  let ?a = "ra_alloc (allocate_rows sc work rem pmin el)"
  show "length ?a = length work" using F by simp
  have cases: "?a ! i = 0 \<or> is_runnable_decode (work ! i) (sc_vl_sequential sc) \<and> eligible_at el i \<and> ?a ! i = 1
      \<or> is_runnable_prefill (work ! i) (sc_vl_sequential sc) \<and> eligible_at el i \<and> ?a ! i \<le> quota_of sc pmin (work ! i)"
  proof (cases "i \<in> set (prefill_slots (sc_vl_sequential sc) el work)")
    case True
    then have "?a ! i \<le> quota_of sc pmin (work ! i)" using F assms lanes_prefill [OF True, of rem] by auto
    then show ?thesis using True by (simp add: prefill_slots_mem)
  next
    case False
    then have "?a ! i = lanes sc work rem el ! i" using F by blast
    then show ?thesis using decode_lanes_one [OF assms, of "sc_vl_sequential sc" el rem 0 0]
      by (auto simp: le_Suc_eq)
  qed
  then show "0 < ?a ! i \<Longrightarrow> eligible_at el i \<and> (is_runnable_decode (work ! i) (sc_vl_sequential sc) \<and> ?a ! i = 1
      \<or> is_runnable_prefill (work ! i) (sc_vl_sequential sc) \<and> ?a ! i \<le> quota_of sc pmin (work ! i))"
    by linarith
  have "1 \<le> length (pw_remaining_prompt (work ! i))" if "is_runnable_decode (work ! i) (sc_vl_sequential sc)"
    using runnable_prompt that by (cases "pw_remaining_prompt (work ! i)") auto
  then show "?a ! i \<le> length (pw_remaining_prompt (work ! i))"
    using cases quota_le_prompt [of sc pmin "work ! i"] by linarith
qed

text \<open>
  C29: The rows of a step: one count per slot, together within the budget; a slot gets rows only when it is
  eligible and runnable, exactly one when it decodes, at most the larger of the chunk size and the prefill
  quantum when it prefills, and never more than the tokens it has left.
\<close>

theorem allocate_rows_sound:
  assumes "i < length work"
  shows "let alloc = ra_alloc (allocate_rows sc work rem pmin el) in
      length alloc = length work \<and> sum_list alloc \<le> rem \<and> alloc ! i \<le> length (pw_remaining_prompt (work ! i))
      \<and> (0 < alloc ! i \<longrightarrow> eligible_at el i
          \<and> (is_runnable_decode (work ! i) (sc_vl_sequential sc) \<and> alloc ! i = 1
             \<or> is_runnable_prefill (work ! i) (sc_vl_sequential sc) \<and> alloc ! i \<le> max (sc_chunk_size sc) pmin))"
  using allocate_rows_slot [OF assms, of sc rem pmin el] allocate_rows_share(2) [of sc work rem pmin el]
    quota_le_max [of sc pmin "work ! i"] unfolding Let_def by (metis order_trans)

text \<open>
  C30: No row is wasted and nobody eligible is skipped while rows are left: the budget is used up, or every
  eligible decoding slot has its row and every eligible prefilling slot its full quota.
\<close>

theorem allocate_rows_work_conserving:
  "let alloc = ra_alloc (allocate_rows sc work rem pmin el) in
     sum_list alloc = rem
     \<or> (\<forall>i < length work. eligible_at el i \<longrightarrow>
          (is_runnable_decode (work ! i) (sc_vl_sequential sc) \<longrightarrow> alloc ! i = 1)
          \<and> (is_runnable_prefill (work ! i) (sc_vl_sequential sc) \<longrightarrow> alloc ! i = quota_of sc pmin (work ! i)))"
proof (cases "sum_list (ra_alloc (allocate_rows sc work rem pmin el)) = rem")
  case False
  let ?a = "ra_alloc (allocate_rows sc work rem pmin el)"
  note F = allocate_rows_share [where sc = sc and work = work and rem = rem and pmin = pmin and el = el,
    unfolded fair_share_def]
  have lt: "sum_list ?a < rem" using F(2) False by simp
  have "?a ! i = 1" if "i < length work" "eligible_at el i" "is_runnable_decode (work ! i) (sc_vl_sequential sc)" for i
  proof -
    have e: "?a ! i = lanes sc work rem el ! i"
      using F(1) that runnable_exclusive by (auto simp: prefill_slots_mem)
    have "sum_list (lanes sc work rem el) \<le> sum_list ?a" using F(1) by (intro sum_list_mono2) auto
    then show ?thesis using decode_lanes_all [of 0 "sc_vl_sequential sc" el rem 0 work i] lt that e by simp
  qed
  moreover have "?a ! i = quota_of sc pmin (work ! i)"
    if "i < length work" "eligible_at el i" "is_runnable_prefill (work ! i) (sc_vl_sequential sc)" for i
  proof -
    have i: "i \<in> set (prefill_slots (sc_vl_sequential sc) el work)" using that by (simp add: prefill_slots_mem)
    then have "quota_of sc pmin (work ! i) \<le> ?a ! i" using F(3) False by blast
    moreover have "?a ! i \<le> quota_of sc pmin (work ! i)"
      using F(1) lanes_prefill [OF i, of rem] that(1) by auto
    ultimately show ?thesis by simp
  qed
  ultimately show ?thesis by (simp add: Let_def)
qed simp

section \<open>Rotation\<close>



section \<open>Batches\<close>

lemma push_rows_eq:
  assumes "push_rows any3 ts pos (b, w) = (b', w')"
  shows "sb_tokens b' = sb_tokens b @ ts" "sb_positions b' = sb_positions b @ map as_i32 [pos ..< pos + length ts]"
    "sb_row_slot b' = sb_row_slot b @ replicate (length ts) (as_i32 (pw_slot w))" "sb_m_per_slot b' = sb_m_per_slot b"
    "\<exists>vl. w' = w\<lparr>pw_vl_prefill := vl\<rparr>"
    "length (sb_pos3 b') = length (sb_pos3 b) + (if any3 then length ts else 0)"
    "length (sb_ext_emb b') = length (sb_ext_emb b) + (if any3 then length ts else 0)"
proof -
  have "sb_tokens b' = sb_tokens b @ ts \<and> sb_positions b' = sb_positions b @ map as_i32 [pos ..< pos + length ts]
    \<and> sb_row_slot b' = sb_row_slot b @ replicate (length ts) (as_i32 (pw_slot w)) \<and> sb_m_per_slot b' = sb_m_per_slot b
    \<and> (\<exists>vl. w' = w\<lparr>pw_vl_prefill := vl\<rparr>)
    \<and> length (sb_pos3 b') = length (sb_pos3 b) + (if any3 then length ts else 0)
    \<and> length (sb_ext_emb b') = length (sb_ext_emb b) + (if any3 then length ts else 0)"
    using assms
  proof (induction ts arbitrary: pos b w)
    case Nil
    then show ?case by (auto intro!: exI [of _ "pw_vl_prefill w"])
  next
    case (Cons t ts)
    obtain b1 w1 where r: "push_row any3 t pos (b, w) = (b1, w1)" by fastforce
    have 1: "sb_tokens b1 = sb_tokens b @ [t]" "sb_positions b1 = sb_positions b @ [as_i32 pos]"
      "sb_row_slot b1 = sb_row_slot b @ [as_i32 (pw_slot w)]" "sb_m_per_slot b1 = sb_m_per_slot b"
      "length (sb_pos3 b1) = length (sb_pos3 b) + (if any3 then 1 else 0)"
      "length (sb_ext_emb b1) = length (sb_ext_emb b) + (if any3 then 1 else 0)"
      using r by (auto simp: push_row_def Let_def split: if_splits option.splits)
    have "w1 = w\<lparr>pw_vl_prefill := pw_vl_prefill w\<rparr> \<or> (\<exists>vl. w1 = w\<lparr>pw_vl_prefill := Some vl\<rparr>)"
      using r by (auto simp: push_row_def Let_def split: if_splits option.splits)
    then have w1: "\<exists>vl. w1 = w\<lparr>pw_vl_prefill := vl\<rparr>" by blast
    have "push_rows any3 ts (pos + 1) (b1, w1) = (b', w')" using Cons.prems r by simp
    moreover have "[pos ..< pos + length (t # ts)] = pos # [pos + 1 ..< pos + 1 + length ts]"
      by (subst upt_conv_Cons) simp_all
    ultimately show ?case using Cons.IH [of "pos + 1" b1 w1] 1 w1 by (auto simp del: upt_Suc)
  qed
  then show "sb_tokens b' = sb_tokens b @ ts" "sb_positions b' = sb_positions b @ map as_i32 [pos ..< pos + length ts]"
    "sb_row_slot b' = sb_row_slot b @ replicate (length ts) (as_i32 (pw_slot w))" "sb_m_per_slot b' = sb_m_per_slot b"
    "\<exists>vl. w' = w\<lparr>pw_vl_prefill := vl\<rparr>"
    "length (sb_pos3 b') = length (sb_pos3 b) + (if any3 then length ts else 0)"
    "length (sb_ext_emb b') = length (sb_ext_emb b) + (if any3 then length ts else 0)"
    by blast+
qed

text \<open>What a batch and the remaining work are, slot by slot, for a given allocation.\<close>

definition rows_of :: "(nat \<Rightarrow> pending_work \<Rightarrow> 'a list) \<Rightarrow> nat list \<Rightarrow> pending_work list \<Rightarrow> 'a list" where
  "rows_of f alloc work = concat (map (\<lambda>(a, w). f a w) (zip alloc work))"

definition consumed :: "nat \<Rightarrow> pending_work \<Rightarrow> pending_work \<Rightarrow> bool" where
  "consumed a w w' \<longleftrightarrow> take a (pw_remaining_prompt w) @ pw_remaining_prompt w' = pw_remaining_prompt w
     \<and> pw_next_pos w' = pw_next_pos w + a \<and> pw_slot w' = pw_slot w \<and> pw_decoding w' = pw_decoding w
     \<and> pw_spec w' = pw_spec w \<and> pw_pos3_delta w' = pw_pos3_delta w"

lemma rows_of_Cons [simp]: "rows_of f (a # as) (w # ws) = f a w @ rows_of f as ws" "rows_of f [] ws = []" "rows_of f as [] = []"
  by (simp_all add: rows_of_def)

lemma rows_of_length:
  assumes "length alloc = length work" "\<And>j. j < length work \<Longrightarrow> alloc ! j \<le> length (pw_remaining_prompt (work ! j))"
  shows "length (rows_of (\<lambda>a w. take a (pw_remaining_prompt w)) alloc work) = sum_list alloc"
  using assms
proof (induction alloc work rule: list_induct2)
  case (Cons a as w ws)
  then show ?case using Cons.prems [of 0] Cons.prems [of "Suc _"] by simp
qed simp

lemma take_slot_eq:
  assumes "take_slot any3 i a b w = (b', w')" "a \<le> length (pw_remaining_prompt w)"
  shows "sb_tokens b' = sb_tokens b @ take a (pw_remaining_prompt w)"
    "sb_positions b' = sb_positions b @ map as_i32 [pw_next_pos w ..< pw_next_pos w + a]"
    "sb_row_slot b' = sb_row_slot b @ replicate a (as_i32 (pw_slot w))"
    "sb_m_per_slot b' = (sb_m_per_slot b)[i := a]" "consumed a w w'"
    "length (sb_pos3 b') = length (sb_pos3 b) + (if any3 then a else 0)"
    "length (sb_ext_emb b') = length (sb_ext_emb b) + (if any3 then a else 0)"
proof -
  let ?ts = "take a (pw_remaining_prompt w)"
  let ?b = "b\<lparr>sb_m_per_slot := (sb_m_per_slot b)[i := length ?ts]\<rparr>"
  let ?w = "w\<lparr>pw_remaining_prompt := drop a (pw_remaining_prompt w)\<rparr>"
  obtain b1 w1 where p: "push_rows any3 ?ts (pw_next_pos w) (?b, ?w) = (b1, w1)" by fastforce
  have e: "b' = b1" "w' = w1\<lparr>pw_next_pos := pw_next_pos w1 + length ?ts\<rparr>"
    using assms(1) p by (simp_all add: take_slot_def Let_def)
  have l: "length ?ts = a" using assms(2) by simp
  note P = push_rows_eq [OF p, unfolded l]
  show "sb_tokens b' = sb_tokens b @ ?ts" "sb_positions b' = sb_positions b @ map as_i32 [pw_next_pos w ..< pw_next_pos w + a]"
    "sb_row_slot b' = sb_row_slot b @ replicate a (as_i32 (pw_slot w))" "sb_m_per_slot b' = (sb_m_per_slot b)[i := a]"
    "length (sb_pos3 b') = length (sb_pos3 b) + (if any3 then a else 0)"
    "length (sb_ext_emb b') = length (sb_ext_emb b) + (if any3 then a else 0)"
    using P l by (simp_all add: e)
  show "consumed a w w'" using P(5) l by (auto simp: e consumed_def)
qed

lemma take_slots_eq:
  assumes "take_slots any3 alloc i b ws = (b', ws')" "i + length ws = length alloc"
    "\<And>j. j < length ws \<Longrightarrow> alloc ! (i + j) \<le> length (pw_remaining_prompt (ws ! j))"
    "length (sb_m_per_slot b) = length alloc" "drop i (sb_m_per_slot b) = replicate (length ws) 0"
  shows "sb_tokens b' = sb_tokens b @ rows_of (\<lambda>a w. take a (pw_remaining_prompt w)) (drop i alloc) ws
    \<and> sb_positions b' = sb_positions b @ rows_of (\<lambda>a w. map as_i32 [pw_next_pos w ..< pw_next_pos w + a]) (drop i alloc) ws
    \<and> sb_row_slot b' = sb_row_slot b @ rows_of (\<lambda>a w. replicate a (as_i32 (pw_slot w))) (drop i alloc) ws
    \<and> sb_m_per_slot b' = take i (sb_m_per_slot b) @ drop i alloc
    \<and> list_all2 (\<lambda>(a, w) w'. consumed a w w') (zip (drop i alloc) ws) ws'
    \<and> length (sb_pos3 b') = length (sb_pos3 b) + (if any3 then sum_list (drop i alloc) else 0)
    \<and> length (sb_ext_emb b') = length (sb_ext_emb b) + (if any3 then sum_list (drop i alloc) else 0)"
  using assms
proof (induction ws arbitrary: i b b' ws')
  case Nil
  then show ?case by simp
next
  case (Cons w ws)
  let ?a = "alloc ! i"
  have i: "i < length alloc" "drop i alloc = ?a # drop (Suc i) alloc"
    using Cons.prems(2) by (simp_all add: Cons_nth_drop_Suc)
  have a: "?a \<le> length (pw_remaining_prompt w)" using Cons.prems(3) [of 0] by simp
  have rest: "\<And>j. j < length ws \<Longrightarrow> alloc ! (Suc i + j) \<le> length (pw_remaining_prompt (ws ! j))"
    using Cons.prems(3) [of "Suc _"] by simp
  have m0: "drop (Suc i) (sb_m_per_slot b) = replicate (length ws) 0" "sb_m_per_slot b ! i = 0"
    using Cons.prems(4,5) i(1) by (auto simp flip: Cons_nth_drop_Suc)
  obtain b1 w1 ws1 where t: "b1 = (if ?a = 0 then b else fst (take_slot any3 i ?a b w))"
      "w1 = (if ?a = 0 then w else snd (take_slot any3 i ?a b w))"
    and r: "take_slots any3 alloc (Suc i) b1 ws = (b', ws1)" and ws': "ws' = w1 # ws1"
    using Cons.prems(1) by (auto split: if_splits prod.splits)
  have 1: "sb_tokens b1 = sb_tokens b @ take ?a (pw_remaining_prompt w)"
    "sb_positions b1 = sb_positions b @ map as_i32 [pw_next_pos w ..< pw_next_pos w + ?a]"
    "sb_row_slot b1 = sb_row_slot b @ replicate ?a (as_i32 (pw_slot w))"
    "sb_m_per_slot b1 = (sb_m_per_slot b)[i := ?a]" "consumed ?a w w1"
    "length (sb_pos3 b1) = length (sb_pos3 b) + (if any3 then ?a else 0)"
    "length (sb_ext_emb b1) = length (sb_ext_emb b) + (if any3 then ?a else 0)"
  proof -
    obtain b2 w2 where ts: "take_slot any3 i ?a b w = (b2, w2)" by fastforce
    show "sb_tokens b1 = sb_tokens b @ take ?a (pw_remaining_prompt w)"
      "sb_positions b1 = sb_positions b @ map as_i32 [pw_next_pos w ..< pw_next_pos w + ?a]"
      "sb_row_slot b1 = sb_row_slot b @ replicate ?a (as_i32 (pw_slot w))"
      "sb_m_per_slot b1 = (sb_m_per_slot b)[i := ?a]" "consumed ?a w w1"
      "length (sb_pos3 b1) = length (sb_pos3 b) + (if any3 then ?a else 0)"
      "length (sb_ext_emb b1) = length (sb_ext_emb b) + (if any3 then ?a else 0)"
      using take_slot_eq [OF ts a] t ts m0(2) list_update_id [of "sb_m_per_slot b" i]
      by (auto simp: consumed_def)
  qed
  have "sb_m_per_slot b1 = take i (sb_m_per_slot b) @ ?a # drop (Suc i) (sb_m_per_slot b)"
    using 1(4) upd_conv_take_nth_drop [of i "sb_m_per_slot b" ?a] i(1) Cons.prems(4) by simp
  then have m1: "take (Suc i) (sb_m_per_slot b1) = take i (sb_m_per_slot b) @ [?a]"
    "drop (Suc i) (sb_m_per_slot b1) = replicate (length ws) 0" "length (sb_m_per_slot b1) = length alloc"
    using i(1) Cons.prems(2,4) m0(1) 1(4) by (simp_all add: take_append)
  from Cons.IH [OF r _ rest m1(3,2)] Cons.prems(2) 1 i(2) m1(1) ws' show ?case by auto
qed

text \<open>
  C32: The batch of a step is a faithful cut of the pending work: the flat token array is the slots' allotted
  prompt prefixes in slot order, its per-slot counts are the allocation, every row carries its slot and its
  consecutive absolute position, what is left in each slot follows what was taken, and the phase arrays are
  absent or have one entry per row.
\<close>

theorem next_batch_cut:
  assumes "next_batch_eligible sc work rem pmin el = (sc', work', b)"
  shows "let alloc = ra_alloc (allocate_rows sc work rem pmin el) in
      sb_m_per_slot b = alloc \<and> sum_list alloc \<le> rem \<and> length (sb_tokens b) = sum_list alloc
      \<and> sb_tokens b = rows_of (\<lambda>a w. take a (pw_remaining_prompt w)) alloc work
      \<and> sb_positions b = rows_of (\<lambda>a w. map as_i32 [pw_next_pos w ..< pw_next_pos w + a]) alloc work
      \<and> sb_row_slot b = rows_of (\<lambda>a w. replicate a (as_i32 (pw_slot w))) alloc work
      \<and> list_all2 (\<lambda>(a, w) w'. consumed a w w') (zip alloc work) work'
      \<and> length (sb_pos3 b) = (if any_pos3 sc work then sum_list alloc else 0)
      \<and> length (sb_ext_emb b) = length (sb_pos3 b)"
proof -
  let ?alloc = "ra_alloc (allocate_rows sc work rem pmin el)"
  have t: "take_slots (any_pos3 sc work) ?alloc 0 (sb_default\<lparr>sb_m_per_slot := replicate (length work) 0\<rparr>) work = (b, work')"
    using assms by (auto simp: next_batch_eligible_def Let_def split: prod.splits)
  have len: "length ?alloc = length work"
    using allocate_rows_share(1) [where sc = sc and work = work and rem = rem and pmin = pmin and el = el]
    by (simp add: fair_share_def)
  have le: "?alloc ! j \<le> length (pw_remaining_prompt (work ! j))" if "j < length work" for j
    by (rule allocate_rows_slot(2) [OF that])
  note T = take_slots_eq [OF t, simplified sb_default_def, simplified, OF len [symmetric] le, simplified]
  have "length (rows_of (\<lambda>a w. take a (pw_remaining_prompt w)) ?alloc work) = sum_list ?alloc"
    by (rule rows_of_length [OF len le])
  then show ?thesis using T len allocate_rows_share(2) [of sc work rem pmin el] by (simp add: Let_def)
qed

section \<open>A concrete step\<close>

text \<open>Slot 0 decodes, slots 1 and 2 prefill 5 and 3 tokens; the chunk size is 2 and the quantum 4.\<close>

definition demo_item :: "nat \<Rightarrow> nat list \<Rightarrow> bool \<Rightarrow> pending_work" where
  "demo_item slot prompt decoding =
     \<lparr>pw_slot = slot, pw_remaining_prompt = prompt, pw_next_pos = 10, pw_decoding = decoding, pw_vl_prefill = None,
      pw_spec = SpecNone, pw_spec_cycles = 0, pw_spec_committed = 0, pw_spec_retire_fails = 0, pw_pos3_delta = 0\<rparr>"

definition demo_work :: "pending_work list" where
  "demo_work = [demo_item 0 [7] True, demo_item 1 [1, 2, 3, 4, 5] False, demo_item 2 [8, 9, 8] False]"

definition demo_sched :: scheduler where
  "demo_sched = \<lparr>sc_chunk_size = 2, sc_vl_sequential = False, sc_prefill_cursor = 0\<rparr>"

lemmas sched_run = demo_item_def demo_work_def demo_sched_def allocate_rows_def decode_lanes.simps quota_of_def
  page_align_take_def prefill_slots_def rotated_def distribute.simps give_round.simps round_take_def
  is_runnable_decode_def is_runnable_prefill_def skip_entirely_def vl_waiting_def spec_active_def eligible_at_def
  vec_get_def PAGE_TOKENS_def Let_def

lemma demo_alloc:
  "ra_alloc (allocate_rows demo_sched demo_work 6 4 [True, True, True]) = [1, 4, 1]"
  "ra_next_prefill_cursor (allocate_rows demo_sched demo_work 6 4 [True, True, True]) = Some 1"
  by (simp_all add: sched_run upt_rec)

theorem allocate_rows_sound_witness:
  "ra_alloc (allocate_rows demo_sched demo_work 6 4 [True, True, True]) ! 1 \<le> max 2 4"
  using allocate_rows_sound [of 1 demo_work demo_sched 6 4 "[True, True, True]"] demo_alloc
  by (simp add: demo_work_def demo_sched_def Let_def)

theorem allocate_rows_work_conserving_witness:
  "ra_alloc (allocate_rows demo_sched demo_work 20 4 [True, True, True]) ! 0 = 1"
proof -
  have a: "ra_alloc (allocate_rows demo_sched demo_work 20 4 [True, True, True]) = [1, 4, 3]"
    by (simp add: sched_run upt_rec)
  have "is_runnable_decode (demo_work ! 0) False" "eligible_at [True, True, True] 0" by (simp_all add: sched_run)
  then show ?thesis
    using allocate_rows_work_conserving [of demo_sched demo_work 20 4 "[True, True, True]"] a
    by (simp add: Let_def demo_work_def demo_sched_def)
qed

theorem next_batch_cut_witness:
  "case next_batch_eligible demo_sched demo_work 6 4 [True, True, True] of (sc', work', b) \<Rightarrow>
     sb_tokens b = [7, 1, 2, 3, 4, 8] \<and> sb_m_per_slot b = [1, 4, 1]"
proof -
  obtain sc' work' b where e: "next_batch_eligible demo_sched demo_work 6 4 [True, True, True] = (sc', work', b)"
    by (metis prod_cases3)
  from next_batch_cut [OF e] show ?thesis
    unfolding e demo_alloc Let_def by (simp add: demo_work_def demo_item_def)
qed

text \<open>
  The chunk size is not the per-request maximum it is described as: with a prefill quantum above it, one
  slot receives the whole quantum in one step.
\<close>

theorem quantum_overrides_chunk_size:
  "sc_chunk_size demo_sched = 2 \<and> ra_alloc (allocate_rows demo_sched demo_work 6 4 [True, True, True]) ! 1 = 4"
  unfolding demo_alloc by (simp add: demo_sched_def)


end
