(* ===== verification/Batch_Planner.thy ===== *)
theory Batch_Planner
  imports Scheduler_Props
begin

text \<open>
  The cross-request step planner, \<^verbatim>\<open>crates/hipfire-runtime/src/slot_batch.rs\<close>: a plan is made without touching
  the pending work, and is published or discarded once the step's outcome is known. A failed index of
  the source is the error \<open>PlanPanic\<close>.
\<close>

section \<open>Step contract\<close>

record request_epoch =
  re_request_tag :: nat
  re_owner_generation :: nat

definition epoch_admitted :: "request_epoch \<Rightarrow> bool" where
  "epoch_admitted e \<longleftrightarrow> re_owner_generation e \<noteq> 0"

record row_range =
  rr_begin :: nat
  rr_len :: nat

definition rr_end :: "row_range \<Rightarrow> nat" where
  "rr_end r = rr_begin r + rr_len r"

datatype request_step_kind = Ar | Verify nat | Prefill | Forced

record request_rows =
  rq_epoch :: request_epoch
  rq_rows :: row_range
  rq_kind :: request_step_kind

record batch_step_plan =
  bp_batch :: slot_batch
  bp_requests :: "request_rows list"
  bp_decode_rows :: nat
  bp_prefill_rows :: nat
  bp_verify_rows :: nat
  bp_forced_rows :: nat

record request_advance =
  ad_epoch :: request_epoch
  ad_committed_ids :: "nat list"
  ad_committed_position :: nat
  ad_accepted_drafts :: nat
  ad_verified_rows :: nat
  ad_finish :: "string option"

text \<open>\<^verbatim>\<open>SlotBatch::build\<close> from \<open>(slot, tokens, start position)\<close> triples.\<close>

fun build_batch :: "slot_batch \<Rightarrow> (nat \<times> nat list \<times> nat) list \<Rightarrow> slot_batch" where
  "build_batch b [] = b"
| "build_batch b ((slot, toks, start_pos) # rest) =
     build_batch
       (b\<lparr>sb_m_per_slot := sb_m_per_slot b @ [length toks], sb_tokens := sb_tokens b @ toks,
          sb_positions := sb_positions b @ map as_i32 [start_pos ..< start_pos + length toks],
          sb_row_slot := sb_row_slot b @ replicate (length toks) (as_i32 slot)\<rparr>) rest"

definition sb_build :: "(nat \<times> nat list \<times> nat) list \<Rightarrow> slot_batch" where
  "sb_build per_slot = build_batch sb_default per_slot"

definition sb_total_rows :: "slot_batch \<Rightarrow> nat" where
  "sb_total_rows b = length (sb_tokens b)"

definition plan_total_rows :: "batch_step_plan \<Rightarrow> nat" where
  "plan_total_rows plan = sb_total_rows (bp_batch plan)"

section \<open>The planner\<close>

record batch_planner =
  pl_scheduler :: scheduler
  pl_mtp_draft_len :: nat
  pl_dflash_draft_len :: nat
  pl_forced_prefill_len :: "nat option list"
  pl_pending_cursor :: "nat option"

definition planner_new :: "scheduler \<Rightarrow> nat \<Rightarrow> nat \<Rightarrow> batch_planner" where
  "planner_new sc mtp dflash =
     \<lparr>pl_scheduler = sc, pl_mtp_draft_len = mtp, pl_dflash_draft_len = dflash, pl_forced_prefill_len = [],
      pl_pending_cursor = None\<rparr>"

definition draft_len :: "batch_planner \<Rightarrow> spec_kind \<Rightarrow> nat" where
  "draft_len pl spec =
     (case spec of SpecNone \<Rightarrow> 0 | Mtp \<Rightarrow> pl_mtp_draft_len pl | Dflash \<Rightarrow> pl_dflash_draft_len pl)"

datatype plan_error =
    PlanMisaligned nat nat nat
  | PlanSequentialVl nat
  | PlanSeeds nat nat
  | PlanPanic
  | PubMisaligned
  | PubUnadmitted request_epoch
  | PubStale request_epoch
  | PubPrefill request_epoch
  | PubPosition nat nat
  | PubAdvances nat request_epoch
  | PubUnplanned request_epoch
  | PubUnderflow nat
  | PubNoAdvance request_epoch

text \<open>Verify lanes in slot order; a lane that does not fit the cap is left out.\<close>

fun verify_lanes :: "batch_planner \<Rightarrow> nat \<Rightarrow> nat \<Rightarrow> (bool \<times> pending_work) list \<Rightarrow> plan_error + nat list" where
  "verify_lanes pl cap used [] = Ok []"
| "verify_lanes pl cap used ((admitted, w) # rest) =
     (if \<not> admitted \<or> \<not> (spec_active (pw_spec w) \<and> pw_decoding w) \<or> vl_waiting w
      then map_sum (\<lambda>x. x) (Cons 0) (verify_lanes pl cap used rest)
      else if length (pw_remaining_prompt w) \<noteq> 1
      then Err (PlanSeeds (pw_slot w) (length (pw_remaining_prompt w)))
      else
        let rows = draft_len pl (pw_spec w) + 1
        in if used + rows > cap then map_sum (\<lambda>x. x) (Cons 0) (verify_lanes pl cap used rest)
           else map_sum (\<lambda>x. x) (Cons rows) (verify_lanes pl cap (used + rows) rest))"

text \<open>The forced prefill lengths: decode rows stay, then each forced slot takes exactly its length or nothing.\<close>

fun forced_lanes ::
  "nat option list \<Rightarrow> pending_work list \<Rightarrow> nat list \<Rightarrow> nat list \<Rightarrow> nat \<Rightarrow> nat list" where
  "forced_lanes forced work [] alloc avail = alloc"
| "forced_lanes forced work (i # is) alloc avail =
     (case Option.bind (vec_get forced i) (\<lambda>x. x) of
        None \<Rightarrow> forced_lanes forced work is alloc avail
      | Some w \<Rightarrow>
          let want = min w (length (pw_remaining_prompt (work ! i)))
          in if want > 0 \<and> want \<le> avail then forced_lanes forced work is (alloc[i := want]) (avail - want)
             else forced_lanes forced work is alloc avail)"

definition keep_decode :: "pending_work list \<Rightarrow> nat list \<Rightarrow> nat list" where
  "keep_decode work alloc = map (\<lambda>(a, w). if a > 0 \<and> pw_decoding w then a else 0) (zip alloc work)"

definition force_prefill ::
  "batch_planner \<Rightarrow> pending_work list \<Rightarrow> bool list \<Rightarrow> nat \<Rightarrow> row_allocation \<Rightarrow> row_allocation" where
  "force_prefill pl work admitted budget ra =
     (if pl_forced_prefill_len pl = [] then ra
      else
        let kept = keep_decode work (ra_alloc ra);
            avail = budget - sum_list kept;
            pf = prefill_slots (sc_vl_sequential (pl_scheduler pl)) admitted work;
            cursor = sc_prefill_cursor (pl_scheduler pl);
            start = (if pf = [] then 0 else cursor mod length pf)
        in \<lparr>ra_alloc = forced_lanes (pl_forced_prefill_len pl) work (rotated pf start) kept avail,
            ra_next_prefill_cursor = (if pf \<noteq> [] then Some ((cursor + 1) mod length pf) else None)\<rparr>)"

text \<open>The rows of one request: row \<open>j\<close> with the count of rows left; rows past the seed of a verify lane repeat the seed.\<close>

fun plan_rows ::
  "bool \<Rightarrow> request_step_kind \<Rightarrow> pending_work \<Rightarrow> nat \<Rightarrow> nat \<Rightarrow> nat \<Rightarrow> slot_batch \<Rightarrow> slot_batch" where
  "plan_rows any3 kind w visual_idx j 0 b = b"
| "plan_rows any3 kind w visual_idx j (Suc m) b =
     (let t = pw_remaining_prompt w ! min j (length (pw_remaining_prompt w) - 1);
          pos = pw_next_pos w + j;
          b = b\<lparr>sb_tokens := sb_tokens b @ [t], sb_positions := sb_positions b @ [as_i32 pos],
                sb_row_slot := sb_row_slot b @ [as_i32 (pw_slot w)]\<rparr>
      in if \<not> any3 then plan_rows any3 kind w visual_idx (j + 1) m b
         else case pw_vl_prefill w of
           Some vl \<Rightarrow>
             let b = b\<lparr>sb_pos3 := sb_pos3 b @ [vl_pos3 vl pos]\<rparr>
             in if kind = Prefill \<and> t = vl_image_pad_id vl \<and> visual_idx < vl_n_visual_tokens vl
                then plan_rows any3 kind w (visual_idx + 1) (j + 1) m
                       (b\<lparr>sb_ext_emb := sb_ext_emb b @ [as_i32 visual_idx]\<rparr>)
                else plan_rows any3 kind w visual_idx (j + 1) m (b\<lparr>sb_ext_emb := sb_ext_emb b @ [- 1]\<rparr>)
         | None \<Rightarrow>
             (let p = add_i32 (as_i32 pos) (pw_pos3_delta w)
              in plan_rows any3 kind w visual_idx (j + 1) m
                   (b\<lparr>sb_pos3 := sb_pos3 b @ [(p, p, p)], sb_ext_emb := sb_ext_emb b @ [- 1]\<rparr>)))"

definition plan_default :: "nat \<Rightarrow> batch_step_plan" where
  "plan_default n =
     \<lparr>bp_batch = sb_default\<lparr>sb_m_per_slot := replicate n 0\<rparr>, bp_requests = [], bp_decode_rows = 0,
      bp_prefill_rows = 0, bp_verify_rows = 0, bp_forced_rows = 0\<rparr>"

definition lane_kind :: "nat \<Rightarrow> pending_work \<Rightarrow> request_step_kind" where
  "lane_kind verify w = (if verify > 0 then Verify (verify - 1) else if pw_decoding w then Ar else Prefill)"

definition plan_request ::
  "bool \<Rightarrow> nat \<Rightarrow> nat \<Rightarrow> request_step_kind \<Rightarrow> request_epoch \<Rightarrow> pending_work \<Rightarrow> batch_step_plan \<Rightarrow> batch_step_plan" where
  "plan_request any3 i rows kind epoch w plan =
     (let b = bp_batch plan;
          first = length (sb_tokens b);
          visual_idx = (case pw_vl_prefill w of None \<Rightarrow> 0 | Some vl \<Rightarrow> vl_visual_idx vl);
          b = plan_rows any3 kind w visual_idx 0 rows b;
          plan = plan\<lparr>bp_batch := b\<lparr>sb_m_per_slot := (sb_m_per_slot b)[i := rows]\<rparr>,
                      bp_requests := bp_requests plan @ [\<lparr>rq_epoch = epoch, rq_rows = \<lparr>rr_begin = first, rr_len = rows\<rparr>, rq_kind = kind\<rparr>]\<rparr>
      in case kind of
           Ar \<Rightarrow> plan\<lparr>bp_decode_rows := bp_decode_rows plan + rows\<rparr>
         | Prefill \<Rightarrow> plan\<lparr>bp_prefill_rows := bp_prefill_rows plan + rows\<rparr>
         | Verify _ \<Rightarrow> plan\<lparr>bp_verify_rows := bp_verify_rows plan + rows\<rparr>
         | Forced \<Rightarrow> plan\<lparr>bp_forced_rows := bp_forced_rows plan + rows\<rparr>)"

fun plan_requests ::
  "bool \<Rightarrow> nat list \<Rightarrow> nat list \<Rightarrow> request_epoch list \<Rightarrow> nat \<Rightarrow> pending_work list \<Rightarrow> batch_step_plan
     \<Rightarrow> plan_error + batch_step_plan" where
  "plan_requests any3 verify alloc epochs i [] plan = Ok plan"
| "plan_requests any3 verify alloc epochs i (w # ws) plan =
     (let rows = (if verify ! i > 0 then verify ! i else alloc ! i)
      in if rows = 0 then plan_requests any3 verify alloc epochs (i + 1) ws plan
         else if pw_remaining_prompt w = [] then Err PlanPanic
         else plan_requests any3 verify alloc epochs (i + 1) ws
                (plan_request any3 i rows (lane_kind (verify ! i) w) (epochs ! i) w plan))"

definition plan_step ::
  "batch_planner \<Rightarrow> pending_work list \<Rightarrow> request_epoch list \<Rightarrow> bool list \<Rightarrow> nat \<Rightarrow> nat
     \<Rightarrow> batch_planner \<times> (plan_error + batch_step_plan)" where
  "plan_step pl work epochs eligible row_budget prefill_min_tokens =
     (let n = length work in
      if length epochs \<noteq> n \<or> length eligible \<noteq> n
      then (pl, Err (PlanMisaligned n (length epochs) (length eligible)))
      else
        let sc = pl_scheduler pl;
            vl_seq = sc_vl_sequential sc;
            admitted = map (\<lambda>(e, ep). e \<and> epoch_admitted ep) (zip eligible epochs)
        in case find (\<lambda>(a, w). a \<and> pw_vl_prefill w \<noteq> None \<and> vl_seq) (zip admitted work) of
             Some (_, w) \<Rightarrow> (pl, Err (PlanSequentialVl (pw_slot w)))
           | None \<Rightarrow>
               let ar_lanes = length (filter (\<lambda>(a, w). a \<and> is_runnable_decode w vl_seq) (zip admitted work));
                   prefill_reserve =
                     fold max (map (\<lambda>i. min (max prefill_min_tokens 1) (length (pw_remaining_prompt (work ! i))))
                                   (prefill_slots vl_seq admitted work)) 0;
                   verify_cap = saturating_sub row_budget (ar_lanes + prefill_reserve)
               in case verify_lanes pl verify_cap 0 (zip admitted work) of
                    Inl e \<Rightarrow> (pl, Err e)
                  | Inr verify \<Rightarrow>
                      let budget = row_budget - sum_list verify;
                          ra = force_prefill pl work admitted budget
                                 (allocate_rows sc work budget prefill_min_tokens admitted)
                      in case plan_requests (any_pos3 sc work) verify (ra_alloc ra) epochs 0 work (plan_default n) of
                           Inl e \<Rightarrow> (pl, Err e)
                         | Inr plan \<Rightarrow> (pl\<lparr>pl_pending_cursor := ra_next_prefill_cursor ra\<rparr>, Ok plan))"

section \<open>Publishing a step\<close>

definition advance_of :: "request_advance list \<Rightarrow> request_epoch \<Rightarrow> request_advance option" where
  "advance_of advances e = find (\<lambda>a. ad_epoch a = e) advances"

definition check_request ::
  "pending_work list \<Rightarrow> request_epoch list \<Rightarrow> request_advance list \<Rightarrow> request_rows \<Rightarrow> plan_error + unit" where
  "check_request work work_epochs advances rr =
     (let e = rq_epoch rr in
      if \<not> epoch_admitted e then Err (PubUnadmitted e)
      else case position (\<lambda>x. x = e) work_epochs of
        None \<Rightarrow> Err (PubStale e)
      | Some i \<Rightarrow>
          let n_adv = length (filter (\<lambda>a. ad_epoch a = e) advances) in
          case rq_kind rr of
            Prefill \<Rightarrow>
              let left = length (pw_remaining_prompt (work ! i));
                  len = rr_len (rq_rows rr)
              in if left < len \<or> n_adv > (if left = len then 1 else 0) then Err (PubPrefill e)
                 else (case advance_of advances e of
                         None \<Rightarrow> Ok ()
                       | Some a \<Rightarrow>
                           if ad_committed_position a \<noteq> pw_next_pos (work ! i) + len
                           then Err (PubPosition (ad_committed_position a) (pw_next_pos (work ! i) + len))
                           else Ok ())
          | _ \<Rightarrow> if n_adv \<noteq> 1 then Err (PubAdvances n_adv e) else Ok ())"

fun check_requests ::
  "pending_work list \<Rightarrow> request_epoch list \<Rightarrow> request_advance list \<Rightarrow> request_rows list \<Rightarrow> plan_error + unit" where
  "check_requests work work_epochs advances [] = Ok ()"
| "check_requests work work_epochs advances (rr # rrs) =
     (case check_request work work_epochs advances rr of
        Inl e \<Rightarrow> Err e
      | Inr _ \<Rightarrow> check_requests work work_epochs advances rrs)"

text \<open>The next pending seed is the last committed id of an unfinished request.\<close>

definition seed_of :: "request_advance \<Rightarrow> nat list" where
  "seed_of a = (if ad_finish a = None \<and> ad_committed_ids a \<noteq> [] then [last (ad_committed_ids a)] else [])"

definition skip_pads :: "nat \<Rightarrow> pending_work \<Rightarrow> pending_work" where
  "skip_pads len w =
     (case pw_vl_prefill w of
        None \<Rightarrow> w
      | Some vl \<Rightarrow>
          let pads = length (filter (\<lambda>t. t = vl_image_pad_id vl) (take len (pw_remaining_prompt w)))
          in w\<lparr>pw_vl_prefill := Some (vl\<lparr>vl_visual_idx := min (vl_visual_idx vl + pads) (vl_n_visual_tokens vl)\<rparr>)\<rparr>)"

definition apply_prefill :: "nat \<Rightarrow> request_advance option \<Rightarrow> pending_work \<Rightarrow> pending_work" where
  "apply_prefill len adv w =
     (let w = skip_pads len w;
          w = w\<lparr>pw_remaining_prompt := drop len (pw_remaining_prompt w), pw_next_pos := pw_next_pos w + len\<rparr>
      in case adv of
           None \<Rightarrow> w
         | Some a \<Rightarrow> w\<lparr>pw_decoding := True, pw_remaining_prompt := pw_remaining_prompt w @ seed_of a\<rparr>)"

definition apply_advance :: "request_advance \<Rightarrow> pending_work \<Rightarrow> pending_work" where
  "apply_advance a w = w\<lparr>pw_next_pos := ad_committed_position a, pw_remaining_prompt := seed_of a\<rparr>"

fun apply_requests ::
  "request_epoch list \<Rightarrow> request_advance list \<Rightarrow> request_rows list \<Rightarrow> pending_work list
     \<Rightarrow> pending_work list \<times> (plan_error + unit)" where
  "apply_requests work_epochs advances [] work = (work, Ok ())"
| "apply_requests work_epochs advances (rr # rrs) work =
     (let e = rq_epoch rr in
      case position (\<lambda>x. x = e) work_epochs of
        None \<Rightarrow> (work, Err (PubStale e))
      | Some i \<Rightarrow>
          (case rq_kind rr of
             Prefill \<Rightarrow>
               if length (pw_remaining_prompt (work ! i)) < rr_len (rq_rows rr)
               then (work, Err (PubUnderflow (pw_slot (work ! i))))
               else apply_requests work_epochs advances rrs
                      (work[i := apply_prefill (rr_len (rq_rows rr)) (advance_of advances e) (work ! i)])
           | _ \<Rightarrow>
               (case advance_of advances e of
                  None \<Rightarrow> (work, Err (PubNoAdvance e))
                | Some a \<Rightarrow>
                    apply_requests work_epochs advances rrs (work[i := apply_advance a (work ! i)]))))"

definition publish ::
  "batch_planner \<Rightarrow> pending_work list \<Rightarrow> request_epoch list \<Rightarrow> batch_step_plan \<Rightarrow> request_advance list
     \<Rightarrow> batch_planner \<times> pending_work list \<times> (plan_error + unit)" where
  "publish pl work work_epochs plan advances =
     (if length work_epochs \<noteq> length work then (pl, work, Err PubMisaligned)
      else case check_requests work work_epochs advances (bp_requests plan) of
        Inl e \<Rightarrow> (pl, work, Err e)
      | Inr _ \<Rightarrow>
          (case find (\<lambda>a. \<not> list_ex (\<lambda>r. rq_epoch r = ad_epoch a) (bp_requests plan)) advances of
             Some a \<Rightarrow> (pl, work, Err (PubUnplanned (ad_epoch a)))
           | None \<Rightarrow>
               (case apply_requests work_epochs advances (bp_requests plan) work of
                  (work, Inl e) \<Rightarrow> (pl, work, Err e)
                | (work, Inr _) \<Rightarrow>
                    (case pl_pending_cursor pl of
                       None \<Rightarrow> (pl, work, Ok ())
                     | Some c \<Rightarrow>
                         (pl\<lparr>pl_pending_cursor := None,
                             pl_scheduler := (pl_scheduler pl)\<lparr>sc_prefill_cursor := c\<rparr>\<rparr>, work, Ok ())))))"

definition discard :: "batch_planner \<Rightarrow> batch_planner" where
  "discard pl = pl\<lparr>pl_pending_cursor := None\<rparr>"

end
