(* ===== verification/Batch_Props.thy ===== *)
theory Batch_Props
  imports Batch_Planner
begin

text \<open>
  A planned step stays within its row budget and lays the requests' rows end to end; verify lanes never take
  the rows of decoding or prefilling requests; publishing a step applies all of it or none.
\<close>

section \<open>Rows of a request\<close>

definition request_tokens :: "pending_work \<Rightarrow> nat \<Rightarrow> nat list" where
  "request_tokens w n = map (\<lambda>k. pw_remaining_prompt w ! min k (length (pw_remaining_prompt w) - 1)) [0 ..< n]"

lemma plan_rows_eq:
  fixes b :: slot_batch
  defines "f \<equiv> \<lambda>w k. pw_remaining_prompt w ! min k (length (pw_remaining_prompt w) - 1)"
  assumes "b' = plan_rows any3 kind w v j n b"
  shows "sb_tokens b' = sb_tokens b @ map (f w) [j ..< j + n]"
    "sb_positions b' = sb_positions b @ map (\<lambda>k. as_i32 (pw_next_pos w + k)) [j ..< j + n]"
    "sb_row_slot b' = sb_row_slot b @ replicate n (as_i32 (pw_slot w))" "sb_m_per_slot b' = sb_m_per_slot b"
proof -
  have "sb_tokens b' = sb_tokens b @ map (f w) [j ..< j + n]
    \<and> sb_positions b' = sb_positions b @ map (\<lambda>k. as_i32 (pw_next_pos w + k)) [j ..< j + n]
    \<and> sb_row_slot b' = sb_row_slot b @ replicate n (as_i32 (pw_slot w)) \<and> sb_m_per_slot b' = sb_m_per_slot b"
    using assms(2)
  proof (induction n arbitrary: v j b)
    case (Suc n)
    have u: "[j ..< j + Suc n] = j # [j + 1 ..< j + 1 + n]" by (subst upt_conv_Cons) simp_all
    obtain v' b1 where b1: "b' = plan_rows any3 kind w v' (j + 1) n b1"
      "sb_tokens b1 = sb_tokens b @ [f w j]" "sb_positions b1 = sb_positions b @ [as_i32 (pw_next_pos w + j)]"
      "sb_row_slot b1 = sb_row_slot b @ [as_i32 (pw_slot w)]" "sb_m_per_slot b1 = sb_m_per_slot b"
      using Suc.prems by (auto simp: Let_def f_def split: if_splits option.splits)
    from Suc.IH [OF b1(1)] b1(2-) show ?case unfolding u by simp
  qed simp
  then show "sb_tokens b' = sb_tokens b @ map (f w) [j ..< j + n]"
    "sb_positions b' = sb_positions b @ map (\<lambda>k. as_i32 (pw_next_pos w + k)) [j ..< j + n]"
    "sb_row_slot b' = sb_row_slot b @ replicate n (as_i32 (pw_slot w))" "sb_m_per_slot b' = sb_m_per_slot b"
    by blast+
qed

definition plan_rows_total :: "batch_step_plan \<Rightarrow> nat" where
  "plan_rows_total plan = bp_decode_rows plan + bp_prefill_rows plan + bp_verify_rows plan + bp_forced_rows plan"

lemma plan_request_eq:
  assumes "plan' = plan_request any3 i n kind e w plan"
  shows "sb_tokens (bp_batch plan') = sb_tokens (bp_batch plan) @ request_tokens w n"
    "sb_positions (bp_batch plan') = sb_positions (bp_batch plan) @ map (\<lambda>k. as_i32 (pw_next_pos w + k)) [0 ..< n]"
    "sb_row_slot (bp_batch plan') = sb_row_slot (bp_batch plan) @ replicate n (as_i32 (pw_slot w))"
    "sb_m_per_slot (bp_batch plan') = (sb_m_per_slot (bp_batch plan))[i := n]"
    "bp_requests plan' = bp_requests plan
       @ [\<lparr>rq_epoch = e, rq_rows = \<lparr>rr_begin = length (sb_tokens (bp_batch plan)), rr_len = n\<rparr>, rq_kind = kind\<rparr>]"
    "plan_rows_total plan' = plan_rows_total plan + n"
proof -
  define b1 where "b1 = plan_rows any3 kind w (case pw_vl_prefill w of None \<Rightarrow> 0 | Some vl \<Rightarrow> vl_visual_idx vl) 0 n (bp_batch plan)"
  note P = plan_rows_eq [OF b1_def]
  have e: "bp_batch plan' = b1\<lparr>sb_m_per_slot := (sb_m_per_slot b1)[i := n]\<rparr>"
    using assms unfolding plan_request_def Let_def b1_def [symmetric] by (cases kind) simp_all
  show "bp_requests plan' = bp_requests plan
       @ [\<lparr>rq_epoch = e, rq_rows = \<lparr>rr_begin = length (sb_tokens (bp_batch plan)), rr_len = n\<rparr>, rq_kind = kind\<rparr>]"
    using assms unfolding plan_request_def Let_def b1_def [symmetric] by (cases kind) simp_all
  show "plan_rows_total plan' = plan_rows_total plan + n"
    using assms unfolding plan_request_def Let_def b1_def [symmetric] by (cases kind) (simp_all add: plan_rows_total_def)
  show "sb_tokens (bp_batch plan') = sb_tokens (bp_batch plan) @ request_tokens w n"
    "sb_positions (bp_batch plan') = sb_positions (bp_batch plan) @ map (\<lambda>k. as_i32 (pw_next_pos w + k)) [0 ..< n]"
    "sb_row_slot (bp_batch plan') = sb_row_slot (bp_batch plan) @ replicate n (as_i32 (pw_slot w))"
    "sb_m_per_slot (bp_batch plan') = (sb_m_per_slot (bp_batch plan))[i := n]"
    using P by (simp_all add: e request_tokens_def)
qed

section \<open>The whole plan\<close>

text \<open>Requests whose row ranges follow each other from row \<open>b\<close> on.\<close>

fun tiled :: "nat \<Rightarrow> request_rows list \<Rightarrow> bool" where
  "tiled b [] = True"
| "tiled b (r # rs) \<longleftrightarrow> rr_begin (rq_rows r) = b \<and> 0 < rr_len (rq_rows r) \<and> tiled (rr_end (rq_rows r)) rs"

lemma tiled_append:
  "tiled b (rs @ rs') \<longleftrightarrow> tiled b rs \<and> tiled (b + sum_list (map (\<lambda>r. rr_len (rq_rows r)) rs)) rs'"
  by (induction rs arbitrary: b) (auto simp: rr_end_def add.assoc)

text \<open>A request of the plan shows the rows of one slot of the work.\<close>

definition shows_slot :: "pending_work list \<Rightarrow> request_epoch list \<Rightarrow> slot_batch \<Rightarrow> request_rows \<Rightarrow> nat \<Rightarrow> bool" where
  "shows_slot work epochs b r i \<longleftrightarrow> i < length work \<and> rq_epoch r = epochs ! i
     \<and> (\<forall>k < rr_len (rq_rows r).
          rr_begin (rq_rows r) + k < length (sb_tokens b)
          \<and> sb_tokens b ! (rr_begin (rq_rows r) + k)
              = pw_remaining_prompt (work ! i) ! min k (length (pw_remaining_prompt (work ! i)) - 1)
          \<and> sb_positions b ! (rr_begin (rq_rows r) + k) = as_i32 (pw_next_pos (work ! i) + k)
          \<and> sb_row_slot b ! (rr_begin (rq_rows r) + k) = as_i32 (pw_slot (work ! i)))"

definition plan_ok :: "pending_work list \<Rightarrow> request_epoch list \<Rightarrow> (nat \<Rightarrow> nat) \<Rightarrow> nat \<Rightarrow> batch_step_plan \<Rightarrow> bool" where
  "plan_ok work epochs rows i plan \<longleftrightarrow>
     (let b = bp_batch plan; served = filter (\<lambda>k. 0 < rows k) [0 ..< i] in
      length (sb_tokens b) = sum_list (map rows [0 ..< i]) \<and> length (sb_positions b) = length (sb_tokens b)
      \<and> length (sb_row_slot b) = length (sb_tokens b) \<and> plan_rows_total plan = length (sb_tokens b)
      \<and> sb_m_per_slot b = map rows [0 ..< i] @ replicate (length work - i) 0
      \<and> tiled 0 (bp_requests plan) \<and> map (\<lambda>r. rr_len (rq_rows r)) (bp_requests plan) = map rows served
      \<and> list_all2 (shows_slot work epochs b) (bp_requests plan) served)"

lemma shows_slot_mono:
  assumes "shows_slot work epochs b r i" "length (sb_positions b) = length (sb_tokens b)" "length (sb_row_slot b) = length (sb_tokens b)"
    "sb_tokens b' = sb_tokens b @ ts" "sb_positions b' = sb_positions b @ ps" "sb_row_slot b' = sb_row_slot b @ ss"
  shows "shows_slot work epochs b' r i"
  using assms by (auto simp: shows_slot_def nth_append)

lemma plan_ok_skip: "plan_ok work epochs rows i plan \<Longrightarrow> rows i = 0 \<Longrightarrow> i < length work \<Longrightarrow> plan_ok work epochs rows (Suc i) plan"
  by (auto simp: plan_ok_def Let_def simp flip: replicate_Suc)

lemma plan_ok_request:
  assumes ok: "plan_ok work epochs rows i plan" and i: "i < length work" "0 < rows i"
    and p: "plan' = plan_request any3 i (rows i) kind (epochs ! i) (work ! i) plan"
  shows "plan_ok work epochs rows (Suc i) plan'"
proof -
  note P = plan_request_eq [OF p]
  let ?b = "bp_batch plan" and ?b' = "bp_batch plan'"
  let ?served = "filter (\<lambda>k. 0 < rows k) [0 ..< i]"
  let ?r = "\<lparr>rq_epoch = epochs ! i, rq_rows = \<lparr>rr_begin = length (sb_tokens ?b), rr_len = rows i\<rparr>, rq_kind = kind\<rparr>"
  have O: "length (sb_tokens ?b) = sum_list (map rows [0 ..< i])" "length (sb_positions ?b) = length (sb_tokens ?b)"
    "length (sb_row_slot ?b) = length (sb_tokens ?b)" "plan_rows_total plan = length (sb_tokens ?b)"
    "sb_m_per_slot ?b = map rows [0 ..< i] @ replicate (length work - i) 0" "tiled 0 (bp_requests plan)"
    "map (\<lambda>r. rr_len (rq_rows r)) (bp_requests plan) = map rows ?served"
    "list_all2 (shows_slot work epochs ?b) (bp_requests plan) ?served"
    using ok by (simp_all add: plan_ok_def Let_def)
  have sum: "sum_list (map rows ?served) = sum_list (map rows [0 ..< i])"
    by (induction i) auto
  have old: "list_all2 (shows_slot work epochs ?b') (bp_requests plan) ?served"
    using O(8) by (rule list_all2_mono) (rule shows_slot_mono [OF _ O(2,3) P(1-3)])
  have new: "shows_slot work epochs ?b' ?r i"
    using O i P(1-3) by (auto simp: shows_slot_def nth_append request_tokens_def)
  have "(map rows [0 ..< i] @ replicate (length work - i) 0)[i := rows i]
      = map rows [0 ..< Suc i] @ replicate (length work - Suc i) 0"
    using i(1) by (cases "length work - i") (auto simp: list_update_append)
  moreover have "tiled 0 (bp_requests plan @ [?r])"
    using O(1,6,7) sum i(2) by (simp add: tiled_append)
  ultimately show ?thesis
    using O P i old new by (simp add: plan_ok_def Let_def list_all2_appendI request_tokens_def)
qed

lemma plan_requests_ok:
  assumes "plan_requests any3 verify alloc epochs i ws plan = Ok plan'" "ws = drop i work" "i \<le> length work"
    "plan_ok work epochs (\<lambda>k. if 0 < verify ! k then verify ! k else alloc ! k) i plan"
  shows "plan_ok work epochs (\<lambda>k. if 0 < verify ! k then verify ! k else alloc ! k) (length work) plan'"
  using assms
proof (induction any3 verify alloc epochs i ws plan rule: plan_requests.induct)
  case (1 any3 verify alloc epochs i plan)
  then have "i = length work" by simp
  then show ?case using 1 by simp
next
  case (2 any3 verify alloc epochs i w ws plan)
  let ?rows = "\<lambda>k. if 0 < verify ! k then verify ! k else alloc ! k"
  have lt: "i < length work" using "2.prems"(2,3) by (cases "i = length work") auto
  then have "w # ws = work ! i # drop (Suc i) work" using "2.prems"(2) by (simp add: Cons_nth_drop_Suc)
  then have i: "i < length work" "w = work ! i" "ws = drop (Suc i) work" using lt by simp_all
  show ?case
  proof (cases "?rows i = 0")
    case True
    then show ?thesis using 2 i plan_ok_skip [of work epochs ?rows i plan] by (auto simp: Let_def)
  next
    case False
    then have ne: "pw_remaining_prompt w \<noteq> []" using "2.prems"(1) by (auto simp: Let_def split: if_splits)
    let ?p = "plan_request any3 i (?rows i) (lane_kind (verify ! i) w) (epochs ! i) w plan"
    have "plan_requests any3 verify alloc epochs (i + 1) ws ?p = Ok plan'"
      using "2.prems"(1) False ne by (simp only: plan_requests.simps Let_def if_False)
    moreover have "plan_ok work epochs ?rows (Suc i) ?p"
      by (rule plan_ok_request [OF "2.prems"(4) i(1)]) (use False i in auto)
    ultimately show ?thesis using "2.IH"(2) [OF refl False ne] i by simp
  qed
qed

lemma plan_requests_total:
  assumes "\<And>k. k < length ws \<Longrightarrow> 0 < (if 0 < verify ! (i + k) then verify ! (i + k) else alloc ! (i + k))
    \<Longrightarrow> pw_remaining_prompt (ws ! k) \<noteq> []"
  shows "\<exists>plan'. plan_requests any3 verify alloc epochs i ws plan = Ok plan'"
  using assms
proof (induction ws arbitrary: i plan)
  case (Cons w ws)
  have IH: "\<exists>plan'. plan_requests any3 verify alloc epochs (i + 1) ws p = Ok plan'" for p
  proof (rule Cons.IH)
    fix k
    assume c: "k < length ws" "0 < (if 0 < verify ! (i + 1 + k) then verify ! (i + 1 + k) else alloc ! (i + 1 + k))"
    have e: "i + 1 + k = i + Suc k" by simp
    show "pw_remaining_prompt (ws ! k) \<noteq> []"
      using Cons.prems [of "Suc k"] c unfolding e
      by (simp only: length_Cons nth_Cons_Suc Suc_less_eq simp_thms True_implies_equals not_False_eq_True)
  qed
  show ?case using Cons.prems [of 0] IH by (auto simp: Let_def split: if_splits)
qed simp

section \<open>Verify and forced lanes\<close>

lemma map_sum_Ok: "map_sum (\<lambda>x. x) f r = Ok y \<longleftrightarrow> (\<exists>z. r = Ok z \<and> y = f z)"
  by (cases r) auto

lemma verify_lanes_ok:
  assumes "verify_lanes pl cap used ws = Ok v" "used \<le> cap"
  shows "length v = length ws \<and> used + sum_list v \<le> cap
    \<and> (\<forall>k < length ws. 0 < v ! k \<longrightarrow> fst (ws ! k) \<and> spec_active (pw_spec (snd (ws ! k))) \<and> pw_decoding (snd (ws ! k))
         \<and> length (pw_remaining_prompt (snd (ws ! k))) = 1 \<and> v ! k = draft_len pl (pw_spec (snd (ws ! k))) + 1)"
  using assms
proof (induction ws arbitrary: used v)
  case (Cons x rest)
  obtain admitted w where x: "x = (admitted, w)" by fastforce
  let ?n = "draft_len pl (pw_spec w) + 1"
  obtain a v' used' where v: "v = a # v'" and r: "verify_lanes pl cap used' rest = Ok v'" and u: "used' = used + a" "used' \<le> cap"
    and c: "a = 0 \<or> a = ?n \<and> admitted \<and> spec_active (pw_spec w) \<and> pw_decoding w \<and> length (pw_remaining_prompt w) = 1"
    using Cons.prems by (auto simp: x Let_def map_sum_Ok split: if_splits)
  from Cons.IH [OF r u(2)] show ?case using v u c by (auto simp: x All_less_Suc2)
qed simp

lemma verify_lanes_no_panic: "verify_lanes pl cap used ws \<noteq> Err PlanPanic"
proof (induction ws arbitrary: used)
  case (Cons x ws)
  have "map_sum (\<lambda>x. x) f (verify_lanes pl cap u ws) \<noteq> Err PlanPanic" for f u
    using Cons.IH [of u] by (cases "verify_lanes pl cap u ws") auto
  then show ?case by (cases x) (auto simp: Let_def)
qed simp

text \<open>An allocation that fits the budget, the prompts and the admitted slots.\<close>

definition fits :: "pending_work list \<Rightarrow> bool list \<Rightarrow> nat \<Rightarrow> nat list \<Rightarrow> bool" where
  "fits work admitted budget alloc \<longleftrightarrow> length alloc = length work \<and> sum_list alloc \<le> budget
     \<and> (\<forall>i < length work. alloc ! i \<le> length (pw_remaining_prompt (work ! i)) \<and> (0 < alloc ! i \<longrightarrow> eligible_at admitted i))"

lemma allocate_rows_fits: "fits work el rem (ra_alloc (allocate_rows sc work rem pmin el))"
  using allocate_rows_slot [where sc = sc and work = work and rem = rem and pmin = pmin and el = el]
    allocate_rows_share(1,2) [where sc = sc and work = work and rem = rem and pmin = pmin and el = el]
  by (auto simp: fits_def fair_share_def)

lemma forced_lanes_fits:
  assumes "fits work admitted (budget - avail) alloc" "avail \<le> budget"
    "\<forall>i \<in> set is. i < length work \<and> eligible_at admitted i"
  shows "fits work admitted budget (forced_lanes forced work is alloc avail)
    \<and> (\<forall>j. j \<notin> set is \<longrightarrow> forced_lanes forced work is alloc avail ! j = alloc ! j)"
  using assms
proof (induction "is" arbitrary: alloc avail)
  case Nil
  then show ?case by (auto simp: fits_def)
next
  case (Cons i "is")
  show ?case
  proof (cases "\<exists>w. Option.bind (vec_get forced i) (\<lambda>x. x) = Some w \<and> 0 < min w (length (pw_remaining_prompt (work ! i)))
      \<and> min w (length (pw_remaining_prompt (work ! i))) \<le> avail")
    case False
    then have "forced_lanes forced work (i # is) alloc avail = forced_lanes forced work is alloc avail"
      by (auto simp: Let_def split: option.splits)
    then show ?thesis using Cons by auto
  next
    case True
    then obtain w where w: "Option.bind (vec_get forced i) (\<lambda>x. x) = Some w" by blast
    let ?t = "min w (length (pw_remaining_prompt (work ! i)))"
    have t: "0 < ?t" "?t \<le> avail" using True w by auto
    have f: "forced_lanes forced work (i # is) alloc avail = forced_lanes forced work is (alloc[i := ?t]) (avail - ?t)"
      using w t by (simp add: Let_def)
    have i: "i < length alloc" "eligible_at admitted i" using Cons.prems(1,3) by (auto simp: fits_def)
    have "sum_list (alloc[i := ?t]) \<le> sum_list alloc + ?t" using sum_list_update_nat [OF i(1), of ?t] by linarith
    then have "fits work admitted (budget - (avail - ?t)) (alloc[i := ?t])"
      using Cons.prems(1,2) t i by (auto simp: fits_def nth_list_update)
    from Cons.IH [OF this] Cons.prems(2,3) show ?thesis unfolding f by auto
  qed
qed

lemma keep_decode_fits:
  assumes "fits work admitted budget alloc"
  shows "fits work admitted (sum_list (keep_decode work alloc)) (keep_decode work alloc)"
    "sum_list (keep_decode work alloc) \<le> budget"
    "i < length work \<Longrightarrow> keep_decode work alloc ! i = (if pw_decoding (work ! i) then alloc ! i else 0)"
proof -
  have len: "length alloc = length work" using assms by (simp add: fits_def)
  show k: "i < length work \<Longrightarrow> keep_decode work alloc ! i = (if pw_decoding (work ! i) then alloc ! i else 0)" for i
    using len by (simp add: keep_decode_def)
  have "sum_list (keep_decode work alloc) \<le> sum_list alloc"
    using len k by (intro sum_list_mono2) (auto simp: keep_decode_def)
  then show "sum_list (keep_decode work alloc) \<le> budget" using assms by (simp add: fits_def)
  show "fits work admitted (sum_list (keep_decode work alloc)) (keep_decode work alloc)"
    using assms k len by (auto simp: fits_def keep_decode_def split: if_splits)
qed

lemma force_prefill_fits:
  assumes "fits work admitted budget (ra_alloc ra)"
  shows "fits work admitted budget (ra_alloc (force_prefill pl work admitted budget ra))"
    "i < length work \<Longrightarrow> is_runnable_decode (work ! i) vls
     \<Longrightarrow> ra_alloc (force_prefill pl work admitted budget ra) ! i = ra_alloc ra ! i"
proof -
  let ?pf = "prefill_slots (sc_vl_sequential (pl_scheduler pl)) admitted work"
  let ?start = "if ?pf = [] then 0 else sc_prefill_cursor (pl_scheduler pl) mod length ?pf"
  let ?kept = "keep_decode work (ra_alloc ra)"
  have sub: "set (rotated ?pf ?start) \<subseteq> set ?pf"
    using set_rotated [of ?pf ?start] by (cases "?pf = []") (simp_all add: rotated_def [of "[]"])
  note K = keep_decode_fits [OF assms]
  have "fits work admitted budget (forced_lanes (pl_forced_prefill_len pl) work (rotated ?pf ?start) ?kept (budget - sum_list ?kept))
    \<and> (\<forall>j. j \<notin> set (rotated ?pf ?start)
        \<longrightarrow> forced_lanes (pl_forced_prefill_len pl) work (rotated ?pf ?start) ?kept (budget - sum_list ?kept) ! j = ?kept ! j)"
    by (rule forced_lanes_fits) (use K sub in \<open>auto simp: prefill_slots_mem\<close>)
  note F = this
  show "fits work admitted budget (ra_alloc (force_prefill pl work admitted budget ra))"
    using F assms by (simp add: force_prefill_def Let_def)
  show "ra_alloc (force_prefill pl work admitted budget ra) ! i = ra_alloc ra ! i"
    if "i < length work" "is_runnable_decode (work ! i) vls"
  proof -
    have d: "pw_decoding (work ! i)" using that(2) by (simp add: is_runnable_decode_def split: if_splits)
    then have "i \<notin> set (rotated ?pf ?start)"
      using sub by (auto simp: prefill_slots_mem is_runnable_prefill_def split: if_splits)
    then show ?thesis using F K(3) [OF that(1)] d by (simp add: force_prefill_def Let_def)
  qed
qed

section \<open>What a plan guarantees\<close>

definition admitted_of :: "bool list \<Rightarrow> request_epoch list \<Rightarrow> bool list" where
  "admitted_of eligible epochs = map (\<lambda>(e, ep). e \<and> epoch_admitted ep) (zip eligible epochs)"

definition ar_lanes_of :: "bool \<Rightarrow> bool list \<Rightarrow> pending_work list \<Rightarrow> nat" where
  "ar_lanes_of vls admitted work = length (filter (\<lambda>(a, w). a \<and> is_runnable_decode w vls) (zip admitted work))"

definition reserve_of :: "bool \<Rightarrow> bool list \<Rightarrow> pending_work list \<Rightarrow> nat \<Rightarrow> nat" where
  "reserve_of vls admitted work pmin =
     fold max (map (\<lambda>i. min (max pmin 1) (length (pw_remaining_prompt (work ! i)))) (prefill_slots vls admitted work)) 0"

lemma plan_step_split:
  fixes pl
  assumes "plan_step pl work epochs eligible row_budget pmin = (pl', r)"
    "length epochs = length work" "length eligible = length work"
  defines "vls \<equiv> sc_vl_sequential (pl_scheduler pl)" and "adm \<equiv> admitted_of eligible epochs"
  obtains (refused) e where "r = Err e" "pl' = pl" "e \<noteq> PlanPanic"
    | (planned) verify ra plan where "r = Ok plan"
      "verify_lanes pl (row_budget - (ar_lanes_of vls adm work + reserve_of vls adm work pmin)) 0 (zip adm work) = Ok verify"
      "ra = force_prefill pl work adm (row_budget - sum_list verify)
              (allocate_rows (pl_scheduler pl) work (row_budget - sum_list verify) pmin adm)"
      "sum_list verify \<le> row_budget"
      "plan_ok work epochs (\<lambda>k. if 0 < verify ! k then verify ! k else ra_alloc ra ! k) (length work) plan"
      "pl' = pl\<lparr>pl_pending_cursor := ra_next_prefill_cursor ra\<rparr>"
proof -
  let ?sc = "pl_scheduler pl"
  let ?cap = "row_budget - (ar_lanes_of vls adm work + reserve_of vls adm work pmin)"
  have la: "length adm = length work" using assms(2,3) by (simp add: adm_def admitted_of_def)
  have body: "(case find (\<lambda>(a, w). a \<and> pw_vl_prefill w \<noteq> None \<and> vls) (zip adm work) of
      Some (_, w) \<Rightarrow> (pl, Err (PlanSequentialVl (pw_slot w)))
    | None \<Rightarrow> case verify_lanes pl ?cap 0 (zip adm work) of
        Inl e \<Rightarrow> (pl, Err e)
      | Inr verify \<Rightarrow>
          let ra = force_prefill pl work adm (row_budget - sum_list verify)
                     (allocate_rows ?sc work (row_budget - sum_list verify) pmin adm)
          in case plan_requests (any_pos3 ?sc work) verify (ra_alloc ra) epochs 0 work (plan_default (length work)) of
               Inl e \<Rightarrow> (pl, Err e)
             | Inr plan \<Rightarrow> (pl\<lparr>pl_pending_cursor := ra_next_prefill_cursor ra\<rparr>, Ok plan)) = (pl', r)"
    using assms(1-3) unfolding plan_step_def Let_def adm_def admitted_of_def ar_lanes_of_def reserve_of_def vls_def
    by simp
  show thesis
  proof (cases "find (\<lambda>(a, w). a \<and> pw_vl_prefill w \<noteq> None \<and> vls) (zip adm work)")
    case (Some x)
    then show thesis using body refused by (cases x) auto
  next
    case None
    show thesis
    proof (cases "verify_lanes pl ?cap 0 (zip adm work)")
      case (Inl e)
      then have "e \<noteq> PlanPanic" using verify_lanes_no_panic by blast
      then show thesis using body None Inl by (intro refused [of e]) auto
    next
      case (Inr verify)
      define ra where "ra = force_prefill pl work adm (row_budget - sum_list verify)
          (allocate_rows ?sc work (row_budget - sum_list verify) pmin adm)"
      note V = verify_lanes_ok [OF Inr, simplified]
      have f: "fits work adm (row_budget - sum_list verify) (ra_alloc ra)"
        unfolding ra_def by (rule force_prefill_fits(1) [OF allocate_rows_fits])
      have "\<exists>plan. plan_requests (any_pos3 ?sc work) verify (ra_alloc ra) epochs 0 work (plan_default (length work)) = Ok plan"
        using V f la by (intro plan_requests_total) (auto simp: fits_def split: if_splits)
      then obtain plan where p: "plan_requests (any_pos3 ?sc work) verify (ra_alloc ra) epochs 0 work (plan_default (length work)) = Ok plan"
        by blast
      have e: "pl' = pl\<lparr>pl_pending_cursor := ra_next_prefill_cursor ra\<rparr>" "r = Ok plan"
        using body p unfolding None Inr Let_def ra_def [symmetric] option.case sum.case by simp_all
      have "plan_ok work epochs (\<lambda>k. if 0 < verify ! k then verify ! k else ra_alloc ra ! k) (length work) plan"
        by (rule plan_requests_ok [OF p]) (simp_all add: plan_ok_def plan_default_def sb_default_def plan_rows_total_def)
      moreover have "sum_list verify \<le> row_budget" using V diff_le_self order_trans by blast
      ultimately show thesis using planned [OF e(2) Inr ra_def _ _ e(1)] by blast
    qed
  qed
qed








section \<open>Publishing\<close>

lemma plan_requests_distinct:
  assumes "plan_ok work epochs rows (length work) plan" "distinct epochs" "length epochs = length work"
  shows "distinct (map rq_epoch (bp_requests plan))"
proof -
  let ?s = "filter (\<lambda>k. 0 < rows k) [0 ..< length work]"
  have "list_all2 (\<lambda>r i. rq_epoch r = epochs ! i) (bp_requests plan) ?s"
    using assms(1) by (auto simp: plan_ok_def Let_def shows_slot_def elim: list_all2_mono)
  then have "map rq_epoch (bp_requests plan) = map ((!) epochs) ?s"
    by (induction rule: list_all2_induct) auto
  moreover have "inj_on ((!) epochs) (set ?s)" using assms(2,3) by (auto simp: inj_on_def nth_eq_iff_index_eq)
  ultimately show ?thesis by (simp add: distinct_map)
qed

text \<open>What one request's commit does to its slot, and that it can do it.\<close>

definition commit_slot :: "request_advance list \<Rightarrow> request_rows \<Rightarrow> pending_work \<Rightarrow> pending_work" where
  "commit_slot advances rr w =
     (case rq_kind rr of
        Prefill \<Rightarrow> apply_prefill (rr_len (rq_rows rr)) (advance_of advances (rq_epoch rr)) w
      | _ \<Rightarrow> (case advance_of advances (rq_epoch rr) of None \<Rightarrow> w | Some a \<Rightarrow> apply_advance a w))"

lemma check_request_ok:
  assumes "check_request work work_epochs advances rr = Ok ()"
  obtains i where "position (\<lambda>x. x = rq_epoch rr) work_epochs = Some i" "epoch_admitted (rq_epoch rr)"
    "rq_kind rr = Prefill \<Longrightarrow> rr_len (rq_rows rr) \<le> length (pw_remaining_prompt (work ! i))"
    "rq_kind rr \<noteq> Prefill \<Longrightarrow> advance_of advances (rq_epoch rr) \<noteq> None"
proof -
  let ?e = "rq_epoch rr"
  from assms obtain i where i: "position (\<lambda>x. x = ?e) work_epochs = Some i" and a: "epoch_admitted ?e"
    by (auto simp: check_request_def Let_def split: if_splits option.splits)
  have "rr_len (rq_rows rr) \<le> length (pw_remaining_prompt (work ! i))" if "rq_kind rr = Prefill"
    using assms that i a by (auto simp: check_request_def Let_def split: if_splits)
  moreover have "advance_of advances ?e \<noteq> None" if "rq_kind rr \<noteq> Prefill"
  proof -
    have "length (filter (\<lambda>a. ad_epoch a = ?e) advances) = 1"
      using assms that i a by (auto simp: check_request_def Let_def split: if_splits request_step_kind.splits)
    then have "filter (\<lambda>a. ad_epoch a = ?e) advances \<noteq> []" by auto
    then show ?thesis by (auto simp: advance_of_def find_None_iff filter_empty_conv)
  qed
  ultimately show thesis using that i a by blast
qed

lemma check_requests_all:
  "check_requests work we adv rrs = Ok () \<Longrightarrow> rr \<in> set rrs \<Longrightarrow> check_request work we adv rr = Ok ()"
  by (induction work we adv rrs rule: check_requests.induct) (auto split: sum.splits)

text \<open>
  The commit loop on requests with different epochs: it never fails, changes the slot of each request by that
  request's commit, and no other slot.
\<close>

lemma apply_requests_ok:
  assumes "\<And>rr. rr \<in> set rrs \<Longrightarrow> \<exists>i. position (\<lambda>x. x = rq_epoch rr) we = Some i
      \<and> (rq_kind rr = Prefill \<longrightarrow> rr_len (rq_rows rr) \<le> length (pw_remaining_prompt (work ! i)))
      \<and> (rq_kind rr \<noteq> Prefill \<longrightarrow> advance_of adv (rq_epoch rr) \<noteq> None)"
    "distinct (map rq_epoch rrs)" "length we = length work"
  shows "\<exists>work'. apply_requests we adv rrs work = (work', Ok ()) \<and> length work' = length work
    \<and> (\<forall>rr \<in> set rrs. \<forall>i. position (\<lambda>x. x = rq_epoch rr) we = Some i \<longrightarrow> work' ! i = commit_slot adv rr (work ! i))
    \<and> (\<forall>i. (\<forall>rr \<in> set rrs. position (\<lambda>x. x = rq_epoch rr) we \<noteq> Some i) \<longrightarrow> work' ! i = work ! i)"
  using assms
proof (induction rrs arbitrary: work)
  case (Cons rr rrs)
  obtain i where i: "position (\<lambda>x. x = rq_epoch rr) we = Some i"
    and pf: "rq_kind rr = Prefill \<longrightarrow> rr_len (rq_rows rr) \<le> length (pw_remaining_prompt (work ! i))"
    and ad: "rq_kind rr \<noteq> Prefill \<longrightarrow> advance_of adv (rq_epoch rr) \<noteq> None"
    using Cons.prems(1) [of rr] by auto
  let ?w = "work[i := commit_slot adv rr (work ! i)]"
  have il: "i < length work" "we ! i = rq_epoch rr" using i Cons.prems(3) by (auto simp: position_Some)
  have step: "apply_requests we adv (rr # rrs) work = apply_requests we adv rrs ?w"
    using i pf ad by (auto simp: commit_slot_def Let_def split: request_step_kind.splits option.splits)
  have other: "j \<noteq> i" if "q \<in> set rrs" "position (\<lambda>x. x = rq_epoch q) we = Some j" for q j
  proof -
    have "we ! j = rq_epoch q" using that(2) by (auto simp: position_Some)
    moreover have "rq_epoch rr \<notin> rq_epoch ` set rrs" using Cons.prems(2) by simp
    then have "rq_epoch q \<noteq> rq_epoch rr" using that(1) by (metis imageI)
    ultimately show ?thesis using il(2) by auto
  qed
  have "\<exists>work'. apply_requests we adv rrs ?w = (work', Ok ()) \<and> length work' = length ?w
    \<and> (\<forall>rr \<in> set rrs. \<forall>i. position (\<lambda>x. x = rq_epoch rr) we = Some i \<longrightarrow> work' ! i = commit_slot adv rr (?w ! i))
    \<and> (\<forall>i. (\<forall>rr \<in> set rrs. position (\<lambda>x. x = rq_epoch rr) we \<noteq> Some i) \<longrightarrow> work' ! i = ?w ! i)"
  proof (rule Cons.IH)
    fix q assume q: "q \<in> set rrs"
    then obtain j where j: "position (\<lambda>x. x = rq_epoch q) we = Some j"
      "rq_kind q = Prefill \<longrightarrow> rr_len (rq_rows q) \<le> length (pw_remaining_prompt (work ! j))"
      "rq_kind q \<noteq> Prefill \<longrightarrow> advance_of adv (rq_epoch q) \<noteq> None"
      using Cons.prems(1) [of q] by auto
    then show "\<exists>i. position (\<lambda>x. x = rq_epoch q) we = Some i
      \<and> (rq_kind q = Prefill \<longrightarrow> rr_len (rq_rows q) \<le> length (pw_remaining_prompt (?w ! i)))
      \<and> (rq_kind q \<noteq> Prefill \<longrightarrow> advance_of adv (rq_epoch q) \<noteq> None)"
      using other [OF q j(1)] by (intro exI [of _ j]) simp
  qed (use Cons.prems in auto)
  then obtain work' where w: "apply_requests we adv rrs ?w = (work', Ok ())" "length work' = length work"
    and s: "\<And>q j. q \<in> set rrs \<Longrightarrow> position (\<lambda>x. x = rq_epoch q) we = Some j \<Longrightarrow> work' ! j = commit_slot adv q (?w ! j)"
    and o: "\<And>j. (\<forall>q \<in> set rrs. position (\<lambda>x. x = rq_epoch q) we \<noteq> Some j) \<Longrightarrow> work' ! j = ?w ! j"
    by auto
  have "work' ! i = commit_slot adv rr (work ! i)" using o [of i] other il(1) by fastforce
  moreover have "work' ! j = commit_slot adv q (work ! j)" if "q \<in> set rrs" "position (\<lambda>x. x = rq_epoch q) we = Some j" for q j
    using s [OF that] other [OF that] by simp
  moreover have "work' ! j = work ! j" if "\<forall>q \<in> set (rr # rrs). position (\<lambda>x. x = rq_epoch q) we \<noteq> Some j" for j
    using o [of j] that i by (cases "j = i") auto
  ultimately show ?case using w i unfolding step by auto
qed simp

lemma commit_prefill_consumed:
  "rq_kind q = Prefill \<Longrightarrow> advance_of adv (rq_epoch q) = None \<Longrightarrow> consumed (rr_len (rq_rows q)) w (commit_slot adv q w)"
  by (auto simp: commit_slot_def apply_prefill_def skip_pads_def consumed_def Let_def split: option.splits)

text \<open>
  C35: Publishing a step is all or nothing. With different epochs per slot, a refused commit leaves the pending
  work and the planner exactly as they were; an accepted one changes every planned slot by its own request's
  commit and no other slot, drains from a prefilling slot exactly the planned rows, and moves the rotation cursor
  to the provisional one.
\<close>

theorem publish_all_or_nothing:
  assumes "plan_step pl work epochs eligible row_budget pmin = (pl1, Ok plan)" "distinct epochs"
    and "publish pl1 work epochs plan advances = (pl2, work', r)"
  shows "case r of
      Inl e \<Rightarrow> work' = work \<and> pl2 = pl1
    | Inr _ \<Rightarrow>
        (\<forall>q \<in> set (bp_requests plan). \<exists>i < length work. epochs ! i = rq_epoch q \<and> work' ! i = commit_slot advances q (work ! i)
           \<and> (rq_kind q = Prefill \<longrightarrow> advance_of advances (rq_epoch q) = None
               \<longrightarrow> consumed (rr_len (rq_rows q)) (work ! i) (work' ! i)))
        \<and> (\<forall>i < length work. epochs ! i \<notin> rq_epoch ` set (bp_requests plan) \<longrightarrow> work' ! i = work ! i)
        \<and> pl_pending_cursor pl2 = None
        \<and> sc_prefill_cursor (pl_scheduler pl2) = (case pl_pending_cursor pl1 of None \<Rightarrow> sc_prefill_cursor (pl_scheduler pl) | Some c \<Rightarrow> c)"
proof -
  have len: "length epochs = length work" "length eligible = length work"
    using assms(1) by (auto simp: plan_step_def Let_def split: if_splits)
  have dist: "distinct (map rq_epoch (bp_requests plan))" and sc: "pl_scheduler pl1 = pl_scheduler pl"
    by (rule plan_step_split [OF assms(1) len]; use plan_requests_distinct [OF _ assms(2) len(1)] in auto)+
  show ?thesis
  proof (cases "check_requests work epochs advances (bp_requests plan)")
    case (Inl e)
    then have "r = Err e" "work' = work" "pl2 = pl1" using assms(3) len by (simp_all add: publish_def)
    then show ?thesis by simp
  next
    case (Inr u)
    have req: "\<exists>i. position (\<lambda>x. x = rq_epoch q) epochs = Some i
      \<and> (rq_kind q = Prefill \<longrightarrow> rr_len (rq_rows q) \<le> length (pw_remaining_prompt (work ! i)))
      \<and> (rq_kind q \<noteq> Prefill \<longrightarrow> advance_of advances (rq_epoch q) \<noteq> None)" if "q \<in> set (bp_requests plan)" for q
      by (rule check_request_ok [OF check_requests_all [OF _ that, of work epochs advances]]) (use Inr in auto)
    obtain w where w: "apply_requests epochs advances (bp_requests plan) work = (w, Ok ())" "length w = length work"
      and s: "\<And>q i. q \<in> set (bp_requests plan) \<Longrightarrow> position (\<lambda>x. x = rq_epoch q) epochs = Some i \<Longrightarrow> w ! i = commit_slot advances q (work ! i)"
      and o: "\<And>i. (\<forall>q \<in> set (bp_requests plan). position (\<lambda>x. x = rq_epoch q) epochs \<noteq> Some i) \<Longrightarrow> w ! i = work ! i"
      using apply_requests_ok [OF req dist len(1)] by blast
    have pos: "i < length work \<and> epochs ! i = rq_epoch q" if "position (\<lambda>x. x = rq_epoch q) epochs = Some i" for q i
      using that len by (auto simp: position_Some)
    have served: "\<exists>i < length work. epochs ! i = rq_epoch q \<and> w ! i = commit_slot advances q (work ! i)
           \<and> (rq_kind q = Prefill \<longrightarrow> advance_of advances (rq_epoch q) = None \<longrightarrow> consumed (rr_len (rq_rows q)) (work ! i) (w ! i))"
      if "q \<in> set (bp_requests plan)" for q
      using req [OF that] s [OF that] pos commit_prefill_consumed [of q advances] by metis
    have rest: "w ! i = work ! i" if "epochs ! i \<notin> rq_epoch ` set (bp_requests plan)" for i
      using o [of i] that pos by (metis imageI)
    show ?thesis
    proof (cases "find (\<lambda>a. \<not> list_ex (\<lambda>r. rq_epoch r = ad_epoch a) (bp_requests plan)) advances")
      case (Some a)
      then show ?thesis using assms(3) len Inr by (auto simp: publish_def)
    next
      case None
      then have "work' = w \<and> r = Ok () \<and> pl_pending_cursor pl2 = None
        \<and> sc_prefill_cursor (pl_scheduler pl2) = (case pl_pending_cursor pl1 of None \<Rightarrow> sc_prefill_cursor (pl_scheduler pl) | Some c \<Rightarrow> c)"
        using assms(3) len Inr w sc by (auto simp: publish_def split: option.splits)
      then show ?thesis using served rest by simp
    qed
  qed
qed

section \<open>A concrete step\<close>

definition demo_epochs :: "request_epoch list" where
  "demo_epochs = map (\<lambda>i. \<lparr>re_request_tag = i, re_owner_generation = 1\<rparr>) [5, 6, 7]"

definition demo_plan :: "batch_planner \<times> (plan_error + batch_step_plan)" where
  "demo_plan = plan_step (planner_new demo_sched 2 3) demo_work demo_epochs [True, True, True] 6 4"

lemma demo_plan_parts:
  "allocate_rows demo_sched demo_work 6 4 [True, True, True] = \<lparr>ra_alloc = [1, 4, 1], ra_next_prefill_cursor = Some 1\<rparr>"
  "map (\<lambda>(e, ep). e \<and> epoch_admitted ep) (zip [True, True, True] demo_epochs) = [True, True, True]"
  "length demo_epochs = 3" "length demo_work = 3" "\<not> any_pos3 demo_sched demo_work"
  "verify_lanes pl cap 0 (zip [True, True, True] demo_work) = Ok [0, 0, 0]"
  "find (\<lambda>(a, w). a \<and> pw_vl_prefill w \<noteq> None \<and> sc_vl_sequential demo_sched) (zip [True, True, True] demo_work) = None"
proof -
  show "allocate_rows demo_sched demo_work 6 4 [True, True, True] = \<lparr>ra_alloc = [1, 4, 1], ra_next_prefill_cursor = Some 1\<rparr>"
    using demo_alloc by (metis row_allocation.surjective old.unit.exhaust)
qed (simp_all add: demo_epochs_def epoch_admitted_def demo_work_def demo_item_def demo_sched_def any_pos3_def
    spec_active_def)

lemma demo_plan_requests:
  "\<exists>plan. plan_requests False [0, 0, 0] [1, 4, 1] demo_epochs 0 demo_work (plan_default 3) = Ok plan
    \<and> sb_tokens (bp_batch plan) = [7, 1, 2, 3, 4, 8] \<and> sb_m_per_slot (bp_batch plan) = [1, 4, 1]
    \<and> rq_kind (hd (bp_requests plan)) = Ar \<and> rq_epoch (hd (bp_requests plan)) = demo_epochs ! 0 \<and> bp_requests plan \<noteq> []"
  by (simp add: demo_work_def demo_item_def plan_request_def lane_kind_def plan_default_def sb_default_def eval_nat_numeral)

lemma demo_plan_eval:
  "\<exists>plan. demo_plan = ((planner_new demo_sched 2 3)\<lparr>pl_pending_cursor := Some 1\<rparr>, Ok plan)
    \<and> sb_tokens (bp_batch plan) = [7, 1, 2, 3, 4, 8] \<and> sb_m_per_slot (bp_batch plan) = [1, 4, 1]
    \<and> rq_kind (hd (bp_requests plan)) = Ar \<and> rq_epoch (hd (bp_requests plan)) = demo_epochs ! 0 \<and> bp_requests plan \<noteq> []"
proof -
  obtain plan where p: "plan_requests False [0, 0, 0] [1, 4, 1] demo_epochs 0 demo_work (plan_default 3) = Ok plan"
    "sb_tokens (bp_batch plan) = [7, 1, 2, 3, 4, 8]" "sb_m_per_slot (bp_batch plan) = [1, 4, 1]"
    "rq_kind (hd (bp_requests plan)) = Ar" "rq_epoch (hd (bp_requests plan)) = demo_epochs ! 0" "bp_requests plan \<noteq> []"
    using demo_plan_requests by blast
  have pn: "pl_scheduler (planner_new demo_sched 2 3) = demo_sched" "pl_forced_prefill_len (planner_new demo_sched 2 3) = []"
    by (simp_all add: planner_new_def)
  have "demo_plan = ((planner_new demo_sched 2 3)\<lparr>pl_pending_cursor := Some 1\<rparr>, Ok plan)"
    unfolding demo_plan_def plan_step_def Let_def pn demo_plan_parts option.case sum.case
    by (simp add: demo_plan_parts(1,5) force_prefill_def pn p(1) [unfolded One_nat_def])
  then show ?thesis using p by blast
qed



theorem publish_all_or_nothing_witness:
  "\<exists>plan e. demo_plan = ((planner_new demo_sched 2 3)\<lparr>pl_pending_cursor := Some 1\<rparr>, Ok plan)
     \<and> publish ((planner_new demo_sched 2 3)\<lparr>pl_pending_cursor := Some 1\<rparr>) demo_work demo_epochs plan []
       = ((planner_new demo_sched 2 3)\<lparr>pl_pending_cursor := Some 1\<rparr>, demo_work, Err e)"
proof -
  let ?pl = "(planner_new demo_sched 2 3)\<lparr>pl_pending_cursor := Some 1\<rparr>"
  obtain plan where p: "demo_plan = (?pl, Ok plan)" "rq_kind (hd (bp_requests plan)) = Ar"
    "rq_epoch (hd (bp_requests plan)) = demo_epochs ! 0" "bp_requests plan \<noteq> []"
    using demo_plan_eval by blast
  obtain pl2 work' r where e: "publish ?pl demo_work demo_epochs plan [] = (pl2, work', r)" by (metis prod_cases3)
  have dist: "distinct demo_epochs" by (simp add: demo_epochs_def)
  have "check_request demo_work demo_epochs [] (hd (bp_requests plan)) = Err (PubAdvances 0 (demo_epochs ! 0))"
    unfolding check_request_def Let_def p(3) by (simp add: demo_epochs_def epoch_admitted_def p(2))
  then have "check_requests demo_work demo_epochs [] (bp_requests plan) = Err (PubAdvances 0 (demo_epochs ! 0))"
    using p(4) by (cases "bp_requests plan") simp_all
  then have "r = Err (PubAdvances 0 (demo_epochs ! 0))" using e by (simp add: publish_def demo_plan_parts)
  then show ?thesis using publish_all_or_nothing [OF p(1) [unfolded demo_plan_def] dist e] e p(1) by auto
qed

end
