(* ===== verification/Fair_Queue.thy ===== *)
theory Fair_Queue
  imports Rust_Prelude
begin

text \<open>
  The fairness policy of concurrent serving, \<^verbatim>\<open>crates/hipfire-runtime/src/serve_fairness.rs\<close>: admitted
  requests, the fairness order, and the four allocation phases of a step. The step counter is
  an unbounded natural; row counts are naturals with the checked sums of the source.
\<close>

section \<open>Requests and grants\<close>

datatype fairness_error =
    InvalidConfig nat nat nat
  | ZeroMinTokens
  | DuplicateId nat
  | NotFound nat
  | RowOverflow

datatype grant =
    GDecode nat
  | GPrefill nat nat
  | GVerify nat nat
  | GForced nat nat

fun grant_rows :: "grant \<Rightarrow> nat" where
  "grant_rows (GDecode i) = 1"
| "grant_rows (GPrefill i rows) = rows"
| "grant_rows (GVerify i rows) = rows"
| "grant_rows (GForced i rows) = rows"

fun grant_id :: "grant \<Rightarrow> nat" where
  "grant_id (GDecode i) = i"
| "grant_id (GPrefill i rows) = i"
| "grant_id (GVerify i rows) = i"
| "grant_id (GForced i rows) = i"

record selection =
  sel_grants :: "grant list"
  sel_starved_oldest :: bool
  sel_starved_id :: "nat option"

definition selection_default :: selection where
  "selection_default = \<lparr>sel_grants = [], sel_starved_oldest = False, sel_starved_id = None\<rparr>"

record fair_request =
  fr_id :: nat
  fr_domain_id :: string
  fr_admission_tick :: nat
  fr_uncached :: nat
  fr_aged :: bool
  fr_last_served :: "nat option"
  fr_wants_decode :: bool
  fr_verify_rows :: nat
  fr_forced_rows :: nat

definition needed_rows :: "fair_request \<Rightarrow> nat option" where
  "needed_rows r =
     (let decode = (if fr_wants_decode r \<and> fr_verify_rows r = 0 then 1 else 0)
      in case checked_add64 decode (fr_uncached r) of
           None \<Rightarrow> None
         | Some a \<Rightarrow>
             (case checked_add64 a (fr_verify_rows r) of
                None \<Rightarrow> None
              | Some b \<Rightarrow> checked_add64 b (fr_forced_rows r)))"

section \<open>The queue\<close>

record fair_queue =
  fq_max_batch_tokens :: nat
  fq_decode_lanes :: nat
  fq_prefill_min_tokens :: nat
  fq_requests :: "fair_request list"
  fq_prefill_cursor :: nat
  fq_tick :: nat
  fq_last_round_tick :: nat

definition fq_new :: "nat \<Rightarrow> nat \<Rightarrow> nat \<Rightarrow> fairness_error + fair_queue" where
  "fq_new max_batch_tokens decode_lanes prefill_min_tokens =
     (if prefill_min_tokens = 0 then Err ZeroMinTokens
      else case checked_add64 decode_lanes prefill_min_tokens of
        None \<Rightarrow> Err RowOverflow
      | Some min_budget \<Rightarrow>
          if max_batch_tokens < min_budget then Err (InvalidConfig max_batch_tokens decode_lanes prefill_min_tokens)
          else Ok \<lparr>fq_max_batch_tokens = max_batch_tokens, fq_decode_lanes = decode_lanes,
                   fq_prefill_min_tokens = prefill_min_tokens, fq_requests = [], fq_prefill_cursor = 0,
                   fq_tick = 0, fq_last_round_tick = 0\<rparr>)"

definition fq_admit :: "fair_queue \<Rightarrow> nat \<Rightarrow> string \<Rightarrow> nat \<Rightarrow> fair_queue \<times> (fairness_error + unit)" where
  "fq_admit q i domain uncached =
     (if list_ex (\<lambda>r. fr_id r = i) (fq_requests q) then (q, Err (DuplicateId i))
      else (q\<lparr>fq_requests := fq_requests q @
               [\<lparr>fr_id = i, fr_domain_id = domain, fr_admission_tick = fq_tick q, fr_uncached = uncached,
                 fr_aged = False, fr_last_served = None, fr_wants_decode = False, fr_verify_rows = 0,
                 fr_forced_rows = 0\<rparr>]\<rparr>, Ok ()))"

text \<open>\<^verbatim>\<open>iter_mut().find(..)\<close>: update the first request with the id.\<close>

definition update_request ::
  "fair_queue \<Rightarrow> nat \<Rightarrow> (fair_request \<Rightarrow> fair_request) \<Rightarrow> fair_queue \<times> (fairness_error + unit)" where
  "update_request q i f =
     (case position (\<lambda>r. fr_id r = i) (fq_requests q) of
        None \<Rightarrow> (q, Err (NotFound i))
      | Some k \<Rightarrow> (q\<lparr>fq_requests := (fq_requests q)[k := f (fq_requests q ! k)]\<rparr>, Ok ()))"

definition set_needs :: "fair_queue \<Rightarrow> nat \<Rightarrow> bool \<Rightarrow> nat \<Rightarrow> nat \<Rightarrow> fair_queue \<times> (fairness_error + unit)" where
  "set_needs q i wants_decode verify_rows forced_rows =
     update_request q i (\<lambda>r. r\<lparr>fr_wants_decode := wants_decode, fr_verify_rows := verify_rows, fr_forced_rows := forced_rows\<rparr>)"

definition set_uncached_prefill :: "fair_queue \<Rightarrow> nat \<Rightarrow> nat \<Rightarrow> fair_queue \<times> (fairness_error + unit)" where
  "set_uncached_prefill q i tokens = update_request q i (\<lambda>r. r\<lparr>fr_uncached := tokens\<rparr>)"

definition fq_remove :: "fair_queue \<Rightarrow> nat \<Rightarrow> fair_queue \<times> (fairness_error + unit)" where
  "fq_remove q i =
     (let rs = filter (\<lambda>r. fr_id r \<noteq> i) (fq_requests q);
          q' = q\<lparr>fq_requests := rs\<rparr>
      in if length rs = length (fq_requests q) then (q', Err (NotFound i))
         else (q'\<lparr>fq_prefill_cursor := (if rs \<noteq> [] then fq_prefill_cursor q mod length rs else 0)\<rparr>, Ok ()))"

definition fq_get :: "fair_queue \<Rightarrow> nat \<Rightarrow> fair_request option" where
  "fq_get q i = find (\<lambda>r. fr_id r = i) (fq_requests q)"

definition skip_round_complete :: "fair_queue \<Rightarrow> fair_queue" where
  "skip_round_complete q =
     q\<lparr>fq_requests := map (\<lambda>r.
          let not_served_since_round = (case fr_last_served r of None \<Rightarrow> True | Some t \<Rightarrow> t < fq_last_round_tick q);
              admitted_at_or_before_round = fr_admission_tick r \<le> fq_last_round_tick q
          in r\<lparr>fr_aged := not_served_since_round \<and> admitted_at_or_before_round\<rparr>) (fq_requests q),
       fq_last_round_tick := fq_tick q\<rparr>"

section \<open>The fairness order\<close>

datatype ordering = OLess | OEqual | OGreater

definition nat_cmp :: "nat \<Rightarrow> nat \<Rightarrow> ordering" where
  "nat_cmp a b = (if a < b then OLess else if a = b then OEqual else OGreater)"

definition fairness_cmp :: "fair_request \<Rightarrow> fair_request \<Rightarrow> ordering" where
  "fairness_cmp a b =
     (case (fr_aged a, fr_aged b) of
        (True, False) \<Rightarrow> OLess
      | (False, True) \<Rightarrow> OGreater
      | _ \<Rightarrow>
          (case nat_cmp (fr_admission_tick a) (fr_admission_tick b) of
             OEqual \<Rightarrow> nat_cmp (fr_uncached a) (fr_uncached b)
           | ord \<Rightarrow> ord))"

text \<open>The scan shared by the phases: the first candidate that no later one beats strictly.\<close>

definition scan_best :: "fair_request list \<Rightarrow> nat list \<Rightarrow> nat option" where
  "scan_best rs candidates =
     foldl (\<lambda>best i. case best of
              None \<Rightarrow> Some i
            | Some b \<Rightarrow> if fairness_cmp (rs ! i) (rs ! b) = OLess then Some i else Some b) None candidates"

definition best_index :: "fair_request list \<Rightarrow> (fair_request \<Rightarrow> bool) \<Rightarrow> nat option" where
  "best_index rs predicate = scan_best rs (filter (\<lambda>i. predicate (rs ! i)) [0 ..< length rs])"

text \<open>\<^verbatim>\<open>sort_by\<close>, which is stable.\<close>

fun insert_by :: "('a \<Rightarrow> 'a \<Rightarrow> ordering) \<Rightarrow> 'a \<Rightarrow> 'a list \<Rightarrow> 'a list" where
  "insert_by cmp x [] = [x]"
| "insert_by cmp x (y # ys) = (if cmp x y \<noteq> OGreater then x # y # ys else y # insert_by cmp x ys)"

definition sort_by :: "('a \<Rightarrow> 'a \<Rightarrow> ordering) \<Rightarrow> 'a list \<Rightarrow> 'a list" where
  "sort_by cmp xs = foldr (insert_by cmp) xs []"

section \<open>Selecting a step\<close>

text \<open>The locals of \<^verbatim>\<open>select\<close> that its phases thread through, with the requests and the cursor they update.\<close>

record phase_state =
  ps_requests :: "fair_request list"
  ps_grants :: "grant list"
  ps_used :: nat
  ps_served :: "nat list"
  ps_cursor :: nat

fun decode_phase :: "nat \<Rightarrow> nat \<Rightarrow> nat \<Rightarrow> phase_state \<Rightarrow> phase_state" where
  "decode_phase tick remaining_rows 0 s = s"
| "decode_phase tick remaining_rows (Suc lanes) s =
     (case checked_sub remaining_rows (ps_used s) of
        None \<Rightarrow> s
      | Some avail \<Rightarrow>
          if avail = 0 then s
          else case best_index (ps_requests s)
                      (\<lambda>r. fr_wants_decode r \<and> fr_verify_rows r = 0 \<and> fr_id r \<notin> set (ps_served s)) of
                 None \<Rightarrow> s
               | Some idx \<Rightarrow>
                   let r = ps_requests s ! idx
                   in decode_phase tick remaining_rows lanes
                        (s\<lparr>ps_grants := ps_grants s @ [GDecode (fr_id r)], ps_used := ps_used s + 1,
                           ps_served := ps_served s @ [fr_id r],
                           ps_requests := (ps_requests s)[idx := r\<lparr>fr_last_served := Some tick\<rparr>]\<rparr>))"

definition prefill_candidates :: "nat \<Rightarrow> nat \<Rightarrow> phase_state \<Rightarrow> nat list" where
  "prefill_candidates min_tokens avail s =
     (let rs = ps_requests s; n = length rs; start = ps_cursor s mod n
      in filter (\<lambda>idx. let r = rs ! idx in
             \<not> (fr_uncached r = 0 \<or> fr_id r \<in> set (ps_served s))
             \<and> \<not> (avail < min_tokens \<and> fr_uncached r > avail))
           (map (\<lambda>i. (start + i) mod n) [0 ..< n]))"

text \<open>At most as many picks as there are requests; the argument counts the picks left.\<close>

fun prefill_phase :: "nat \<Rightarrow> nat \<Rightarrow> nat \<Rightarrow> nat \<Rightarrow> nat \<Rightarrow> phase_state \<Rightarrow> phase_state" where
  "prefill_phase tick min_tokens quantum remaining_rows 0 s = s"
| "prefill_phase tick min_tokens quantum remaining_rows (Suc picks) s =
     (case checked_sub remaining_rows (ps_used s) of
        None \<Rightarrow> s
      | Some avail \<Rightarrow>
          if avail = 0 then s
          else case scan_best (ps_requests s) (prefill_candidates min_tokens avail s) of
                 None \<Rightarrow> s
               | Some idx \<Rightarrow>
                   let r = ps_requests s ! idx;
                       n = length (ps_requests s);
                       uncached = fr_uncached r;
                       rows = min (min quantum uncached) avail
                   in if rows < min_tokens \<and> rows < uncached
                      then prefill_phase tick min_tokens quantum remaining_rows picks (s\<lparr>ps_cursor := (idx + 1) mod n\<rparr>)
                      else
                        let s1 = s\<lparr>ps_grants := ps_grants s @ [GPrefill (fr_id r) rows]\<rparr>
                        in case checked_add64 (ps_used s) rows of
                             None \<Rightarrow> s1
                           | Some used \<Rightarrow>
                               let s2 = s1\<lparr>ps_used := used, ps_served := ps_served s @ [fr_id r]\<rparr>
                               in case checked_sub uncached rows of
                                    None \<Rightarrow> s2
                                  | Some left \<Rightarrow>
                                      prefill_phase tick min_tokens quantum remaining_rows picks
                                        (s2\<lparr>ps_requests := (ps_requests s)[idx := r\<lparr>fr_uncached := left, fr_last_served := Some tick\<rparr>],
                                            ps_cursor := (idx + 1) mod n\<rparr>))"

text \<open>Verify and forced rows: candidates in fairness order, each granted in full or skipped.\<close>

fun whole_phase ::
  "nat \<Rightarrow> nat \<Rightarrow> (fair_request \<Rightarrow> nat) \<Rightarrow> (nat \<Rightarrow> nat \<Rightarrow> grant) \<Rightarrow> nat list \<Rightarrow> phase_state \<Rightarrow> phase_state" where
  "whole_phase tick remaining_rows need mk [] s = s"
| "whole_phase tick remaining_rows need mk (idx # rest) s =
     (let r = ps_requests s ! idx; rows = need r
      in case checked_sub remaining_rows (ps_used s) of
           None \<Rightarrow> s
         | Some avail \<Rightarrow>
             if rows \<le> avail then
               let s1 = s\<lparr>ps_grants := ps_grants s @ [mk (fr_id r) rows]\<rparr>
               in case checked_add64 (ps_used s) rows of
                    None \<Rightarrow> s1
                  | Some used \<Rightarrow>
                      whole_phase tick remaining_rows need mk rest
                        (s1\<lparr>ps_used := used, ps_served := ps_served s @ [fr_id r],
                            ps_requests := (ps_requests s)[idx := r\<lparr>fr_last_served := Some tick\<rparr>]\<rparr>)
             else whole_phase tick remaining_rows need mk rest s)"

definition whole_candidates :: "(fair_request \<Rightarrow> nat) \<Rightarrow> phase_state \<Rightarrow> nat list" where
  "whole_candidates need s =
     sort_by (\<lambda>a b. fairness_cmp (ps_requests s ! a) (ps_requests s ! b))
       (filter (\<lambda>i. need (ps_requests s ! i) > 0 \<and> fr_id (ps_requests s ! i) \<notin> set (ps_served s))
          [0 ..< length (ps_requests s)])"

definition unserved :: "grant list \<Rightarrow> fair_request \<Rightarrow> bool" where
  "unserved grants r \<longleftrightarrow>
     fr_uncached r > 0 \<and> \<not> list_ex (\<lambda>g. case g of GPrefill i _ \<Rightarrow> i = fr_id r | _ \<Rightarrow> False) grants
     \<or> fr_wants_decode r \<and> fr_verify_rows r = 0 \<and> \<not> list_ex (\<lambda>g. case g of GDecode i \<Rightarrow> i = fr_id r | _ \<Rightarrow> False) grants
     \<or> fr_verify_rows r > 0 \<and> \<not> list_ex (\<lambda>g. case g of GVerify i _ \<Rightarrow> i = fr_id r | _ \<Rightarrow> False) grants
     \<or> fr_forced_rows r > 0 \<and> \<not> list_ex (\<lambda>g. case g of GForced i _ \<Rightarrow> i = fr_id r | _ \<Rightarrow> False) grants"

definition best_starved :: "nat \<Rightarrow> nat option list \<Rightarrow> phase_state \<Rightarrow> nat option" where
  "best_starved max_batch_tokens needs_snapshot s =
     scan_best (ps_requests s)
       (filter (\<lambda>i. unserved (ps_grants s) (ps_requests s ! i)
                    \<and> \<not> (case needs_snapshot ! i of None \<Rightarrow> u64_max | Some k \<Rightarrow> k) > max_batch_tokens)
          [0 ..< length (ps_requests s)])"

definition select_phases :: "fair_queue \<Rightarrow> nat \<Rightarrow> nat \<Rightarrow> nat \<Rightarrow> phase_state" where
  "select_phases q max_decode_lanes prefill_quantum remaining_rows =
     (let tick = fq_tick q;
          s = \<lparr>ps_requests = fq_requests q, ps_grants = [], ps_used = 0, ps_served = [], ps_cursor = fq_prefill_cursor q\<rparr>;
          s = decode_phase tick remaining_rows max_decode_lanes s;
          s = (if prefill_quantum > 0
               then prefill_phase tick (fq_prefill_min_tokens q) prefill_quantum remaining_rows (length (fq_requests q)) s
               else s);
          s = whole_phase tick remaining_rows fr_verify_rows GVerify (whole_candidates fr_verify_rows s) s
      in whole_phase tick remaining_rows fr_forced_rows GForced (whole_candidates fr_forced_rows s) s)"

definition select :: "fair_queue \<Rightarrow> nat \<Rightarrow> nat \<Rightarrow> nat \<Rightarrow> fair_queue \<times> selection" where
  "select q max_decode_lanes prefill_quantum remaining_rows =
     (if fq_requests q = [] then (q\<lparr>fq_tick := fq_tick q + 1\<rparr>, selection_default)
      else
        let needs_snapshot = map needed_rows (fq_requests q);
            s = select_phases q max_decode_lanes prefill_quantum remaining_rows;
            best = best_starved (fq_max_batch_tokens q) needs_snapshot s
        in (q\<lparr>fq_requests := ps_requests s, fq_prefill_cursor := ps_cursor s, fq_tick := fq_tick q + 1\<rparr>,
            \<lparr>sel_grants = ps_grants s, sel_starved_oldest = (best \<noteq> None),
             sel_starved_id = map_option (\<lambda>i. fr_id (ps_requests s ! i)) best\<rparr>))"

end
