(* ===== verification/Fair_Queue_Props.thy ===== *)
theory Fair_Queue_Props
  imports Fair_Queue
begin

text \<open>
  A step's grants stay within the row budget, serve every request at most once and only with what it asked for;
  decode rows go to the requests first in the fairness order. Two concrete steps show where the code
  departs from the guarantees its comments state.
\<close>

section \<open>The fairness order\<close>

text \<open>The comparator is the lexicographic order of band, admission tick and uncached tokens.\<close>

definition fair_key :: "fair_request \<Rightarrow> nat \<times> nat \<times> nat" where
  "fair_key r = ((if fr_aged r then 0 else 1), fr_admission_tick r, fr_uncached r)"

definition fairer :: "fair_request \<Rightarrow> fair_request \<Rightarrow> bool" where
  "fairer a b \<longleftrightarrow> (case (fair_key a, fair_key b) of ((x, y, z), (x', y', z')) \<Rightarrow>
     x < x' \<or> x = x' \<and> (y < y' \<or> y = y' \<and> z < z'))"

lemma fairness_cmp_Less: "fairness_cmp a b = OLess \<longleftrightarrow> fairer a b"
  by (auto simp: fairness_cmp_def fairer_def fair_key_def nat_cmp_def split: bool.splits)

lemma fairer_irrefl: "\<not> fairer a a"
  by (simp add: fairer_def fair_key_def)

lemma not_fairer_trans: "\<not> fairer b a \<Longrightarrow> \<not> fairer c b \<Longrightarrow> \<not> fairer c a"
  by (auto simp: fairer_def fair_key_def split: if_splits)

lemma fairer_not: "fairer a b \<Longrightarrow> \<not> fairer b a"
  by (auto simp: fairer_def fair_key_def split: if_splits)

lemma scan_best_snoc:
  "scan_best rs (cs @ [i]) = (case scan_best rs cs of
     None \<Rightarrow> Some i | Some b \<Rightarrow> if fairness_cmp (rs ! i) (rs ! b) = OLess then Some i else Some b)"
  by (simp add: scan_best_def)

lemma scan_best_Nil [simp]: "scan_best rs [] = None"
  by (simp add: scan_best_def)

lemma scan_best_None [simp]: "scan_best rs cs = None \<longleftrightarrow> cs = []"
proof (induction cs rule: rev_induct)
  case (snoc i cs)
  then show ?case by (auto simp: scan_best_snoc split: option.splits)
qed (simp add: scan_best_def)

lemma scan_best_Some:
  "scan_best rs cs = Some b \<Longrightarrow> b \<in> set cs \<and> (\<forall>i \<in> set cs. \<not> fairer (rs ! i) (rs ! b))"
proof (induction cs arbitrary: b rule: rev_induct)
  case (snoc i cs)
  show ?case
  proof (cases "scan_best rs cs")
    case None
    then have "cs = []" by simp
    then have "b = i" "cs = []" using snoc.prems by (simp_all add: scan_best_def)
    then show ?thesis by (simp add: fairer_irrefl)
  next
    case (Some c)
    note IH = snoc.IH [OF Some]
    show ?thesis
    proof (cases "fairer (rs ! i) (rs ! c)")
      case True
      then have "b = i" using snoc.prems Some by (simp add: scan_best_snoc fairness_cmp_Less)
      moreover have "\<not> fairer (rs ! j) (rs ! i)" if "j \<in> set cs" for j
        by (rule not_fairer_trans [OF fairer_not [OF True]]) (use IH that in blast)
      ultimately show ?thesis using IH fairer_irrefl by simp
    next
      case False
      then have "b = c" using snoc.prems Some by (simp add: scan_best_snoc fairness_cmp_Less)
      then show ?thesis using IH False by auto
    qed
  qed
qed (simp add: scan_best_def)

lemma best_index_Some:
  "best_index rs p = Some b \<Longrightarrow> b < length rs \<and> p (rs ! b) \<and> (\<forall>i < length rs. p (rs ! i) \<longrightarrow> \<not> fairer (rs ! i) (rs ! b))"
  unfolding best_index_def using scan_best_Some by fastforce

lemma best_index_None: "best_index rs p = None \<longleftrightarrow> (\<forall>i < length rs. \<not> p (rs ! i))"
  by (auto simp: best_index_def filter_empty_conv)

lemma set_insert_by [simp]: "set (insert_by cmp x ys) = insert x (set ys)"
  by (induction ys) auto

lemma set_sort_by [simp]: "set (sort_by cmp xs) = set xs"
  by (induction xs) (auto simp: sort_by_def)

lemma distinct_insert_by [simp]: "distinct (insert_by cmp x ys) \<longleftrightarrow> x \<notin> set ys \<and> distinct ys"
  by (induction ys) auto

lemma distinct_sort_by [simp]: "distinct (sort_by cmp xs) = distinct xs"
proof (induction xs)
  case (Cons x xs)
  then show ?case using set_sort_by [of cmp xs] by (simp add: sort_by_def)
qed (simp add: sort_by_def)

section \<open>The phases keep the books\<close>

definition prefilled :: "grant list \<Rightarrow> nat \<Rightarrow> nat" where
  "prefilled gs i = sum_list (map (\<lambda>g. case g of GPrefill j n \<Rightarrow> if j = i then n else 0 | _ \<Rightarrow> 0) gs)"

lemma prefilled_simps [simp]:
  "prefilled [] i = 0" "prefilled (gs @ [GPrefill j n]) i = prefilled gs i + (if j = i then n else 0)"
  "prefilled (gs @ [GDecode j]) i = prefilled gs i" "prefilled (gs @ [GVerify j n]) i = prefilled gs i"
  "prefilled (gs @ [GForced j n]) i = prefilled gs i"
  by (simp_all add: prefilled_def)

lemma prefilled_other: "i \<notin> grant_id ` set gs \<Longrightarrow> prefilled gs i = 0"
  by (induction gs) (auto simp: prefilled_def split: grant.splits)

text \<open>A grant answers a need of the request it names.\<close>

fun asked_for :: "nat \<Rightarrow> fair_request list \<Rightarrow> grant \<Rightarrow> bool" where
  "asked_for quantum rs (GDecode i) \<longleftrightarrow> (\<exists>r \<in> set rs. fr_id r = i \<and> fr_wants_decode r \<and> fr_verify_rows r = 0)"
| "asked_for quantum rs (GPrefill i n) \<longleftrightarrow> 0 < n \<and> n \<le> quantum \<and> (\<exists>r \<in> set rs. fr_id r = i \<and> n \<le> fr_uncached r)"
| "asked_for quantum rs (GVerify i n) \<longleftrightarrow> 0 < n \<and> (\<exists>r \<in> set rs. fr_id r = i \<and> fr_verify_rows r = n)"
| "asked_for quantum rs (GForced i n) \<longleftrightarrow> 0 < n \<and> (\<exists>r \<in> set rs. fr_id r = i \<and> fr_forced_rows r = n)"

definition phase_books :: "nat \<Rightarrow> nat \<Rightarrow> fair_request list \<Rightarrow> phase_state \<Rightarrow> bool" where
  "phase_books quantum remaining rs s \<longleftrightarrow>
     length (ps_requests s) = length rs
     \<and> (\<forall>k < length rs. \<exists>t. ps_requests s ! k
          = (rs ! k)\<lparr>fr_uncached := fr_uncached (rs ! k) - prefilled (ps_grants s) (fr_id (rs ! k)), fr_last_served := t\<rparr>)
     \<and> ps_used s = sum_list (map grant_rows (ps_grants s)) \<and> ps_used s \<le> remaining
     \<and> map grant_id (ps_grants s) = ps_served s \<and> distinct (ps_served s)
     \<and> (\<forall>g \<in> set (ps_grants s). asked_for quantum rs g)"

lemma phase_request:
  assumes "phase_books quantum remaining rs s" "k < length rs"
  shows "fr_id (ps_requests s ! k) = fr_id (rs ! k)" "fr_wants_decode (ps_requests s ! k) = fr_wants_decode (rs ! k)"
    "fr_verify_rows (ps_requests s ! k) = fr_verify_rows (rs ! k)" "fr_forced_rows (ps_requests s ! k) = fr_forced_rows (rs ! k)"
    "fr_aged (ps_requests s ! k) = fr_aged (rs ! k)" "fr_admission_tick (ps_requests s ! k) = fr_admission_tick (rs ! k)"
    "fr_id (rs ! k) \<notin> set (ps_served s) \<Longrightarrow> fr_uncached (ps_requests s ! k) = fr_uncached (rs ! k)"
proof -
  obtain t where t: "ps_requests s ! k
      = (rs ! k)\<lparr>fr_uncached := fr_uncached (rs ! k) - prefilled (ps_grants s) (fr_id (rs ! k)), fr_last_served := t\<rparr>"
    using assms by (auto simp: phase_books_def)
  show "fr_id (ps_requests s ! k) = fr_id (rs ! k)" "fr_wants_decode (ps_requests s ! k) = fr_wants_decode (rs ! k)"
    "fr_verify_rows (ps_requests s ! k) = fr_verify_rows (rs ! k)" "fr_forced_rows (ps_requests s ! k) = fr_forced_rows (rs ! k)"
    "fr_aged (ps_requests s ! k) = fr_aged (rs ! k)" "fr_admission_tick (ps_requests s ! k) = fr_admission_tick (rs ! k)"
    by (simp_all add: t)
  assume "fr_id (rs ! k) \<notin> set (ps_served s)"
  moreover have "ps_served s = map grant_id (ps_grants s)" using assms(1) by (simp add: phase_books_def)
  ultimately have "prefilled (ps_grants s) (fr_id (rs ! k)) = 0" by (intro prefilled_other) simp
  then show "fr_uncached (ps_requests s ! k) = fr_uncached (rs ! k)" by (simp add: t)
qed

lemma phase_request_fresh:
  assumes "phase_books quantum remaining rs s" "k < length rs" "fr_id (rs ! k) \<notin> set (ps_served s)"
  shows "\<exists>t. ps_requests s ! k = (rs ! k)\<lparr>fr_last_served := t\<rparr>"
proof -
  obtain t where t: "ps_requests s ! k
      = (rs ! k)\<lparr>fr_uncached := fr_uncached (rs ! k) - prefilled (ps_grants s) (fr_id (rs ! k)), fr_last_served := t\<rparr>"
    using assms by (auto simp: phase_books_def)
  then have "fr_uncached (rs ! k) - prefilled (ps_grants s) (fr_id (rs ! k)) = fr_uncached (rs ! k)"
    using phase_request(7) [OF assms] by simp
  then show ?thesis using t by auto
qed

text \<open>One more grant, to a request not served yet.\<close>

lemma phase_grant:
  assumes b: "phase_books quantum remaining rs s" and d: "distinct (map fr_id rs)"
    and k: "k < length rs" "fr_id (rs ! k) \<notin> set (ps_served s)"
    and g: "grant_id g = fr_id (rs ! k)" "asked_for quantum rs g" "ps_used s + grant_rows g \<le> remaining"
    and s': "ps_grants s' = ps_grants s @ [g]" "ps_used s' = ps_used s + grant_rows g"
      "ps_served s' = ps_served s @ [fr_id (rs ! k)]"
      "ps_requests s' = (ps_requests s)[k := (rs ! k)\<lparr>fr_uncached := fr_uncached (rs ! k) - prefilled [g] (fr_id (rs ! k)),
                                          fr_last_served := t\<rparr>]"
  shows "phase_books quantum remaining rs s'"
proof -
  have pf: "prefilled (ps_grants s @ [g]) i = prefilled (ps_grants s) i + prefilled [g] i" for i
    by (simp add: prefilled_def)
  have served: "ps_served s = map grant_id (ps_grants s)" using b by (simp add: phase_books_def)
  have "\<exists>t. ps_requests s' ! j
      = (rs ! j)\<lparr>fr_uncached := fr_uncached (rs ! j) - prefilled (ps_grants s @ [g]) (fr_id (rs ! j)), fr_last_served := t\<rparr>"
    if j: "j < length rs" for j
  proof -
    obtain u where u: "ps_requests s ! j
        = (rs ! j)\<lparr>fr_uncached := fr_uncached (rs ! j) - prefilled (ps_grants s) (fr_id (rs ! j)), fr_last_served := u\<rparr>"
      using b j by (auto simp: phase_books_def)
    have len: "length (ps_requests s) = length rs" using b by (simp add: phase_books_def)
    show ?thesis
    proof (cases "j = k")
      case True
      have "prefilled (ps_grants s) (fr_id (rs ! k)) = 0" using k(2) served by (intro prefilled_other) simp
      then show ?thesis using s'(4) u len j pf True by auto
    next
      case False
      then have "fr_id (rs ! j) \<noteq> fr_id (rs ! k)" using d j k(1) by (metis length_map nth_eq_iff_index_eq nth_map)
      then have "prefilled [g] (fr_id (rs ! j)) = 0" using g(1) by (intro prefilled_other) auto
      then show ?thesis using s'(4) u False pf by auto
    qed
  qed
  then show ?thesis using b g k s' by (auto simp: phase_books_def)
qed

lemma decode_phase_books:
  assumes "phase_books quantum remaining rs s" "distinct (map fr_id rs)"
  shows "phase_books quantum remaining rs (decode_phase tick remaining lanes s)"
  using assms(1)
proof (induction lanes arbitrary: s)
  case (Suc lanes)
  let ?p = "\<lambda>r. fr_wants_decode r \<and> fr_verify_rows r = 0 \<and> fr_id r \<notin> set (ps_served s)"
  show ?case
  proof (cases "\<exists>avail idx. checked_sub remaining (ps_used s) = Some avail \<and> avail \<noteq> 0 \<and> best_index (ps_requests s) ?p = Some idx")
    case False
    then have "decode_phase tick remaining (Suc lanes) s = s" by (auto split: option.splits)
    then show ?thesis using Suc.prems by simp
  next
    case True
    then obtain avail idx where a: "checked_sub remaining (ps_used s) = Some avail" "avail \<noteq> 0"
      and i: "best_index (ps_requests s) ?p = Some idx" by blast
    define s' where "s' = s\<lparr>ps_grants := ps_grants s @ [GDecode (fr_id (ps_requests s ! idx))], ps_used := ps_used s + 1,
        ps_served := ps_served s @ [fr_id (ps_requests s ! idx)],
        ps_requests := (ps_requests s)[idx := (ps_requests s ! idx)\<lparr>fr_last_served := Some tick\<rparr>]\<rparr>"
    have step: "decode_phase tick remaining (Suc lanes) s = decode_phase tick remaining lanes s'"
      using a i by (simp add: s'_def Let_def)
    have idx: "idx < length rs" "?p (ps_requests s ! idx)"
      using best_index_Some [OF i] Suc.prems by (auto simp: phase_books_def)
    note R = phase_request [OF Suc.prems idx(1)]
    have "phase_books quantum remaining rs s'"
    proof (rule phase_grant [OF Suc.prems assms(2) idx(1), where g = "GDecode (fr_id (rs ! idx))" and t = "Some tick"])
      show "ps_requests s' = (ps_requests s)[idx := (rs ! idx)\<lparr>fr_uncached := fr_uncached (rs ! idx)
          - prefilled [GDecode (fr_id (rs ! idx))] (fr_id (rs ! idx)), fr_last_served := Some tick\<rparr>]"
        using phase_request_fresh [OF Suc.prems idx(1)] R idx by (auto simp: s'_def prefilled_def)
    qed (use R idx a in \<open>auto simp: s'_def checked_Some\<close>)
    then show ?thesis unfolding step by (rule Suc.IH)
  qed
qed simp

lemma prefill_candidates_mem:
  assumes "idx \<in> set (prefill_candidates min_tokens avail s)"
  shows "idx < length (ps_requests s)" "fr_uncached (ps_requests s ! idx) \<noteq> 0" "fr_id (ps_requests s ! idx) \<notin> set (ps_served s)"
    "avail < min_tokens \<Longrightarrow> fr_uncached (ps_requests s ! idx) \<le> avail"
proof -
  obtain i where "i < length (ps_requests s)" "idx = (ps_cursor s mod length (ps_requests s) + i) mod length (ps_requests s)"
    using assms by (auto simp: prefill_candidates_def Let_def)
  then show "idx < length (ps_requests s)" by (metis mod_less_divisor not_less0 gr_zeroI)
qed (use assms in \<open>auto simp: prefill_candidates_def Let_def\<close>)

lemma prefill_phase_books:
  assumes "phase_books quantum remaining rs s" "distinct (map fr_id rs)" "remaining \<le> u64_max" "0 < quantum"
  shows "phase_books quantum remaining rs (prefill_phase tick min_tokens quantum remaining picks s)"
  using assms(1)
proof (induction picks arbitrary: s)
  case (Suc picks)
  show ?case
  proof (cases "\<exists>avail idx. checked_sub remaining (ps_used s) = Some avail \<and> avail \<noteq> 0
      \<and> scan_best (ps_requests s) (prefill_candidates min_tokens avail s) = Some idx")
    case False
    then have "prefill_phase tick min_tokens quantum remaining (Suc picks) s = s" by (auto split: option.splits)
    then show ?thesis using Suc.prems by simp
  next
    case True
    then obtain avail idx where a: "checked_sub remaining (ps_used s) = Some avail" "avail \<noteq> 0"
      and i: "scan_best (ps_requests s) (prefill_candidates min_tokens avail s) = Some idx" by blast
    define r where "r = ps_requests s ! idx"
    define rows where "rows = min (min quantum (fr_uncached r)) avail"
    have av: "avail = remaining - ps_used s" "ps_used s \<le> remaining" using a by (auto simp: checked_Some)
    have idx: "idx < length rs" "fr_uncached r \<noteq> 0" "fr_id r \<notin> set (ps_served s)"
      using scan_best_Some [OF i] prefill_candidates_mem [of idx min_tokens avail s] Suc.prems
      by (auto simp: r_def phase_books_def)
    note R = phase_request [OF Suc.prems idx(1), folded r_def]
    show ?thesis
    proof (cases "rows < min_tokens \<and> rows < fr_uncached r")
      case True
      let ?s = "s\<lparr>ps_cursor := (idx + 1) mod length (ps_requests s)\<rparr>"
      have "prefill_phase tick min_tokens quantum remaining (Suc picks) s
          = prefill_phase tick min_tokens quantum remaining picks ?s"
        using a i True by (simp add: Let_def r_def rows_def)
      moreover have "phase_books quantum remaining rs ?s" using Suc.prems by (simp add: phase_books_def)
      ultimately show ?thesis using Suc.IH by simp
    next
      case False
      define s' where "s' = s\<lparr>ps_grants := ps_grants s @ [GPrefill (fr_id r) rows], ps_used := ps_used s + rows,
          ps_served := ps_served s @ [fr_id r],
          ps_requests := (ps_requests s)[idx := r\<lparr>fr_uncached := fr_uncached r - rows, fr_last_served := Some tick\<rparr>],
          ps_cursor := (idx + 1) mod length (ps_requests s)\<rparr>"
      have le: "ps_used s + rows \<le> remaining" "rows \<le> fr_uncached r" using av by (auto simp: rows_def)
      have c: "checked_add64 (ps_used s) rows = Some (ps_used s + rows)" "checked_sub (fr_uncached r) rows = Some (fr_uncached r - rows)"
        using le assms(3) by (auto simp: checked_Some)
      have "prefill_phase tick min_tokens quantum remaining (Suc picks) s = prefill_phase tick min_tokens quantum remaining picks s'"
        using a(2) False unfolding prefill_phase.simps a(1) option.case i Let_def r_def [symmetric] rows_def [symmetric] c s'_def
        by (simp only: if_False)
      moreover have "phase_books quantum remaining rs s'"
      proof (rule phase_grant [OF Suc.prems assms(2) idx(1), where g = "GPrefill (fr_id r) rows" and t = "Some tick"])
        show "ps_requests s' = (ps_requests s)[idx := (rs ! idx)\<lparr>fr_uncached := fr_uncached (rs ! idx)
            - prefilled [GPrefill (fr_id r) rows] (fr_id (rs ! idx)), fr_last_served := Some tick\<rparr>]"
          using phase_request_fresh [OF Suc.prems idx(1)] R idx by (auto simp: s'_def prefilled_def r_def)
        show "asked_for quantum rs (GPrefill (fr_id r) rows)"
          using R idx le a assms(4) nth_mem [OF idx(1)] by (auto simp: rows_def)
      qed (use R idx le in \<open>auto simp: s'_def\<close>)
      ultimately show ?thesis using Suc.IH by simp
    qed
  qed
qed simp

lemma whole_phase_books:
  assumes "phase_books quantum remaining rs s" "distinct (map fr_id rs)" "remaining \<le> u64_max"
    and "\<forall>k \<in> set ks. k < length rs \<and> fr_id (rs ! k) \<notin> set (ps_served s) \<and> 0 < need (rs ! k)" "distinct ks"
    and need: "\<And>r u t. need (r\<lparr>fr_uncached := u, fr_last_served := t\<rparr>) = need r"
    and mk: "\<And>i n j. grant_id (mk i n) = i \<and> grant_rows (mk i n) = n \<and> prefilled [mk i n] j = 0"
      "\<And>r. r \<in> set rs \<Longrightarrow> 0 < need r \<Longrightarrow> asked_for quantum rs (mk (fr_id r) (need r))"
  shows "phase_books quantum remaining rs (whole_phase tick remaining need mk ks s)"
  using assms(1,4,5)
proof (induction ks arbitrary: s)
  case (Cons k ks)
  define r where "r = ps_requests s ! k"
  have k: "k < length rs" "fr_id (rs ! k) \<notin> set (ps_served s)" "0 < need (rs ! k)" using Cons.prems(2) by auto
  note R = phase_request [OF Cons.prems(1) k(1), folded r_def]
  obtain u t where "r = (rs ! k)\<lparr>fr_uncached := u, fr_last_served := t\<rparr>"
    using Cons.prems(1) k(1) by (auto simp: phase_books_def r_def)
  then have nr: "need r = need (rs ! k)" by (simp add: need)
  have used: "ps_used s \<le> remaining" using Cons.prems(1) by (simp add: phase_books_def)
  then have cs: "checked_sub remaining (ps_used s) = Some (remaining - ps_used s)" by (simp add: checked_Some)
  have others: "\<forall>j \<in> set ks. j < length rs \<and> fr_id (rs ! j) \<notin> set (ps_served s @ [fr_id r]) \<and> 0 < need (rs ! j)"
  proof
    fix j assume j: "j \<in> set ks"
    then have "j \<noteq> k" "j < length rs" using Cons.prems(2,3) by auto
    then have "fr_id (rs ! j) \<noteq> fr_id (rs ! k)" using assms(2) k(1) by (metis length_map nth_eq_iff_index_eq nth_map)
    then show "j < length rs \<and> fr_id (rs ! j) \<notin> set (ps_served s @ [fr_id r]) \<and> 0 < need (rs ! j)"
      using Cons.prems(2) j R(1) by auto
  qed
  show ?case
  proof (cases "need r \<le> remaining - ps_used s")
    case False
    then have "whole_phase tick remaining need mk (k # ks) s = whole_phase tick remaining need mk ks s"
      using cs by (simp add: Let_def r_def)
    then show ?thesis using Cons.IH [OF Cons.prems(1)] Cons.prems(2,3) by simp
  next
    case True
    define s' where "s' = s\<lparr>ps_grants := ps_grants s @ [mk (fr_id r) (need r)], ps_used := ps_used s + need r,
        ps_served := ps_served s @ [fr_id r], ps_requests := (ps_requests s)[k := r\<lparr>fr_last_served := Some tick\<rparr>]\<rparr>"
    have le: "ps_used s + need r \<le> remaining" using True used by simp
    then have ca: "checked_add64 (ps_used s) (need r) = Some (ps_used s + need r)" using assms(3) by (simp add: checked_Some)
    have step: "whole_phase tick remaining need mk (k # ks) s = whole_phase tick remaining need mk ks s'"
      using cs ca True unfolding whole_phase.simps Let_def r_def [symmetric] s'_def by simp
    have b: "phase_books quantum remaining rs s'"
    proof (rule phase_grant [OF Cons.prems(1) assms(2) k(1,2), where g = "mk (fr_id r) (need r)" and t = "Some tick"])
      show "ps_requests s' = (ps_requests s)[k := (rs ! k)\<lparr>fr_uncached := fr_uncached (rs ! k)
          - prefilled [mk (fr_id r) (need r)] (fr_id (rs ! k)), fr_last_served := Some tick\<rparr>]"
        using phase_request_fresh [OF Cons.prems(1) k(1,2)] R k mk(1) by (auto simp: s'_def r_def)
    qed (use R mk nr k le nth_mem [OF k(1)] in \<open>auto simp: s'_def\<close>)
    show ?thesis unfolding step using Cons.IH [OF b] others Cons.prems(3) by (simp add: s'_def)
  qed
qed simp

lemma whole_candidates_ok:
  assumes "phase_books quantum remaining rs s" "distinct (map fr_id rs)"
    and need: "\<And>r u t. need (r\<lparr>fr_uncached := u, fr_last_served := t\<rparr>) = need r"
  shows "\<forall>k \<in> set (whole_candidates need s). k < length rs \<and> fr_id (rs ! k) \<notin> set (ps_served s) \<and> 0 < need (rs ! k)"
    "distinct (whole_candidates need s)"
proof -
  have "need (ps_requests s ! k) = need (rs ! k)" if k: "k < length rs" for k
  proof -
    obtain u t where "ps_requests s ! k = (rs ! k)\<lparr>fr_uncached := u, fr_last_served := t\<rparr>"
      using assms(1) k by (auto simp: phase_books_def)
    then show ?thesis by (simp add: need)
  qed
  moreover have "length (ps_requests s) = length rs" using assms(1) by (simp add: phase_books_def)
  ultimately show "\<forall>k \<in> set (whole_candidates need s). k < length rs \<and> fr_id (rs ! k) \<notin> set (ps_served s) \<and> 0 < need (rs ! k)"
    using phase_request(1) [OF assms(1)] by (auto simp: whole_candidates_def)
  show "distinct (whole_candidates need s)" by (simp add: whole_candidates_def)
qed

lemma select_phases_books:
  assumes d: "distinct (map fr_id (fq_requests q))" and r: "remaining \<le> u64_max"
  shows "phase_books quantum remaining (fq_requests q) (select_phases q lanes quantum remaining)"
proof -
  let ?rs = "fq_requests q" and ?B = "phase_books quantum remaining (fq_requests q)"
  let ?s0 = "\<lparr>ps_requests = ?rs, ps_grants = [], ps_used = 0, ps_served = [], ps_cursor = fq_prefill_cursor q\<rparr>"
  have "\<exists>t. r = r\<lparr>fr_last_served := t\<rparr>" for r :: fair_request
    by (rule exI [of _ "fr_last_served r"]) simp
  then have "?B ?s0" by (simp add: phase_books_def)
  note 1 = decode_phase_books [OF this d, of "fq_tick q" lanes]
  define s1 where "s1 = decode_phase (fq_tick q) remaining lanes ?s0"
  define s2 where "s2 = (if quantum > 0
      then prefill_phase (fq_tick q) (fq_prefill_min_tokens q) quantum remaining (length ?rs) s1 else s1)"
  have 2: "?B s2" using prefill_phase_books [OF 1 d r] 1 by (cases "quantum = 0") (simp_all add: s2_def s1_def)
  define s3 where "s3 = whole_phase (fq_tick q) remaining fr_verify_rows GVerify (whole_candidates fr_verify_rows s2) s2"
  note C2 = whole_candidates_ok [OF 2 d, of fr_verify_rows]
  have 3: "?B s3" unfolding s3_def
    by (rule whole_phase_books [OF 2 d r]) (use C2 in \<open>auto simp: prefilled_def\<close>)
  note C3 = whole_candidates_ok [OF 3 d, of fr_forced_rows]
  have "?B (whole_phase (fq_tick q) remaining fr_forced_rows GForced (whole_candidates fr_forced_rows s3) s3)"
    by (rule whole_phase_books [OF 3 d r]) (use C3 in \<open>auto simp: prefilled_def\<close>)
  then show ?thesis unfolding select_phases_def Let_def s1_def [symmetric] s2_def [symmetric] s3_def [symmetric] .
qed

section \<open>The queue over time\<close>

inductive fq_step :: "fair_queue \<Rightarrow> fair_queue \<Rightarrow> bool" where
  fqs_admit: "fq_admit q i domain n = (q', r) \<Longrightarrow> fq_step q q'"
| fqs_needs: "set_needs q i d v f = (q', r) \<Longrightarrow> fq_step q q'"
| fqs_uncached: "set_uncached_prefill q i n = (q', r) \<Longrightarrow> fq_step q q'"
| fqs_remove: "fq_remove q i = (q', r) \<Longrightarrow> fq_step q q'"
| fqs_round: "fq_step q (skip_round_complete q)"
| fqs_select: "remaining \<le> u64_max \<Longrightarrow> select q lanes quantum remaining = (q', sel) \<Longrightarrow> fq_step q q'"

definition fq_reachable :: "nat \<Rightarrow> nat \<Rightarrow> nat \<Rightarrow> fair_queue \<Rightarrow> bool" where
  "fq_reachable mb lanes pmin q \<longleftrightarrow> (\<exists>q0. fq_new mb lanes pmin = Ok q0 \<and> fq_step\<^sup>*\<^sup>* q0 q)"

lemma update_request_ids:
  assumes "update_request q i f = (q', r)" "\<And>x. fr_id (f x) = fr_id x"
  shows "map fr_id (fq_requests q') = map fr_id (fq_requests q)"
  using assms by (auto simp: update_request_def map_update list_update_same_conv position_Some split: option.splits)

lemma select_ids:
  assumes "select q lanes quantum remaining = (q', sel)" "distinct (map fr_id (fq_requests q))" "remaining \<le> u64_max"
  shows "map fr_id (fq_requests q') = map fr_id (fq_requests q)"
proof (cases "fq_requests q = []")
  case True
  then show ?thesis using assms(1) by (auto simp: select_def)
next
  case False
  note B = select_phases_books [OF assms(2,3), of quantum lanes]
  have "fq_requests q' = ps_requests (select_phases q lanes quantum remaining)"
    using assms(1) False by (auto simp: select_def Let_def)
  then show ?thesis using phase_request(1) [OF B] B by (auto simp: phase_books_def intro!: nth_equalityI)
qed

lemma fq_step_ids: "fq_step q q' \<Longrightarrow> distinct (map fr_id (fq_requests q)) \<Longrightarrow> distinct (map fr_id (fq_requests q'))"
proof (induction rule: fq_step.induct)
  case (fqs_admit q i domain n q' r)
  then show ?case by (auto simp: fq_admit_def list_ex_iff split: if_splits)
next
  case (fqs_needs q i d v f q' r)
  then show ?case using update_request_ids [of q i _ q' r] by (auto simp: set_needs_def)
next
  case (fqs_uncached q i n q' r)
  then show ?case using update_request_ids [of q i _ q' r] by (auto simp: set_uncached_prefill_def)
next
  case (fqs_remove q i q' r)
  then show ?case by (auto simp: fq_remove_def Let_def distinct_map_filter split: if_splits)
next
  case (fqs_round q)
  then show ?case by (simp add: skip_round_complete_def o_def Let_def)
next
  case (fqs_select remaining q lanes quantum q' sel)
  then show ?case using select_ids by metis
qed

lemma fq_reachable_ids: "fq_reachable mb lanes pmin q \<Longrightarrow> distinct (map fr_id (fq_requests q))"
proof -
  assume "fq_reachable mb lanes pmin q"
  then obtain q0 where q0: "fq_new mb lanes pmin = Ok q0" "fq_step\<^sup>*\<^sup>* q0 q" by (auto simp: fq_reachable_def)
  have "fq_requests q0 = []" using q0(1) by (auto simp: fq_new_def split: if_splits option.splits)
  with q0(2) show ?thesis by (induction rule: rtranclp_induct) (auto intro: fq_step_ids)
qed

text \<open>
  C36: The grants of a step never exceed the rows left for it; no request is granted twice; every grant answers
  a need of an admitted request, decode only for a request that verifies nothing, verify and forced rows in
  full, prefill rows positive and within the quantum and the tokens left; and exactly the granted prefill
  rows are taken off the request, whose other fields stay.
\<close>

theorem select_grants_sound:
  assumes "fq_reachable mb dl pmin q" "remaining \<le> u64_max" "select q lanes quantum remaining = (q', sel)"
  shows "sum_list (map grant_rows (sel_grants sel)) \<le> remaining \<and> distinct (map grant_id (sel_grants sel))
    \<and> (\<forall>g \<in> set (sel_grants sel). asked_for quantum (fq_requests q) g)
    \<and> length (fq_requests q') = length (fq_requests q)
    \<and> (\<forall>k < length (fq_requests q). \<exists>t. fq_requests q' ! k = (fq_requests q ! k)
         \<lparr>fr_uncached := fr_uncached (fq_requests q ! k) - prefilled (sel_grants sel) (fr_id (fq_requests q ! k)),
          fr_last_served := t\<rparr>)"
proof (cases "fq_requests q = []")
  case True
  then show ?thesis using assms(3) by (auto simp: select_def selection_default_def)
next
  case False
  have "fq_requests q' = ps_requests (select_phases q lanes quantum remaining)"
    "sel_grants sel = ps_grants (select_phases q lanes quantum remaining)"
    using assms(3) False by (auto simp: select_def Let_def)
  then show ?thesis
    using select_phases_books [OF fq_reachable_ids [OF assms(1)] assms(2), of quantum lanes]
    by (simp add: phase_books_def)
qed

section \<open>Decode rows go to the fairest\<close>

fun is_decode :: "grant \<Rightarrow> bool" where
  "is_decode (GDecode _) \<longleftrightarrow> True"
| "is_decode _ \<longleftrightarrow> False"

lemma prefill_phase_decodes:
  "filter is_decode (ps_grants (prefill_phase tick m quantum remaining picks s)) = filter is_decode (ps_grants s)"
proof (induction picks arbitrary: s)
  case (Suc picks)
  then show ?case by (auto simp: Let_def split: option.splits)
qed simp

lemma whole_phase_decodes:
  assumes "\<And>i n. \<not> is_decode (mk i n)"
  shows "filter is_decode (ps_grants (whole_phase tick remaining need mk ks s)) = filter is_decode (ps_grants s)"
proof (induction ks arbitrary: s)
  case (Cons k ks)
  then show ?case using assms by (auto simp: Let_def split: option.splits)
qed simp

lemma decode_rows_count: "list_all is_decode gs \<Longrightarrow> sum_list (map grant_rows gs) = length gs"
  by (induction gs) (auto elim: is_decode.elims)

definition waits :: "fair_request list \<Rightarrow> phase_state \<Rightarrow> nat \<Rightarrow> bool" where
  "waits rs s k \<longleftrightarrow> k < length rs \<and> fr_wants_decode (rs ! k) \<and> fr_verify_rows (rs ! k) = 0 \<and> fr_id (rs ! k) \<notin> set (ps_served s)"

lemma decode_phase_fair:
  fixes tick lanes
  assumes "phase_books quantum remaining rs s" "distinct (map fr_id rs)" "list_all is_decode (ps_grants s)"
    and "\<And>k j. waits rs s k \<Longrightarrow> j < length rs \<Longrightarrow> fr_id (rs ! j) \<in> set (ps_served s) \<Longrightarrow> \<not> fairer (rs ! k) (rs ! j)"
  defines "s' \<equiv> decode_phase tick remaining lanes s"
  shows "list_all is_decode (ps_grants s')
    \<and> (\<forall>k. waits rs s' k \<longrightarrow> length (ps_grants s') = length (ps_grants s) + lanes \<or> length (ps_grants s') = remaining)
    \<and> (\<forall>k j. waits rs s' k \<longrightarrow> j < length rs \<longrightarrow> fr_id (rs ! j) \<in> set (ps_served s') \<longrightarrow> \<not> fairer (rs ! k) (rs ! j))"
  using assms(1,3,4) unfolding s'_def
proof (induction lanes arbitrary: s)
  case 0
  then show ?case by simp
next
  case (Suc lanes)
  let ?p = "\<lambda>r. fr_wants_decode r \<and> fr_verify_rows r = 0 \<and> fr_id r \<notin> set (ps_served s)"
  have used: "length (ps_grants s) = ps_used s"
    using decode_rows_count [OF Suc.prems(2)] Suc.prems(1) by (simp add: phase_books_def)
  have len: "length (ps_requests s) = length rs" using Suc.prems(1) by (simp add: phase_books_def)
  have wait: "waits rs s k \<longleftrightarrow> k < length rs \<and> ?p (ps_requests s ! k)" for k
    using phase_request [OF Suc.prems(1), of k] by (auto simp: waits_def)
  show ?case
  proof (cases "\<exists>avail idx. checked_sub remaining (ps_used s) = Some avail \<and> avail \<noteq> 0 \<and> best_index (ps_requests s) ?p = Some idx")
    case False
    then have d: "decode_phase tick remaining (Suc lanes) s = s" by (auto split: option.splits)
    have le: "ps_used s \<le> remaining" using Suc.prems(1) by (simp add: phase_books_def)
    have "length (ps_grants s) = remaining" if "waits rs s k" for k
    proof -
      have "best_index (ps_requests s) ?p \<noteq> None" using that wait len by (auto simp: best_index_None)
      then have "\<not> (ps_used s < remaining)" using False le by (auto simp: checked_sub_def)
      then show ?thesis using used le by simp
    qed
    then show ?thesis unfolding d using Suc.prems(2,3) by blast
  next
    case True
    then obtain avail idx where a: "checked_sub remaining (ps_used s) = Some avail" "avail \<noteq> 0"
      and i: "best_index (ps_requests s) ?p = Some idx" by blast
    define s1 where "s1 = s\<lparr>ps_grants := ps_grants s @ [GDecode (fr_id (ps_requests s ! idx))], ps_used := ps_used s + 1,
        ps_served := ps_served s @ [fr_id (ps_requests s ! idx)],
        ps_requests := (ps_requests s)[idx := (ps_requests s ! idx)\<lparr>fr_last_served := Some tick\<rparr>]\<rparr>"
    have step: "decode_phase tick remaining (Suc lanes) s = decode_phase tick remaining lanes s1"
      using a i by (simp add: s1_def Let_def)
    have b1: "phase_books quantum remaining rs s1"
    proof -
      have "phase_books quantum remaining rs (decode_phase tick remaining 1 s)" by (rule decode_phase_books [OF Suc.prems(1) assms(2)])
      moreover have "decode_phase tick remaining 1 s = s1" using a i by (simp add: s1_def Let_def One_nat_def)
      ultimately show ?thesis by simp
    qed
    have idx: "idx < length rs" "?p (ps_requests s ! idx)" using best_index_Some [OF i] len by auto
    note R = phase_request [OF Suc.prems(1)]
    have key: "fair_key (ps_requests s ! k) = fair_key (rs ! k)" if "waits rs s k" for k
      using that R by (simp add: fair_key_def waits_def)
    have widx: "waits rs s idx" using idx wait by blast
    have fair1: "\<not> fairer (rs ! k) (rs ! j)"
      if k: "waits rs s1 k" and j: "j < length rs" "fr_id (rs ! j) \<in> set (ps_served s1)" for k j
    proof -
      have kw: "waits rs s k" using k by (auto simp: waits_def s1_def)
      show ?thesis
      proof (cases "fr_id (rs ! j) \<in> set (ps_served s)")
        case True
        then show ?thesis using Suc.prems(3) kw j(1) by blast
      next
        case False
        then have "fr_id (rs ! j) = fr_id (rs ! idx)" using j(2) R(1) [OF idx(1)] by (simp add: s1_def)
        then have "j = idx" using assms(2) j(1) idx(1) by (metis length_map nth_eq_iff_index_eq nth_map)
        moreover have "\<not> fairer (ps_requests s ! k) (ps_requests s ! idx)"
          using best_index_Some [OF i] kw wait len by auto
        ultimately show ?thesis using key [OF kw] key [OF widx] by (simp add: fairer_def)
      qed
    qed
    have "list_all is_decode (ps_grants s1)" using Suc.prems(2) by (simp add: s1_def)
    from Suc.IH [OF b1 this fair1] show ?thesis unfolding step by (simp add: s1_def)
  qed
qed

lemma select_decodes:
  fixes lanes quantum remaining :: nat
  assumes d: "distinct (map fr_id (fq_requests q))"
  defines "ds \<equiv> filter is_decode (ps_grants (select_phases q lanes quantum remaining))"
  shows "\<exists>s1. phase_books quantum remaining (fq_requests q) s1 \<and> ps_grants s1 = ds \<and> ps_served s1 = map grant_id ds
    \<and> (\<forall>k. waits (fq_requests q) s1 k \<longrightarrow> length ds = lanes \<or> length ds = remaining)
    \<and> (\<forall>k j. waits (fq_requests q) s1 k \<longrightarrow> j < length (fq_requests q)
         \<longrightarrow> fr_id (fq_requests q ! j) \<in> set (ps_served s1) \<longrightarrow> \<not> fairer (fq_requests q ! k) (fq_requests q ! j))"
proof -
  let ?rs = "fq_requests q"
  let ?s0 = "\<lparr>ps_requests = ?rs, ps_grants = [], ps_used = 0, ps_served = [], ps_cursor = fq_prefill_cursor q\<rparr>"
  define s1 where "s1 = decode_phase (fq_tick q) remaining lanes ?s0"
  have "\<exists>t. r = r\<lparr>fr_last_served := t\<rparr>" for r :: fair_request
    by (rule exI [of _ "fr_last_served r"]) simp
  then have b0: "phase_books quantum remaining ?rs ?s0" by (simp add: phase_books_def)
  have b1: "phase_books quantum remaining ?rs s1" unfolding s1_def by (rule decode_phase_books [OF b0 d])
  note F = decode_phase_fair [OF b0 d, of "fq_tick q" lanes, folded s1_def, simplified]
  have "ds = filter is_decode (ps_grants s1)"
    unfolding ds_def select_phases_def Let_def s1_def [symmetric]
    by (simp add: whole_phase_decodes prefill_phase_decodes)
  also have "\<dots> = ps_grants s1" using F by (simp add: filter_id_conv list_all_iff)
  finally have "ps_grants s1 = ds" by simp
  moreover have "map grant_id (ps_grants s1) = ps_served s1" using b1 by (simp add: phase_books_def)
  ultimately show ?thesis using F b1 by metis
qed

text \<open>
  C37: A request that wants to decode and gets no decode row is passed over only because the decode lanes or
  the rows were used up, and every request that got a decode row is at least as entitled: in the aged band
  first, then admitted earlier, then with less left to prefill.
\<close>

theorem decode_rows_to_fairest:
  assumes "fq_reachable mb dl pmin q" "select q lanes quantum remaining = (q', sel)"
    and "r \<in> set (fq_requests q)" "fr_wants_decode r" "fr_verify_rows r = 0" "GDecode (fr_id r) \<notin> set (sel_grants sel)"
  shows "(length (filter is_decode (sel_grants sel)) = lanes \<or> length (filter is_decode (sel_grants sel)) = remaining)
    \<and> (\<forall>r' \<in> set (fq_requests q). GDecode (fr_id r') \<in> set (sel_grants sel) \<longrightarrow> \<not> fairer r r')"
proof -
  let ?rs = "fq_requests q"
  have g: "sel_grants sel = ps_grants (select_phases q lanes quantum remaining)"
    using assms(2,3) by (auto simp: select_def Let_def split: if_splits)
  obtain s1 where s1: "ps_grants s1 = filter is_decode (sel_grants sel)"
    "ps_served s1 = map grant_id (filter is_decode (sel_grants sel))"
    and full: "\<And>k. waits ?rs s1 k \<Longrightarrow> length (filter is_decode (sel_grants sel)) = lanes \<or> length (filter is_decode (sel_grants sel)) = remaining"
    and fair: "\<And>k j. waits ?rs s1 k \<Longrightarrow> j < length ?rs \<Longrightarrow> fr_id (?rs ! j) \<in> set (ps_served s1) \<Longrightarrow> \<not> fairer (?rs ! k) (?rs ! j)"
    using select_decodes [OF fq_reachable_ids [OF assms(1)], where lanes = lanes and quantum = quantum and remaining = remaining]
    unfolding g by blast
  have served: "i \<in> set (ps_served s1) \<longleftrightarrow> GDecode i \<in> set (sel_grants sel)" for i
    unfolding s1(2) by (auto simp: image_iff elim!: is_decode.elims)
  obtain k where k: "k < length ?rs" "?rs ! k = r" using assms(3) by (auto simp: in_set_conv_nth)
  then have w: "waits ?rs s1 k" using assms(4-6) served by (simp add: waits_def)
  have "\<not> fairer r r'" if "r' \<in> set ?rs" "GDecode (fr_id r') \<in> set (sel_grants sel)" for r'
    using fair [OF w] that served k by (auto simp: in_set_conv_nth)
  then show ?thesis using full [OF w] by blast
qed

section \<open>Concrete steps\<close>

declare fq_new_def [run] fq_admit_def [run] update_request_def [run] set_needs_def [run]
  best_index_def [run] scan_best_def [run] fairness_cmp_def [run] nat_cmp_def [run] prefill_candidates_def [run]
  whole_candidates_def [run] sort_by_def [run] unserved_def [run] best_starved_def [run] needed_rows_def [run]
  selection_default_def [run]

lemmas eval_queue = run upt_conv_Cons checked_sub_def checked_add64_def Let_def u64_max_def

lemma select_by_phases:
  assumes "fq_requests q \<noteq> []" "0 < quantum"
    and "decode_phase (fq_tick q) remaining lanes
      \<lparr>ps_requests = fq_requests q, ps_grants = [], ps_used = 0, ps_served = [], ps_cursor = fq_prefill_cursor q\<rparr> = s1"
    and "prefill_phase (fq_tick q) (fq_prefill_min_tokens q) quantum remaining (length (fq_requests q)) s1 = s2"
    and "whole_candidates fr_verify_rows s2 = vs" "whole_phase (fq_tick q) remaining fr_verify_rows GVerify vs s2 = s3"
    and "whole_candidates fr_forced_rows s3 = fs" "whole_phase (fq_tick q) remaining fr_forced_rows GForced fs s3 = s4"
    and "map needed_rows (fq_requests q) = ns" "best_starved (fq_max_batch_tokens q) ns s4 = best"
  shows "select q lanes quantum remaining =
    (q\<lparr>fq_requests := ps_requests s4, fq_prefill_cursor := ps_cursor s4, fq_tick := fq_tick q + 1\<rparr>,
     \<lparr>sel_grants = ps_grants s4, sel_starved_oldest = (best \<noteq> None),
      sel_starved_id = map_option (\<lambda>i. fr_id (ps_requests s4 ! i)) best\<rparr>)"
  using assms by (simp add: select_def select_phases_def Let_def)

lemma fq_reachable_new: "fq_new mb dl pmin = Ok q \<Longrightarrow> fq_reachable mb dl pmin q"
  by (auto simp: fq_reachable_def)

lemma fq_reachable_step: "fq_reachable mb dl pmin q \<Longrightarrow> fq_step q q' \<Longrightarrow> fq_reachable mb dl pmin q'"
  by (auto simp: fq_reachable_def intro: rtranclp.rtrancl_into_rtrancl)

lemma fq_reachable_fst:
  assumes "fq_reachable mb dl pmin q"
  shows "fq_reachable mb dl pmin (fst (fq_admit q i domain n))" "fq_reachable mb dl pmin (fst (set_needs q i d v f))"
    "remaining \<le> u64_max \<Longrightarrow> fq_reachable mb dl pmin (fst (select q lanes quantum remaining))"
  by (rule fq_reachable_step [OF assms], rule fq_step.intros, rule prod.collapse [symmetric])
    (rule fq_reachable_step [OF assms], rule fq_step.intros, (assumption | rule prod.collapse [symmetric])+)+

text \<open>
  Request 1 has prefilled one quantum when request 2 is admitted; then both want to decode and request 1 has
  forced rows too.
\<close>

definition demo_queue0 :: fair_queue where
  "demo_queue0 = fst (fq_admit (projr (fq_new 16 1 2)) 1 ''a'' 100)"

definition demo_queue1 :: fair_queue where
  "demo_queue1 = fst (fq_admit (fst (select demo_queue0 1 4 4)) 2 ''b'' 100)"

definition demo_queue :: fair_queue where
  "demo_queue = fst (set_needs (fst (set_needs demo_queue1 1 True 0 3)) 2 True 0 0)"

lemma demo_queue0: "demo_queue0 =
  \<lparr>fq_max_batch_tokens = 16, fq_decode_lanes = 1, fq_prefill_min_tokens = 2,
   fq_requests =
     [\<lparr>fr_id = 1, fr_domain_id = ''a'', fr_admission_tick = 0, fr_uncached = 100, fr_aged = False,
        fr_last_served = None, fr_wants_decode = False, fr_verify_rows = 0, fr_forced_rows = 0\<rparr>],
   fq_prefill_cursor = 0, fq_tick = 0, fq_last_round_tick = 0\<rparr>"
  by (simp add: demo_queue0_def eval_queue)

lemma demo_queue1: "demo_queue1 =
  \<lparr>fq_max_batch_tokens = 16, fq_decode_lanes = 1, fq_prefill_min_tokens = 2,
   fq_requests =
     [\<lparr>fr_id = 1, fr_domain_id = ''a'', fr_admission_tick = 0, fr_uncached = 96, fr_aged = False,
        fr_last_served = Some 0, fr_wants_decode = False, fr_verify_rows = 0, fr_forced_rows = 0\<rparr>,
      \<lparr>fr_id = 2, fr_domain_id = ''b'', fr_admission_tick = 1, fr_uncached = 100, fr_aged = False,
        fr_last_served = None, fr_wants_decode = False, fr_verify_rows = 0, fr_forced_rows = 0\<rparr>],
   fq_prefill_cursor = 0, fq_tick = 1, fq_last_round_tick = 0\<rparr>"
  unfolding demo_queue1_def by (subst select_by_phases, (simp add: demo_queue0 eval_queue)+)

lemma demo_queue_reachable: "fq_reachable 16 1 2 demo_queue"
proof -
  have "fq_reachable 16 1 2 (projr (fq_new 16 1 2))" by (rule fq_reachable_new) (simp add: run)
  moreover have "(4::nat) \<le> u64_max" by (simp add: u64_max_def)
  ultimately show ?thesis unfolding demo_queue_def demo_queue1_def demo_queue0_def by (intro fq_reachable_fst)
qed

lemma demo_queue: "demo_queue =
  \<lparr>fq_max_batch_tokens = 16, fq_decode_lanes = 1, fq_prefill_min_tokens = 2,
   fq_requests =
     [\<lparr>fr_id = 1, fr_domain_id = ''a'', fr_admission_tick = 0, fr_uncached = 96, fr_aged = False,
        fr_last_served = Some 0, fr_wants_decode = True, fr_verify_rows = 0, fr_forced_rows = 3\<rparr>,
      \<lparr>fr_id = 2, fr_domain_id = ''b'', fr_admission_tick = 1, fr_uncached = 100, fr_aged = False,
        fr_last_served = None, fr_wants_decode = True, fr_verify_rows = 0, fr_forced_rows = 0\<rparr>],
   fq_prefill_cursor = 0, fq_tick = 1, fq_last_round_tick = 0\<rparr>"
  by (simp add: demo_queue_def demo_queue1 eval_queue)

lemma demo_select: "sel_grants (snd (select demo_queue 1 4 8)) = [GDecode 1, GPrefill 2 4]"
  by (subst select_by_phases, (simp add: demo_queue eval_queue)+)

theorem select_grants_sound_witness:
  "sum_list (map grant_rows (sel_grants (snd (select demo_queue 1 4 8)))) \<le> 8"
  using select_grants_sound [OF demo_queue_reachable, of 8 1 4 "fst (select demo_queue 1 4 8)" "snd (select demo_queue 1 4 8)"]
  by (simp add: u64_max_def)

theorem decode_rows_to_fairest_witness:
  "length (filter is_decode (sel_grants (snd (select demo_queue 1 4 8)))) = 1"
proof -
  let ?r = "fq_requests demo_queue ! 1"
  have r: "fr_wants_decode ?r" "fr_verify_rows ?r = 0" "fr_id ?r = 2" "?r \<in> set (fq_requests demo_queue)"
    by (simp_all add: demo_queue)
  from decode_rows_to_fairest [OF demo_queue_reachable, of 1 4 8 "fst (select demo_queue 1 4 8)" "snd (select demo_queue 1 4 8)" ?r]
    r demo_select
  show ?thesis by simp
qed

text \<open>
  The starved request need not have been passed over: a request that wants a decode row and forced rows
  is granted the decode row, cannot be served twice in one step, and is then reported as the starved one
  although rows are left.
\<close>

theorem starved_request_was_served:
  "let q = fst (set_needs (fst (fq_admit (projr (fq_new 10 2 1)) 1 ''a'' 0)) 1 True 0 3); sel = snd (select q 1 4 10)
   in sel_grants sel = [GDecode 1] \<and> sel_starved_oldest sel \<and> sel_starved_id sel = Some 1"
  unfolding Let_def by (subst select_by_phases, (simp add: eval_queue)+)+

text \<open>
  The cursor does not rotate prefill among requests of different admission ticks: with two runnable
  prefills and rows for one quantum, the older one takes every one of three steps in a row, more steps than
  there are requests.
\<close>

theorem younger_prefill_not_rotated:
  "let (q2, sel1) = select demo_queue1 0 4 4; (q3, sel2) = select q2 0 4 4; (q4, sel3) = select q3 0 4 4
   in map fr_uncached (fq_requests demo_queue1) = [96, 100]
      \<and> map sel_grants [sel1, sel2, sel3] = replicate 3 [GPrefill 1 4]"
  by (subst select_by_phases, simp add: demo_queue1, (simp add: demo_queue1 eval_queue)+)+

end
