(* ===== verification/Byte_Codec.thy ===== *)
theory Byte_Codec
  imports Rust_Prelude
begin

unbundle bit_operations_syntax

text \<open>
  The byte streams of \<^verbatim>\<open>crates/hipfire-runtime/src/serve_contract.rs\<close>: the \<^verbatim>\<open>put_*\<close> writers and the
  \<^verbatim>\<open>take_*\<close> readers on a cursor, with the errors of \<^verbatim>\<open>CanonicalError\<close>. A \<^verbatim>\<open>u8\<close> is an \<^typ>\<open>8 word\<close>, a
  \<^verbatim>\<open>u64\<close> a \<^typ>\<open>64 word\<close>; a Rust string is its UTF-8 bytes, which the reader checks.

  The interface of all of them is one locale: a reader undoes its writer in front of any further
  bytes, and accepts nothing else. The locale gives unique decodability, and every pair of the
  source is an instance of it, counted sequences of an instance included.
\<close>

type_synonym byte = "8 word"
type_synonym u64 = "64 word"

datatype canonical_error =
    Truncated
  | Oversized
  | Version byte
  | Utf8
  | Trailing nat

text \<open>A reader consumes a prefix of the cursor.\<close>

type_synonym 'a reader = "byte list \<Rightarrow> canonical_error + 'a \<times> byte list"

definition read_bind :: "'a reader \<Rightarrow> ('a \<Rightarrow> 'b reader) \<Rightarrow> 'b reader" where
  "read_bind m f cur = (case m cur of Inl e \<Rightarrow> Err e | Inr (a, rest) \<Rightarrow> f a rest)"

lemma read_bind_Ok [simp]: "m cur = Ok (a, rest) \<Longrightarrow> read_bind m f cur = f a rest"
  by (simp add: read_bind_def)

lemma read_bind_eq_Ok:
  "read_bind m f cur = Ok (y, rest) \<longleftrightarrow> (\<exists>a mid. m cur = Ok (a, mid) \<and> f a mid = Ok (y, rest))"
  by (auto simp: read_bind_def split: sum.splits prod.splits)

section \<open>Writers and readers\<close>

definition to_le_bytes :: "u64 \<Rightarrow> byte list" where
  "to_le_bytes v = map (\<lambda>i. ucast (drop_bit (8 * i) v)) [0 ..< 8]"

fun from_le_bytes :: "byte list \<Rightarrow> u64" where
  "from_le_bytes [] = 0"
| "from_le_bytes (b # bs) = ucast b OR push_bit 8 (from_le_bytes bs)"

definition put_u8 :: "byte \<Rightarrow> byte list" where
  "put_u8 v = [v]"

definition put_u64 :: "u64 \<Rightarrow> byte list" where
  "put_u64 v = to_le_bytes v"

definition put_bytes :: "byte list \<Rightarrow> byte list" where
  "put_bytes b = put_u64 (of_nat (length b)) @ b"

definition put_str :: "byte list \<Rightarrow> byte list" where
  "put_str s = put_bytes s"

definition take_u8 :: "byte reader" where
  "take_u8 cur = (case cur of [] \<Rightarrow> Err Truncated | b # rest \<Rightarrow> Ok (b, rest))"

definition take_u64 :: "u64 reader" where
  "take_u64 cur = (if length cur < 8 then Err Truncated else Ok (from_le_bytes (take 8 cur), drop 8 cur))"

definition take_count :: "nat \<Rightarrow> nat reader" where
  "take_count min_member_bytes cur =
     (case take_u64 cur of
        Inl e \<Rightarrow> Err e
      | Inr (raw, rest) \<Rightarrow>
          let n = unat raw; max_count = length rest div max min_member_bytes 1
          in if n > max_count then Err Oversized else Ok (n, rest))"

definition take_bytes :: "byte list reader" where
  "take_bytes cur =
     (case take_u64 cur of
        Inl e \<Rightarrow> Err e
      | Inr (raw, rest) \<Rightarrow>
          let len = unat raw
          in if length rest < len then Err Oversized else Ok (take len rest, drop len rest))"

text \<open>
  \<^verbatim>\<open>String::from_utf8\<close>: the well-formed byte sequences of the Unicode standard, without overlong
  forms, surrogates and values past the last code point.
\<close>

definition utf8_cont :: "byte \<Rightarrow> bool" where
  "utf8_cont b \<longleftrightarrow> 0x80 \<le> b \<and> b \<le> 0xBF"

definition utf8_lead2 :: "byte \<Rightarrow> byte \<Rightarrow> bool" where
  "utf8_lead2 a b \<longleftrightarrow> 0xC2 \<le> a \<and> a \<le> 0xDF \<and> utf8_cont b"

definition utf8_lead3 :: "byte \<Rightarrow> byte \<Rightarrow> bool" where
  "utf8_lead3 a b \<longleftrightarrow>
     (if a = 0xE0 then 0xA0 \<le> b \<and> b \<le> 0xBF
      else if a = 0xED then 0x80 \<le> b \<and> b \<le> 0x9F
      else 0xE1 \<le> a \<and> a \<le> 0xEF \<and> utf8_cont b)"

definition utf8_lead4 :: "byte \<Rightarrow> byte \<Rightarrow> bool" where
  "utf8_lead4 a b \<longleftrightarrow>
     (if a = 0xF0 then 0x90 \<le> b \<and> b \<le> 0xBF
      else if a = 0xF4 then 0x80 \<le> b \<and> b \<le> 0x8F
      else 0xF1 \<le> a \<and> a \<le> 0xF3 \<and> utf8_cont b)"

fun valid_utf8 :: "byte list \<Rightarrow> bool" where
  "valid_utf8 [] = True"
| "valid_utf8 (a # bs) =
     (if a < 0x80 then valid_utf8 bs
      else case bs of
        [] \<Rightarrow> False
      | b # cs \<Rightarrow>
          if utf8_lead2 a b then valid_utf8 cs
          else case cs of
            [] \<Rightarrow> False
          | c # ds \<Rightarrow>
              if utf8_lead3 a b \<and> utf8_cont c then valid_utf8 ds
              else case ds of
                [] \<Rightarrow> False
              | d # es \<Rightarrow> utf8_lead4 a b \<and> utf8_cont c \<and> utf8_cont d \<and> valid_utf8 es)"

definition take_str :: "byte list reader" where
  "take_str = read_bind take_bytes (\<lambda>b rest. if valid_utf8 b then Ok (b, rest) else Err Utf8)"

text \<open>The loops \<^verbatim>\<open>for _ in 0..count\<close> and \<^verbatim>\<open>for x in &xs\<close> of the domain codec.\<close>

fun take_many :: "'a reader \<Rightarrow> nat \<Rightarrow> 'a list reader" where
  "take_many m 0 cur = Ok ([], cur)"
| "take_many m (Suc n) cur = read_bind m (\<lambda>x. read_bind (take_many m n) (\<lambda>xs rest. Ok (x # xs, rest))) cur"

definition put_list :: "('a \<Rightarrow> byte list) \<Rightarrow> 'a list \<Rightarrow> byte list" where
  "put_list put xs = put_u64 (of_nat (length xs)) @ concat (map put xs)"

definition take_list :: "nat \<Rightarrow> 'a reader \<Rightarrow> 'a list reader" where
  "take_list min_member_bytes m = read_bind (take_count min_member_bytes) (take_many m)"

section \<open>The codec interface\<close>

text \<open>
  \<open>ok\<close> are the values the writer is used on. The single law says that reading is exactly undoing a
  write.
\<close>

locale codec =
  fixes put :: "'a \<Rightarrow> byte list" and get :: "'a reader" and ok :: "'a \<Rightarrow> bool"
  assumes get_iff: "get bs = Ok (x, rest) \<longleftrightarrow> ok x \<and> bs = put x @ rest"
begin

lemma get_put: "ok x \<Longrightarrow> get (put x @ rest) = Ok (x, rest)"
  by (simp add: get_iff)

lemma put_unique:
  assumes "ok x" "ok y" "put x @ r = put y @ s"
  shows "x = y \<and> r = s"
  using get_put [OF assms(1), of r, unfolded assms(3) get_put [OF assms(2)]] by blast

lemma get_bind: "read_bind get f bs = Ok (y, rest) \<longleftrightarrow> (\<exists>x mid. ok x \<and> bs = put x @ mid \<and> f x mid = Ok (y, rest))"
  unfolding read_bind_eq_Ok get_iff by blast

lemma bind_put: "ok x \<Longrightarrow> read_bind get f (put x @ rest) = f x rest"
  by (simp add: get_put)

lemma get_many: "take_many get n bs = Ok (xs, rest) \<longleftrightarrow> length xs = n \<and> list_all ok xs \<and> bs = concat (map put xs) @ rest"
proof (induction n arbitrary: bs xs)
  case 0
  then show ?case by auto
next
  case (Suc n)
  have "take_many get (Suc n) bs = Ok (xs, rest) \<longleftrightarrow>
      (\<exists>x mid ys. ok x \<and> bs = put x @ mid \<and> take_many get n mid = Ok (ys, rest) \<and> xs = x # ys)"
    unfolding take_many.simps get_bind by (rule iff_exI)+ (auto simp: read_bind_eq_Ok)
  also have "\<dots> \<longleftrightarrow> (\<exists>x mid ys. ok x \<and> bs = put x @ mid \<and> (length ys = n \<and> list_all ok ys \<and> mid = concat (map put ys) @ rest) \<and> xs = x # ys)"
    unfolding Suc.IH ..
  also have "\<dots> \<longleftrightarrow> length xs = Suc n \<and> list_all ok xs \<and> bs = concat (map put xs) @ rest"
    by (cases xs) auto
  finally show ?case .
qed

end

text \<open>A codec whose encodings have at least \<open>w\<close> bytes can be counted: the guard of the counter never refuses a written list.\<close>

locale counted_codec = codec +
  fixes w :: nat
  assumes w_pos: "0 < w" and put_length: "ok x \<Longrightarrow> w \<le> length (put x)"
begin

lemma concat_length: "list_all ok xs \<Longrightarrow> length xs * w \<le> length (concat (map put xs))"
proof (induction xs)
  case (Cons x xs)
  then have "w + length xs * w \<le> length (put x) + length (concat (map put xs))"
    using put_length [of x] by (intro add_mono) auto
  then show ?case by simp
qed simp

end

section \<open>The instances of the source\<close>

lemma length_to_le_bytes [simp]: "length (to_le_bytes v) = 8"
  by (simp add: to_le_bytes_def)

lemma bit_from_le_bytes: "bit (from_le_bytes bs) n \<longleftrightarrow> n < 64 \<and> n div 8 < length bs \<and> bit (bs ! (n div 8)) (n mod 8)"
proof (induction bs arbitrary: n)
  case (Cons b bs)
  show ?case
  proof (cases "n < 8")
    case True
    then show ?thesis by (simp add: bit_simps)
  next
    case False
    then have "n div 8 = Suc ((n - 8) div 8)" "n mod 8 = (n - 8) mod 8"
      by (simp_all add: le_div_geq le_mod_geq)
    moreover have "\<not> bit b n" using False bit_imp_le_length [of b n] by auto
    ultimately show ?thesis using False by (auto simp: bit_simps Cons.IH)
  qed
qed simp

lemma from_to_le_bytes [simp]: "from_le_bytes (to_le_bytes v) = v"
proof (rule bit_word_eqI)
  fix n assume "n < LENGTH(64)"
  then have "n < 64" by simp
  then have "n div 8 < 8" by auto
  then have k: "to_le_bytes v ! (n div 8) = ucast (drop_bit (8 * (n div 8)) v)"
    by (simp add: to_le_bytes_def)
  show "bit (from_le_bytes (to_le_bytes v)) n = bit v n"
    using \<open>n < 64\<close> \<open>n div 8 < 8\<close> by (simp add: bit_from_le_bytes k bit_simps)
qed

lemma to_from_le_bytes:
  assumes "length bs = 8"
  shows "to_le_bytes (from_le_bytes bs) = bs"
proof (rule nth_equalityI)
  fix i assume "i < length (to_le_bytes (from_le_bytes bs))"
  then have i: "i < 8" by simp
  then have k: "to_le_bytes (from_le_bytes bs) ! i = ucast (drop_bit (8 * i) (from_le_bytes bs))"
    by (simp add: to_le_bytes_def)
  show "to_le_bytes (from_le_bytes bs) ! i = bs ! i"
  proof (rule bit_word_eqI)
    fix n assume "n < LENGTH(8)"
    then show "bit (to_le_bytes (from_le_bytes bs) ! i) n = bit (bs ! i) n"
      using i assms unfolding k by (simp add: bit_simps bit_from_le_bytes)
  qed
qed (simp add: assms)

interpretation u8_codec: codec put_u8 take_u8 "\<lambda>_. True"
  by unfold_locales (auto simp: put_u8_def take_u8_def split: list.splits)

lemma take_u64_iff: "take_u64 bs = Ok (x, rest) \<longleftrightarrow> bs = put_u64 x @ rest"
proof -
  have "bs = to_le_bytes (from_le_bytes (take 8 bs)) @ drop 8 bs" if "\<not> length bs < 8"
    using that by (simp add: to_from_le_bytes)
  then show ?thesis by (auto simp: take_u64_def put_u64_def)
qed

interpretation u64_codec: counted_codec put_u64 take_u64 "\<lambda>_. True" 8
  by unfold_locales (auto simp: take_u64_iff put_u64_def)

text \<open>A length the writer can represent.\<close>

definition fits64 :: "'a list \<Rightarrow> bool" where
  "fits64 xs \<longleftrightarrow> length xs < 2 ^ 64"

lemma fits64_unat: "fits64 xs \<longleftrightarrow> unat (of_nat (length xs) :: u64) = length xs"
proof -
  have "unat (of_nat (length xs) :: u64) = length xs mod 2 ^ 64" by (simp add: unat_of_nat)
  then show ?thesis unfolding fits64_def using mod_less [of "length xs" "2 ^ 64"] mod_less_divisor [of "2 ^ 64" "length xs"]
    by fastforce
qed

lemma unat64_less: "unat (v :: u64) < 2 ^ 64"
  using unsigned_less [of v, where 'a = nat] by simp

lemma take_bytes_iff: "take_bytes bs = Ok (x, rest) \<longleftrightarrow> fits64 x \<and> bs = put_bytes x @ rest"
proof
  assume "take_bytes bs = Ok (x, rest)"
  then obtain raw mid where u: "bs = put_u64 raw @ mid" and l: "unat raw \<le> length mid"
    and x: "x = take (unat raw) mid" "rest = drop (unat raw) mid"
    by (auto simp: take_bytes_def Let_def not_less take_u64_iff split: sum.splits if_splits)
  have len: "length x = unat raw" using x l by simp
  then have "fits64 x" unfolding fits64_def using unat64_less [of raw] by simp
  moreover have "of_nat (length x) = raw" unfolding len by simp
  ultimately show "fits64 x \<and> bs = put_bytes x @ rest" using u x by (simp add: put_bytes_def)
next
  assume "fits64 x \<and> bs = put_bytes x @ rest"
  moreover from this have "take_u64 bs = Ok (of_nat (length x), x @ rest)" by (simp add: take_u64_iff put_bytes_def)
  ultimately show "take_bytes bs = Ok (x, rest)" by (simp add: take_bytes_def Let_def fits64_unat)
qed

interpretation bytes_codec: counted_codec put_bytes take_bytes fits64 8
  by unfold_locales (auto simp: take_bytes_iff put_bytes_def put_u64_def)

definition str_ok :: "byte list \<Rightarrow> bool" where
  "str_ok s \<longleftrightarrow> fits64 s \<and> valid_utf8 s"

interpretation str_codec: codec put_str take_str str_ok
  by unfold_locales (auto simp: take_str_def bytes_codec.get_bind put_str_def str_ok_def split: if_splits)

definition list_ok :: "('a \<Rightarrow> bool) \<Rightarrow> 'a list \<Rightarrow> bool" where
  "list_ok ok xs \<longleftrightarrow> fits64 xs \<and> list_all ok xs"

context counted_codec
begin

lemma take_list_iff: "take_list w get bs = Ok (xs, rest) \<longleftrightarrow> list_ok ok xs \<and> bs = put_list put xs @ rest"
proof
  assume "take_list w get bs = Ok (xs, rest)"
  then obtain n mid raw where t: "take_many get n mid = Ok (xs, rest)" and n: "n = unat raw" and u: "take_u64 bs = Ok (raw, mid)"
    by (auto simp: take_list_def read_bind_eq_Ok take_count_def Let_def split: sum.splits if_splits)
  then have "fits64 xs" "of_nat (length xs) = raw"
    using unat64_less [of raw] by (auto simp: get_many fits64_def)
  then show "list_ok ok xs \<and> bs = put_list put xs @ rest"
    using t u by (simp add: get_many list_ok_def put_list_def take_u64_iff)
next
  assume a: "list_ok ok xs \<and> bs = put_list put xs @ rest"
  define mid where "mid = concat (map put xs) @ rest"
  have u: "take_u64 bs = Ok (of_nat (length xs), mid)" using a by (simp add: put_list_def mid_def take_u64_iff)
  have "length xs * w \<le> length mid" using concat_length [of xs] a by (simp add: list_ok_def mid_def)
  then have "length xs \<le> length mid div max w 1" using w_pos by (simp add: less_eq_div_iff_mult_less_eq)
  then have "take_count w bs = Ok (length xs, mid)"
    using fits64_unat [THEN iffD1, of xs] a unfolding take_count_def u Let_def list_ok_def by simp
  moreover have "take_many get (length xs) mid = Ok (xs, rest)" using a by (simp add: get_many mid_def list_ok_def)
  ultimately show "take_list w get bs = Ok (xs, rest)" by (simp add: take_list_def)
qed

end

sublocale counted_codec \<subseteq> counted: codec "put_list put" "take_list w get" "list_ok ok"
  by unfold_locales (rule take_list_iff)

end
