(* ===== verification/Serve_Contract.thy ===== *)
theory Serve_Contract
  imports Byte_Codec
begin

text \<open>
  The data contracts of \<^verbatim>\<open>crates/hipfire-runtime/src/serve_contract.rs\<close>: the cache domain identity with
  its canonical serialization, miss reasons, resume plans and step reservations. Digests that come
  from the model file and the tokenizer are arguments; so is SHA-256.
\<close>

type_synonym digest = "byte list"

section \<open>Cache domains\<close>

record tokenizer_identity =
  vocab_digest :: digest
  config_digest :: digest

record template_identity =
  template_digest :: digest
  normalization_tag :: "byte list"

record arch_policy =
  arch_tag :: "byte list"
  state_abi_tag :: "byte list"
  position_attention_tag :: "byte list"

record kv_layout =
  k_stride_bytes :: "u64 list"
  v_stride_bytes :: "u64 list"
  layout_tag :: "byte list"

record device_topology =
  device_id :: "byte list"
  topology_id :: "byte list"
  allocation_epoch :: u64

record sharing_namespace =
  domain_id :: "byte list"

record cache_domain =
  model_content_digest :: digest
  model_load_epoch :: u64
  sidecar_digests :: "digest list"
  cd_tokenizer :: tokenizer_identity
  cd_template :: template_identity
  cd_arch_policy :: arch_policy
  cd_kv_layout :: kv_layout
  cd_device :: device_topology
  cd_namespace :: sharing_namespace

definition CACHE_DOMAIN_CANONICAL_VERSION :: byte where
  "CACHE_DOMAIN_CANONICAL_VERSION = 1"

definition to_canonical_bytes :: "cache_domain \<Rightarrow> byte list" where
  "to_canonical_bytes d =
     put_u8 CACHE_DOMAIN_CANONICAL_VERSION
     @ put_bytes (model_content_digest d)
     @ put_u64 (model_load_epoch d)
     @ put_list put_bytes (sidecar_digests d)
     @ put_bytes (vocab_digest (cd_tokenizer d))
     @ put_bytes (config_digest (cd_tokenizer d))
     @ put_bytes (template_digest (cd_template d))
     @ put_str (normalization_tag (cd_template d))
     @ put_str (arch_tag (cd_arch_policy d))
     @ put_str (state_abi_tag (cd_arch_policy d))
     @ put_str (position_attention_tag (cd_arch_policy d))
     @ put_list put_u64 (k_stride_bytes (cd_kv_layout d))
     @ put_list put_u64 (v_stride_bytes (cd_kv_layout d))
     @ put_str (layout_tag (cd_kv_layout d))
     @ put_str (device_id (cd_device d))
     @ put_str (topology_id (cd_device d))
     @ put_u64 (allocation_epoch (cd_device d))
     @ put_str (domain_id (cd_namespace d))"

definition take_domain :: "cache_domain reader" where
  "take_domain =
     read_bind take_u8 (\<lambda>version.
     if version \<noteq> CACHE_DOMAIN_CANONICAL_VERSION then (\<lambda>_. Err (Version version)) else
     read_bind take_bytes (\<lambda>content.
     read_bind take_u64 (\<lambda>epoch.
     read_bind (take_list 8 take_bytes) (\<lambda>sidecars.
     read_bind take_bytes (\<lambda>vocab.
     read_bind take_bytes (\<lambda>config.
     read_bind take_bytes (\<lambda>tmpl.
     read_bind take_str (\<lambda>norm.
     read_bind take_str (\<lambda>arch.
     read_bind take_str (\<lambda>abi.
     read_bind take_str (\<lambda>pos.
     read_bind (take_list 8 take_u64) (\<lambda>ks.
     read_bind (take_list 8 take_u64) (\<lambda>vs.
     read_bind take_str (\<lambda>layout.
     read_bind take_str (\<lambda>dev.
     read_bind take_str (\<lambda>topo.
     read_bind take_u64 (\<lambda>alloc.
     read_bind take_str (\<lambda>dom cur.
       Ok (\<lparr>model_content_digest = content, model_load_epoch = epoch, sidecar_digests = sidecars,
            cd_tokenizer = \<lparr>vocab_digest = vocab, config_digest = config\<rparr>,
            cd_template = \<lparr>template_digest = tmpl, normalization_tag = norm\<rparr>,
            cd_arch_policy = \<lparr>arch_tag = arch, state_abi_tag = abi, position_attention_tag = pos\<rparr>,
            cd_kv_layout = \<lparr>k_stride_bytes = ks, v_stride_bytes = vs, layout_tag = layout\<rparr>,
            cd_device = \<lparr>device_id = dev, topology_id = topo, allocation_epoch = alloc\<rparr>,
            cd_namespace = \<lparr>domain_id = dom\<rparr>\<rparr>, cur)))))))))))))))))))"

definition from_canonical_bytes :: "byte list \<Rightarrow> canonical_error + cache_domain" where
  "from_canonical_bytes bs =
     (case take_domain bs of
        Inl e \<Rightarrow> Err e
      | Inr (d, cur) \<Rightarrow> if cur \<noteq> [] then Err (Trailing (length cur)) else Ok d)"

text \<open>A string literal of the source, as its bytes.\<close>

definition str_bytes :: "string \<Rightarrow> byte list" where
  "str_bytes s = map (\<lambda>c. of_char c) s"

text \<open>Decimal digits, for \<^verbatim>\<open>format!("gpu-{device_id}")\<close>.\<close>

fun show_nat :: "nat \<Rightarrow> string" where
  "show_nat n = (if n < 10 then [char_of (48 + n)] else show_nat (n div 10) @ [char_of (48 + n mod 10)])"

definition show_int :: "int \<Rightarrow> string" where
  "show_int i = (if i < 0 then CHR ''-'' # show_nat (nat (- i)) else show_nat (nat i))"

definition sha256_len_prefixed :: "(byte list \<Rightarrow> digest) \<Rightarrow> byte list list \<Rightarrow> digest" where
  "sha256_len_prefixed sha256 parts = sha256 (concat (map (\<lambda>p. to_le_bytes (of_nat (length p)) @ p) parts))"

definition for_model ::
  "(byte list \<Rightarrow> digest) \<Rightarrow> digest \<Rightarrow> digest \<Rightarrow> digest \<Rightarrow> byte list option \<Rightarrow> byte list \<Rightarrow> int \<Rightarrow> cache_domain" where
  "for_model sha256 content vocab config chat_template arch dev =
     \<lparr>model_content_digest = content, model_load_epoch = 1, sidecar_digests = [],
      cd_tokenizer = \<lparr>vocab_digest = vocab, config_digest = config\<rparr>,
      cd_template = \<lparr>template_digest = sha256_len_prefixed sha256 [case chat_template of None \<Rightarrow> [] | Some t \<Rightarrow> t],
                     normalization_tag = str_bytes ''jinja''\<rparr>,
      cd_arch_policy = \<lparr>arch_tag = arch, state_abi_tag = [], position_attention_tag = []\<rparr>,
      cd_kv_layout = \<lparr>k_stride_bytes = [], v_stride_bytes = [], layout_tag = []\<rparr>,
      cd_device = \<lparr>device_id = str_bytes (''gpu-'' @ show_int dev), topology_id = str_bytes ''single'',
                   allocation_epoch = 1\<rparr>,
      cd_namespace = \<lparr>domain_id = str_bytes ''default''\<rparr>\<rparr>"

definition scoped :: "cache_domain \<Rightarrow> byte list \<Rightarrow> cache_domain" where
  "scoped d scope = d\<lparr>cd_arch_policy := (cd_arch_policy d)\<lparr>state_abi_tag := scope\<rparr>\<rparr>"

section \<open>Lookups and resume plans\<close>

datatype miss_reason = NoMatch | NoCheckpoint | IdentityMismatch | Evicted | IncompatiblePolicy | UnknownAdapter

record prefix_lookup =
  matched_tokens :: nat
  resident_kv_tokens :: nat
  resumable_tokens :: nat

datatype prefix_lookup_result = Hit prefix_lookup | Miss miss_reason

datatype drafter_decision = Checkpoint | Reseed | Ar

record resume_bundle =
  attention_pages :: bool
  dn_matrices_scales :: bool
  conv_rings :: bool
  ef_residual :: bool
  rb_drafter :: drafter_decision

datatype last_token_handling = SuffixRecompute | EarlierBoundary

datatype resume_plan_error = MissingComponent string

record resume_plan =
  boundary :: nat
  rp_bundle :: resume_bundle
  byte_cost :: nat
  last_token :: last_token_handling

definition resume_plan_new ::
  "nat \<Rightarrow> resume_bundle \<Rightarrow> nat \<Rightarrow> last_token_handling \<Rightarrow> resume_plan_error + resume_plan" where
  "resume_plan_new p b cost lt =
     (if \<not> attention_pages b then Err (MissingComponent ''attention_pages'')
      else if \<not> dn_matrices_scales b then Err (MissingComponent ''dn_matrices_scales'')
      else if \<not> conv_rings b then Err (MissingComponent ''conv_rings'')
      else if \<not> ef_residual b then Err (MissingComponent ''ef_residual'')
      else Ok \<lparr>boundary = p, rp_bundle = b, byte_cost = cost, last_token = lt\<rparr>)"

section \<open>Step reservations\<close>

record step_needs =
  scratch_bytes :: nat
  snapshot_bytes :: nat
  output_bytes :: nat

datatype reservation_error = ReservationOverflow

record step_reservation =
  prefill_rows :: nat
  decode_rows :: nat
  sr_verify_rows :: nat
  sr_forced_rows :: nat
  page_growth_credits :: nat
  cow_destinations :: nat
  sr_needs :: step_needs

definition reservation_total_rows :: "step_reservation \<Rightarrow> reservation_error + nat" where
  "reservation_total_rows r =
     (case checked_add64 (prefill_rows r) (decode_rows r) of
        None \<Rightarrow> Err ReservationOverflow
      | Some a \<Rightarrow>
          (case checked_add64 a (sr_verify_rows r) of
             None \<Rightarrow> Err ReservationOverflow
           | Some b \<Rightarrow>
               (case checked_add64 b (sr_forced_rows r) of
                  None \<Rightarrow> Err ReservationOverflow
                | Some c \<Rightarrow> Ok c)))"

definition reservation_fits :: "step_reservation \<Rightarrow> nat \<Rightarrow> reservation_error + bool" where
  "reservation_fits r max_batch_tokens = map_sum id (\<lambda>t. t \<le> max_batch_tokens) (reservation_total_rows r)"

text \<open>\<^verbatim>\<open>CheckpointId\<close>, with 0 for no checkpoint.\<close>

type_synonym checkpoint_id = nat

definition CHECKPOINT_NONE :: checkpoint_id where
  "CHECKPOINT_NONE = 0"

definition checkpoint_is_none :: "checkpoint_id \<Rightarrow> bool" where
  "checkpoint_is_none c \<longleftrightarrow> c = 0"

definition checkpoint_is_some :: "checkpoint_id \<Rightarrow> bool" where
  "checkpoint_is_some c \<longleftrightarrow> c \<noteq> 0"

section \<open>The serialization is canonical\<close>

text \<open>Every field has a length the writer can represent, and every string field is UTF-8.\<close>

definition domain_ok :: "cache_domain \<Rightarrow> bool" where
  "domain_ok d \<longleftrightarrow>
     fits64 (model_content_digest d) \<and> list_ok fits64 (sidecar_digests d)
     \<and> fits64 (vocab_digest (cd_tokenizer d)) \<and> fits64 (config_digest (cd_tokenizer d))
     \<and> fits64 (template_digest (cd_template d)) \<and> str_ok (normalization_tag (cd_template d))
     \<and> str_ok (arch_tag (cd_arch_policy d)) \<and> str_ok (state_abi_tag (cd_arch_policy d))
     \<and> str_ok (position_attention_tag (cd_arch_policy d))
     \<and> list_ok (\<lambda>_. True) (k_stride_bytes (cd_kv_layout d)) \<and> list_ok (\<lambda>_. True) (v_stride_bytes (cd_kv_layout d))
     \<and> str_ok (layout_tag (cd_kv_layout d)) \<and> str_ok (device_id (cd_device d)) \<and> str_ok (topology_id (cd_device d))
     \<and> str_ok (domain_id (cd_namespace d))"

lemmas codec_reads = u8_codec.get_bind u64_codec.get_bind bytes_codec.get_bind str_codec.get_bind
  bytes_codec.counted.get_bind u64_codec.counted.get_bind

lemmas codec_writes = u8_codec.bind_put u64_codec.bind_put bytes_codec.bind_put str_codec.bind_put
  bytes_codec.counted.bind_put u64_codec.counted.bind_put

lemma take_domain_put:
  assumes "domain_ok d"
  shows "take_domain (to_canonical_bytes d @ rest) = Ok (d, rest)"
  using assms by (simp add: take_domain_def to_canonical_bytes_def domain_ok_def codec_writes)

lemma take_domain_get:
  assumes "take_domain bs = Ok (d, rest)"
  shows "domain_ok d \<and> bs = to_canonical_bytes d @ rest"
  using assms
  by (auto simp: take_domain_def to_canonical_bytes_def domain_ok_def codec_reads split: if_splits)

interpretation domain_codec: codec to_canonical_bytes take_domain domain_ok
  by unfold_locales (metis take_domain_put take_domain_get)

text \<open>
  C13: The canonical bytes of a cache domain are a bijection: the reader accepts a byte stream exactly when
  it is the encoding of a well-formed domain, and returns that domain. So encoding and decoding
  round-trip, equal bytes mean equal domains, and truncated, padded or altered streams are refused.
\<close>

theorem canonical_bytes_bijective:
  "from_canonical_bytes bs = Ok d \<longleftrightarrow> domain_ok d \<and> bs = to_canonical_bytes d"
  using domain_codec.get_iff [of bs d "[]"] unfolding from_canonical_bytes_def
  by (auto split: sum.splits)

end
