(* ===== verification/Checkpoint_Pool.thy ===== *)
theory Checkpoint_Pool
  imports Serve_Contract Kv_Slots
begin

text \<open>
  The pool of recurrent-state checkpoints, \<^verbatim>\<open>crates/hipfire-runtime/src/checkpoint_pool.rs\<close>: capture with
  eviction of the oldest unpinned entry, pins, explicit eviction, draining, and the resume planner
  that picks the boundary a prompt restarts from. The pool is generic over the blob type; its byte
  count \<^verbatim>\<open>CheckpointBlob::bytes_len\<close> and SHA-256 are arguments. The hash map is an association list
  with distinct keys. Byte sums that the source does not check are reduced modulo \<open>2 ^ 64\<close>.
\<close>

type_synonym checkpoint_key = "cache_domain \<times> nat \<times> u64"

record 'b checkpoint_entry =
  ce_id :: checkpoint_id
  ce_blob :: 'b
  ce_pins :: nat
  ce_stamp :: nat

record 'b checkpoint_pool =
  cp_entries :: "(checkpoint_key \<times> 'b checkpoint_entry) list"
  cp_evicted :: "checkpoint_key set"
  cp_total_bytes :: nat
  cp_max_bytes :: nat
  cp_next_id :: nat
  cp_lru_clock :: nat

text \<open>\<^verbatim>\<open>u32::to_le_bytes\<close> and the fingerprint of a token prefix.\<close>

definition u32_le_bytes :: "32 word \<Rightarrow> byte list" where
  "u32_le_bytes v = map (\<lambda>i. ucast (drop_bit (8 * i) v)) [0 ..< 4]"

definition prefix_fingerprint :: "(byte list \<Rightarrow> digest) \<Rightarrow> 32 word list \<Rightarrow> u64" where
  "prefix_fingerprint sha256 tokens = from_le_bytes (take 8 (sha256 (concat (map u32_le_bytes tokens))))"

definition cp_new :: "nat \<Rightarrow> 'b checkpoint_pool" where
  "cp_new max_bytes =
     \<lparr>cp_entries = [], cp_evicted = {}, cp_total_bytes = 0, cp_max_bytes = max_bytes, cp_next_id = 1, cp_lru_clock = 0\<rparr>"

definition can_afford :: "('b \<Rightarrow> nat) \<Rightarrow> 'b checkpoint_pool \<Rightarrow> checkpoint_key \<Rightarrow> nat \<Rightarrow> bool" where
  "can_afford bytes_len p key bytes =
     (let replaced = (case map_of (cp_entries p) key of None \<Rightarrow> 0 | Some e \<Rightarrow> bytes_len (ce_blob e));
          unpinned_bytes = wrap64 (sum_list (map (\<lambda>(_, e). bytes_len (ce_blob e))
                              (filter (\<lambda>(k, e). ce_pins e = 0 \<and> k \<noteq> key) (cp_entries p))));
          floor = saturating_sub (cp_total_bytes p) (wrap64 (replaced + unpinned_bytes))
      in saturating_add64 floor bytes \<le> cp_max_bytes p)"

definition is_aligned :: "nat \<Rightarrow> bool" where
  "is_aligned p \<longleftrightarrow> p = 0 \<or> p mod PAGE_TOKENS = 0"

definition find_oldest_unpinned_key :: "'b checkpoint_pool \<Rightarrow> checkpoint_key option" where
  "find_oldest_unpinned_key p =
     map_option fst (min_by_key (\<lambda>(_, e). ce_stamp e) (filter (\<lambda>(_, e). ce_pins e = 0) (cp_entries p)))"

definition evict_internal ::
  "('b \<Rightarrow> nat) \<Rightarrow> 'b checkpoint_pool \<Rightarrow> checkpoint_key \<Rightarrow> 'b checkpoint_pool \<times> 'b option" where
  "evict_internal bytes_len p key =
     (case map_of (cp_entries p) key of
        None \<Rightarrow> (p, None)
      | Some e \<Rightarrow>
          (p\<lparr>cp_entries := AList.delete key (cp_entries p),
             cp_total_bytes := saturating_sub (cp_total_bytes p) (bytes_len (ce_blob e)),
             cp_evicted := insert key (cp_evicted p)\<rparr>, Some (ce_blob e)))"

lemma find_oldest_entry:
  assumes "find_oldest_unpinned_key p = Some k"
  shows "\<exists>e. (k, e) \<in> set (cp_entries p) \<and> ce_pins e = 0
    \<and> (\<forall>k' e'. (k', e') \<in> set (cp_entries p) \<longrightarrow> ce_pins e' = 0 \<longrightarrow> ce_stamp e \<le> ce_stamp e')"
proof -
  obtain e where "min_by_key (\<lambda>(_, e). ce_stamp e) (filter (\<lambda>(_, e). ce_pins e = 0) (cp_entries p)) = Some (k, e)"
    using assms by (auto simp: find_oldest_unpinned_key_def)
  from min_by_key_Some [OF this] show ?thesis by (intro exI [of _ e]) fastforce
qed

lemma evict_internal_shorter:
  assumes "find_oldest_unpinned_key p = Some k" "evict_internal bytes_len p k = (p', b)"
  shows "length (cp_entries p') < length (cp_entries p)"
proof -
  obtain e where "(k, e) \<in> set (cp_entries p)" using find_oldest_entry [OF assms(1)] by blast
  then have "map_of (cp_entries p) k \<noteq> None" by (auto simp: map_of_eq_None_iff intro: rev_image_eqI)
  then show ?thesis using assms(2) delete_shorter [of "cp_entries p" k]
    by (auto simp: evict_internal_def split: option.splits)
qed

text \<open>The loop that makes room; the flag says whether the new blob fits.\<close>

function evict_until ::
  "('b \<Rightarrow> nat) \<Rightarrow> nat \<Rightarrow> 'b checkpoint_pool \<Rightarrow> 'b list \<Rightarrow> 'b checkpoint_pool \<times> 'b list \<times> bool" where
  "evict_until bytes_len bytes p displaced =
     (if wrap64 (cp_total_bytes p + bytes) > cp_max_bytes p then
        (case find_oldest_unpinned_key p of
           None \<Rightarrow> (p, displaced, False)
         | Some k \<Rightarrow>
             let (p', b) = evict_internal bytes_len p k
             in evict_until bytes_len bytes p' (case b of None \<Rightarrow> displaced | Some blob \<Rightarrow> displaced @ [blob]))
      else (p, displaced, True))"
  by pat_completeness auto
termination
  by (relation "measure (\<lambda>(_, _, p, _). length (cp_entries p))") (auto intro: evict_internal_shorter [OF _ sym])

declare evict_until.simps [simp del]

definition insert_unaligned ::
  "('b \<Rightarrow> nat) \<Rightarrow> 'b checkpoint_pool \<Rightarrow> cache_domain \<Rightarrow> nat \<Rightarrow> u64 \<Rightarrow> 'b \<Rightarrow> 'b checkpoint_pool \<times> checkpoint_id \<times> 'b list" where
  "insert_unaligned bytes_len p domain pos fp blob =
     (let bytes = bytes_len blob;
          key = (domain, pos, fp);
          (p1, reuse_id, displaced) =
            (case map_of (cp_entries p) key of
               None \<Rightarrow> (p, None, [])
             | Some old \<Rightarrow>
                 (p\<lparr>cp_entries := AList.delete key (cp_entries p),
                    cp_total_bytes := saturating_sub (cp_total_bytes p) (bytes_len (ce_blob old))\<rparr>,
                  Some (ce_id old), [ce_blob old]));
          p2 = p1\<lparr>cp_evicted := cp_evicted p1 - {key}\<rparr>;
          (p3, displaced, fits) = evict_until bytes_len bytes p2 displaced
      in if \<not> fits then (p3, CHECKPOINT_NONE, displaced @ [blob])
         else
           let i = (case reuse_id of Some i \<Rightarrow> i | None \<Rightarrow> cp_next_id p3);
               next = (case reuse_id of Some i \<Rightarrow> cp_next_id p3 | None \<Rightarrow> cp_next_id p3 + 1);
               clock = cp_lru_clock p3 + 1
           in (p3\<lparr>cp_next_id := next, cp_lru_clock := clock, cp_total_bytes := wrap64 (cp_total_bytes p3 + bytes),
                  cp_entries := AList.update key \<lparr>ce_id = i, ce_blob = blob, ce_pins = 0, ce_stamp = clock\<rparr> (cp_entries p3)\<rparr>,
               i, displaced))"

definition cp_insert ::
  "('b \<Rightarrow> nat) \<Rightarrow> 'b checkpoint_pool \<Rightarrow> cache_domain \<Rightarrow> nat \<Rightarrow> u64 \<Rightarrow> 'b \<Rightarrow> 'b checkpoint_pool \<times> checkpoint_id \<times> 'b list" where
  "cp_insert bytes_len p domain pos fp blob =
     (if \<not> is_aligned pos then (p, CHECKPOINT_NONE, [blob]) else insert_unaligned bytes_len p domain pos fp blob)"

definition pop_lru :: "('b \<Rightarrow> nat) \<Rightarrow> 'b checkpoint_pool \<Rightarrow> 'b checkpoint_pool \<times> (checkpoint_key \<times> 'b) option" where
  "pop_lru bytes_len p =
     (case find_oldest_unpinned_key p of
        None \<Rightarrow> (p, None)
      | Some k \<Rightarrow> (case evict_internal bytes_len p k of (p', b) \<Rightarrow> (p', map_option (Pair k) b)))"

definition cp_evict ::
  "('b \<Rightarrow> nat) \<Rightarrow> 'b checkpoint_pool \<Rightarrow> cache_domain \<Rightarrow> nat \<Rightarrow> u64 \<Rightarrow> 'b checkpoint_pool \<times> 'b option" where
  "cp_evict bytes_len p domain pos fp = evict_internal bytes_len p (domain, pos, fp)"

definition cp_contains :: "'b checkpoint_pool \<Rightarrow> cache_domain \<Rightarrow> nat \<Rightarrow> u64 \<Rightarrow> bool" where
  "cp_contains p domain pos fp \<longleftrightarrow> map_of (cp_entries p) (domain, pos, fp) \<noteq> None"

definition id_of :: "'b checkpoint_pool \<Rightarrow> cache_domain \<Rightarrow> nat \<Rightarrow> u64 \<Rightarrow> checkpoint_id option" where
  "id_of p domain pos fp = map_option ce_id (map_of (cp_entries p) (domain, pos, fp))"

definition cp_get :: "'b checkpoint_pool \<Rightarrow> cache_domain \<Rightarrow> nat \<Rightarrow> u64 \<Rightarrow> 'b checkpoint_pool \<times> 'b option" where
  "cp_get p domain pos fp =
     (case map_of (cp_entries p) (domain, pos, fp) of
        None \<Rightarrow> (p, None)
      | Some e \<Rightarrow>
          (p\<lparr>cp_lru_clock := cp_lru_clock p + 1,
             cp_entries := AList.update (domain, pos, fp) (e\<lparr>ce_stamp := cp_lru_clock p + 1\<rparr>) (cp_entries p)\<rparr>,
           Some (ce_blob e)))"

definition peek :: "'b checkpoint_pool \<Rightarrow> cache_domain \<Rightarrow> nat \<Rightarrow> u64 \<Rightarrow> 'b option" where
  "peek p domain pos fp = map_option ce_blob (map_of (cp_entries p) (domain, pos, fp))"

definition set_pins :: "nat \<Rightarrow> 'b checkpoint_pool \<Rightarrow> cache_domain \<Rightarrow> nat \<Rightarrow> u64 \<Rightarrow> 'b checkpoint_pool \<times> bool" where
  "set_pins n p domain pos fp =
     (case map_of (cp_entries p) (domain, pos, fp) of
        None \<Rightarrow> (p, False)
      | Some e \<Rightarrow> (p\<lparr>cp_entries := AList.update (domain, pos, fp) (e\<lparr>ce_pins := n\<rparr>) (cp_entries p)\<rparr>, True))"

definition cp_pin :: "'b checkpoint_pool \<Rightarrow> cache_domain \<Rightarrow> nat \<Rightarrow> u64 \<Rightarrow> 'b checkpoint_pool \<times> bool" where
  "cp_pin = set_pins 1"

definition cp_unpin :: "'b checkpoint_pool \<Rightarrow> cache_domain \<Rightarrow> nat \<Rightarrow> u64 \<Rightarrow> 'b checkpoint_pool \<times> bool" where
  "cp_unpin = set_pins 0"

definition is_pinned :: "'b checkpoint_pool \<Rightarrow> cache_domain \<Rightarrow> nat \<Rightarrow> u64 \<Rightarrow> bool" where
  "is_pinned p domain pos fp =
     (case map_of (cp_entries p) (domain, pos, fp) of None \<Rightarrow> False | Some e \<Rightarrow> ce_pins e > 0)"

definition drain_blobs :: "'b checkpoint_pool \<Rightarrow> 'b checkpoint_pool \<times> 'b list" where
  "drain_blobs p = (p\<lparr>cp_total_bytes := 0, cp_entries := []\<rparr>, map (ce_blob \<circ> snd) (cp_entries p))"

definition was_evicted :: "'b checkpoint_pool \<Rightarrow> cache_domain \<Rightarrow> nat \<Rightarrow> bool" where
  "was_evicted p domain max_p \<longleftrightarrow> (\<exists>(d, pos, fp) \<in> cp_evicted p. d = domain \<and> pos \<le> max_p \<and> pos > 0)"

section \<open>Resume planning\<close>

definition complete_bundle :: "drafter_decision \<Rightarrow> resume_bundle" where
  "complete_bundle drafter =
     \<lparr>attention_pages = True, dn_matrices_scales = True, conv_rings = True, ef_residual = True, rb_drafter = drafter\<rparr>"

text \<open>
  The descending search of both finders. The callers start it at a multiple of the page size, so the
  subtraction never passes below zero.
\<close>

function search_down ::
  "(byte list \<Rightarrow> digest) \<Rightarrow> 'b checkpoint_pool \<Rightarrow> cache_domain \<Rightarrow> 32 word list \<Rightarrow> nat \<Rightarrow> nat option" where
  "search_down sha256 pool domain tokens p =
     (if p > 0 then
        if p \<le> length tokens \<and> cp_contains pool domain p (prefix_fingerprint sha256 (take p tokens)) then Some p
        else search_down sha256 pool domain tokens (p - PAGE_TOKENS)
      else None)"
  by pat_completeness auto
termination
  by (relation "measure (\<lambda>(_, _, _, _, p). p)") (auto simp: PAGE_TOKENS_def)

declare search_down.simps [simp del]

definition find_largest_pool_checkpoint ::
  "(byte list \<Rightarrow> digest) \<Rightarrow> 'b checkpoint_pool \<Rightarrow> cache_domain \<Rightarrow> 32 word list \<Rightarrow> nat \<Rightarrow> nat option" where
  "find_largest_pool_checkpoint sha256 pool domain tokens max_p =
     search_down sha256 pool domain tokens ((max_p div PAGE_TOKENS) * PAGE_TOKENS)"

definition find_largest_pool_checkpoint_below ::
  "(byte list \<Rightarrow> digest) \<Rightarrow> 'b checkpoint_pool \<Rightarrow> cache_domain \<Rightarrow> 32 word list \<Rightarrow> nat \<Rightarrow> nat option" where
  "find_largest_pool_checkpoint_below sha256 pool domain tokens below_p =
     (if below_p \<le> PAGE_TOKENS then None else search_down sha256 pool domain tokens (below_p - PAGE_TOKENS))"

definition blob_cost ::
  "(byte list \<Rightarrow> digest) \<Rightarrow> ('b \<Rightarrow> nat) \<Rightarrow> 'b checkpoint_pool \<Rightarrow> cache_domain \<Rightarrow> 32 word list \<Rightarrow> nat \<Rightarrow> nat" where
  "blob_cost sha256 bytes_len pool domain tokens p =
     (case peek pool domain p (prefix_fingerprint sha256 (take p tokens)) of None \<Rightarrow> 0 | Some b \<Rightarrow> bytes_len b)"

definition plan_or_miss :: "resume_plan_error + resume_plan \<Rightarrow> miss_reason + resume_plan" where
  "plan_or_miss r = (case r of Inl (MissingComponent _) \<Rightarrow> Err NoCheckpoint | Inr plan \<Rightarrow> Ok plan)"

definition plan_resume_inner ::
  "(byte list \<Rightarrow> digest) \<Rightarrow> ('b \<Rightarrow> nat) \<Rightarrow> 'b checkpoint_pool \<Rightarrow> cache_domain \<Rightarrow> 32 word list \<Rightarrow> prefix_lookup
    \<Rightarrow> drafter_decision \<Rightarrow> miss_reason + resume_plan" where
  "plan_resume_inner sha256 bytes_len pool domain prompt_tokens lookup drafter =
     (let prompt_len = length prompt_tokens;
          resumable = resumable_tokens lookup
      in case find_largest_pool_checkpoint sha256 pool domain prompt_tokens resumable of
           Some p \<Rightarrow>
             if prompt_len = p \<and> prompt_len > 0 then
               let ep = (case find_largest_pool_checkpoint_below sha256 pool domain prompt_tokens p of None \<Rightarrow> 0 | Some e \<Rightarrow> e);
                   cost = (if ep = 0 then 0 else blob_cost sha256 bytes_len pool domain prompt_tokens ep)
               in plan_or_miss (resume_plan_new ep (complete_bundle drafter) cost EarlierBoundary)
             else
               plan_or_miss (resume_plan_new p (complete_bundle drafter)
                 (blob_cost sha256 bytes_len pool domain prompt_tokens p) SuffixRecompute)
         | None \<Rightarrow>
             if resumable = 0 \<and> prompt_len = 0 then
               plan_or_miss (resume_plan_new 0 (complete_bundle drafter) 0 SuffixRecompute)
             else if was_evicted pool domain resumable then Err Evicted
             else Err NoCheckpoint)"

definition plan_resume ::
  "(byte list \<Rightarrow> digest) \<Rightarrow> ('b \<Rightarrow> nat) \<Rightarrow> 'b checkpoint_pool \<Rightarrow> cache_domain \<Rightarrow> 32 word list \<Rightarrow> prefix_lookup
    \<Rightarrow> drafter_decision \<Rightarrow> 'b checkpoint_pool \<times> (miss_reason + resume_plan)" where
  "plan_resume sha256 bytes_len pool domain prompt_tokens lookup drafter =
     (case plan_resume_inner sha256 bytes_len pool domain prompt_tokens lookup drafter of
        Inl m \<Rightarrow> (pool, Err m)
      | Inr plan \<Rightarrow>
          (if boundary plan > 0 \<and> boundary plan \<le> length prompt_tokens
           then fst (cp_pin pool domain (boundary plan) (prefix_fingerprint sha256 (take (boundary plan) prompt_tokens)))
           else pool, Ok plan))"

end
