(* ===== verification/Checkpoint_Props.thy ===== *)
theory Checkpoint_Props
  imports Checkpoint_Pool
begin

text \<open>
  The checkpoint pool keeps exact byte accounts under its ceiling, never loses a blob, evicts oldest
  first and never a pinned entry; \<^verbatim>\<open>can_afford\<close> predicts a capture exactly; and the resume planner
  returns the deepest boundary whose state belongs to this very prompt, pinned against later captures.
\<close>

section \<open>The invariant\<close>

definition pool_blobs :: "'b checkpoint_pool \<Rightarrow> 'b multiset" where
  "pool_blobs p = mset (map (ce_blob \<circ> snd) (cp_entries p))"

definition entry_bytes :: "('b \<Rightarrow> nat) \<Rightarrow> (checkpoint_key \<times> 'b checkpoint_entry) list \<Rightarrow> nat" where
  "entry_bytes bytes_len es = sum_list (map (bytes_len \<circ> ce_blob \<circ> snd) es)"

definition cp_inv :: "('b \<Rightarrow> nat) \<Rightarrow> 'b checkpoint_pool \<Rightarrow> bool" where
  "cp_inv bytes_len p \<longleftrightarrow>
     distinct (map fst (cp_entries p))
     \<and> cp_total_bytes p = entry_bytes bytes_len (cp_entries p)
     \<and> cp_total_bytes p \<le> cp_max_bytes p \<and> cp_max_bytes p \<le> u64_max \<and> 0 < cp_next_id p
     \<and> distinct (map (ce_id \<circ> snd) (cp_entries p)) \<and> distinct (map (ce_stamp \<circ> snd) (cp_entries p))
     \<and> (\<forall>e \<in> snd ` set (cp_entries p). 0 < ce_id e \<and> ce_id e < cp_next_id p \<and> ce_stamp e \<le> cp_lru_clock p)"

lemma cp_inv_keys: "cp_inv bytes_len p \<Longrightarrow> distinct (map fst (cp_entries p))"
  by (simp add: cp_inv_def)

lemma cp_inv_entry:
  "cp_inv bytes_len p \<Longrightarrow> (k, e) \<in> set (cp_entries p) \<longleftrightarrow> map_of (cp_entries p) k = Some e"
  by (metis cp_inv_keys map_of_eq_Some_iff)

lemma cp_inv_bounds:
  assumes "cp_inv bytes_len p" "map_of (cp_entries p) k = Some e"
  shows "0 < ce_id e \<and> ce_id e < cp_next_id p \<and> ce_stamp e \<le> cp_lru_clock p"
proof -
  have "e \<in> snd ` set (cp_entries p)" using map_of_SomeD [OF assms(2)] by (rule rev_image_eqI) simp
  with assms(1) show ?thesis unfolding cp_inv_def by blast
qed

lemma entry_bytes_mset: "entry_bytes bytes_len es = sum_mset (image_mset (bytes_len \<circ> ce_blob \<circ> snd) (mset es))"
  unfolding entry_bytes_def by (simp flip: mset_map sum_mset_sum_list)

lemma entry_bytes_delete:
  assumes "distinct (map fst es)" "map_of es k = Some e"
  shows "entry_bytes bytes_len es = bytes_len (ce_blob e) + entry_bytes bytes_len (AList.delete k es)"
  unfolding entry_bytes_mset mset_delete [OF assms] by simp

lemma cp_inv_remove:
  assumes "cp_inv bytes_len p" "map_of (cp_entries p) k = Some e"
  shows "cp_inv bytes_len (p\<lparr>cp_entries := AList.delete k (cp_entries p),
    cp_total_bytes := cp_total_bytes p - bytes_len (ce_blob e), cp_evicted := ev\<rparr>)"
  using assms entry_bytes_delete [OF cp_inv_keys [OF assms(1)] assms(2), of bytes_len]
  by (auto simp: cp_inv_def AList.delete_eq distinct_map_filter split: prod.splits)

lemma cp_inv_ignores_evicted: "cp_inv bytes_len (p\<lparr>cp_evicted := ev\<rparr>) = cp_inv bytes_len p"
  by (simp add: cp_inv_def)

lemma blobs_remove:
  assumes "cp_inv bytes_len p" "map_of (cp_entries p) k = Some e"
  shows "pool_blobs p = add_mset (ce_blob e) (mset (map (ce_blob \<circ> snd) (AList.delete k (cp_entries p))))"
  unfolding pool_blobs_def mset_map mset_delete [OF cp_inv_keys [OF assms(1)] assms(2)] by simp

section \<open>Making room\<close>

text \<open>
  What evicting until a blob fits does: some unpinned entries leave, oldest first, their blobs are handed
  out, everything else stays; it stops as soon as the blob fits or nothing unpinned is left.
\<close>

definition evicted_to :: "'b checkpoint_pool \<Rightarrow> 'b checkpoint_pool \<Rightarrow> bool" where
  "evicted_to p p' \<longleftrightarrow>
     (\<exists>vs. cp_entries p' = filter (\<lambda>(k, _). k \<notin> vs) (cp_entries p)
        \<and> (\<forall>k e. (k, e) \<in> set (cp_entries p) \<longrightarrow> k \<in> vs \<longrightarrow> ce_pins e = 0)
        \<and> (\<forall>k e k' e'. (k, e) \<in> set (cp_entries p) \<longrightarrow> (k', e') \<in> set (cp_entries p) \<longrightarrow>
             k \<in> vs \<longrightarrow> k' \<notin> vs \<longrightarrow> ce_pins e' = 0 \<longrightarrow> ce_stamp e \<le> ce_stamp e'))
     \<and> cp_max_bytes p' = cp_max_bytes p \<and> cp_next_id p' = cp_next_id p \<and> cp_lru_clock p' = cp_lru_clock p"

definition all_pinned :: "'b checkpoint_pool \<Rightarrow> bool" where
  "all_pinned p \<longleftrightarrow> (\<forall>k e. (k, e) \<in> set (cp_entries p) \<longrightarrow> ce_pins e \<noteq> 0)"

lemma evicted_to_refl: "evicted_to p p"
  unfolding evicted_to_def by (intro conjI exI [of _ "{}"]) (auto simp: filter_id_conv)

lemma evict_internal_step:
  assumes inv: "cp_inv bytes_len p" and f: "find_oldest_unpinned_key p = Some k"
    and ev: "evict_internal bytes_len p k = (p1, b)"
  obtains e where "map_of (cp_entries p) k = Some e" "b = Some (ce_blob e)" "ce_pins e = 0" "cp_inv bytes_len p1"
    "cp_entries p1 = AList.delete k (cp_entries p)" "cp_evicted p1 = insert k (cp_evicted p)"
    "cp_max_bytes p1 = cp_max_bytes p" "cp_next_id p1 = cp_next_id p" "cp_lru_clock p1 = cp_lru_clock p"
    "\<And>k' e'. (k', e') \<in> set (cp_entries p) \<Longrightarrow> ce_pins e' = 0 \<Longrightarrow> ce_stamp e \<le> ce_stamp e'"
proof -
  obtain e where e: "(k, e) \<in> set (cp_entries p)" "ce_pins e = 0"
    and old: "\<And>k' e'. (k', e') \<in> set (cp_entries p) \<Longrightarrow> ce_pins e' = 0 \<Longrightarrow> ce_stamp e \<le> ce_stamp e'"
    using find_oldest_entry [OF f] by blast
  have m: "map_of (cp_entries p) k = Some e" using e(1) cp_inv_entry [OF inv] by simp
  show thesis
    using that [OF m _ e(2) _ _ _ _ _ _ old] ev cp_inv_remove [OF inv m] by (auto simp: evict_internal_def m)
qed

lemma evicted_to_step:
  assumes "map_of (cp_entries p) k = Some e" "distinct (map fst (cp_entries p))" "ce_pins e = 0"
    "\<And>k' e'. (k', e') \<in> set (cp_entries p) \<Longrightarrow> ce_pins e' = 0 \<Longrightarrow> ce_stamp e \<le> ce_stamp e'"
    "cp_entries p1 = AList.delete k (cp_entries p)"
    "cp_max_bytes p1 = cp_max_bytes p" "cp_next_id p1 = cp_next_id p" "cp_lru_clock p1 = cp_lru_clock p"
    and t: "evicted_to p1 p'"
  shows "evicted_to p p'"
proof -
  obtain vs where vs: "cp_entries p' = filter (\<lambda>(k, _). k \<notin> vs) (cp_entries p1)"
    "\<And>k e. (k, e) \<in> set (cp_entries p1) \<Longrightarrow> k \<in> vs \<Longrightarrow> ce_pins e = 0"
    "\<And>k e k' e'. (k, e) \<in> set (cp_entries p1) \<Longrightarrow> (k', e') \<in> set (cp_entries p1) \<Longrightarrow>
       k \<in> vs \<Longrightarrow> k' \<notin> vs \<Longrightarrow> ce_pins e' = 0 \<Longrightarrow> ce_stamp e \<le> ce_stamp e'"
    and fr: "cp_max_bytes p' = cp_max_bytes p1" "cp_next_id p' = cp_next_id p1" "cp_lru_clock p' = cp_lru_clock p1"
    using t unfolding evicted_to_def by blast
  have s: "(k', e') \<in> set (cp_entries p1) \<longleftrightarrow> (k', e') \<in> set (cp_entries p) \<and> k' \<noteq> k" for k' e'
    unfolding assms(5) set_delete [OF assms(2)] by simp
  have ek: "e' = e" if "(k, e') \<in> set (cp_entries p)" for e' using that assms(1,2) by (metis map_of_eq_Some_iff option.inject)
  have f: "cp_entries p' = filter (\<lambda>(k', _). k' \<notin> insert k vs) (cp_entries p)"
    unfolding vs(1) assms(5) AList.delete_eq filter_filter by (rule filter_cong) auto
  have u: "ce_pins e' = 0" if "(k', e') \<in> set (cp_entries p)" "k' \<in> insert k vs" for k' e'
    using that vs(2) [of k' e'] s ek assms(3) by (cases "k' = k") auto
  have o: "ce_stamp e1 \<le> ce_stamp e2" if "(k1, e1) \<in> set (cp_entries p)" "(k2, e2) \<in> set (cp_entries p)"
      "k1 \<in> insert k vs" "k2 \<notin> insert k vs" "ce_pins e2 = 0" for k1 e1 k2 e2
    using that vs(3) [of k1 e1 k2 e2] s ek assms(4) [of k2 e2] by (cases "k1 = k") auto
  show ?thesis unfolding evicted_to_def fr assms(6-8) using f u o by blast
qed

lemma evict_until_spec:
  assumes "evict_until bytes_len bytes p ds = (p', ds', fits)" "cp_inv bytes_len p" "cp_max_bytes p + bytes \<le> u64_max"
  shows "cp_inv bytes_len p' \<and> evicted_to p p' \<and> pool_blobs p' + mset ds' = pool_blobs p + mset ds
    \<and> (fits \<longleftrightarrow> cp_total_bytes p' + bytes \<le> cp_max_bytes p') \<and> (fits \<or> all_pinned p')"
  using assms
proof (induction bytes_len bytes p ds rule: evict_until.induct)
  case (1 bytes_len bytes p ds)
  have w: "wrap64 (cp_total_bytes p + bytes) = cp_total_bytes p + bytes" using "1.prems" by (simp add: cp_inv_def)
  show ?case
  proof (cases "cp_max_bytes p < cp_total_bytes p + bytes")
    case False
    then show ?thesis using "1.prems" by (simp add: evict_until.simps [of bytes_len bytes p] w evicted_to_refl)
  next
    case over: True
    show ?thesis
    proof (cases "find_oldest_unpinned_key p")
      case None
      then have "all_pinned p"
        by (auto simp: all_pinned_def find_oldest_unpinned_key_def filter_empty_conv)
      then show ?thesis using None over "1.prems" by (simp add: evict_until.simps [of bytes_len bytes p] w evicted_to_refl)
    next
      case (Some k)
      obtain p1 b where ev: "evict_internal bytes_len p k = (p1, b)" by fastforce
      obtain e where e: "map_of (cp_entries p) k = Some e" "b = Some (ce_blob e)" "ce_pins e = 0" "cp_inv bytes_len p1"
        "cp_entries p1 = AList.delete k (cp_entries p)" "cp_evicted p1 = insert k (cp_evicted p)"
        "cp_max_bytes p1 = cp_max_bytes p" "cp_next_id p1 = cp_next_id p" "cp_lru_clock p1 = cp_lru_clock p"
        and old: "\<And>k' e'. (k', e') \<in> set (cp_entries p) \<Longrightarrow> ce_pins e' = 0 \<Longrightarrow> ce_stamp e \<le> ce_stamp e'"
        using evict_internal_step [OF "1.prems"(2) Some ev] by blast
      have run1: "evict_until bytes_len bytes p1 (ds @ [ce_blob e]) = (p', ds', fits)"
        using "1.prems"(1) Some over ev e(2) by (simp add: evict_until.simps [of bytes_len bytes p] w)
      have IH: "cp_inv bytes_len p' \<and> evicted_to p1 p' \<and> pool_blobs p' + mset ds' = pool_blobs p1 + mset (ds @ [ce_blob e])
        \<and> (fits \<longleftrightarrow> cp_total_bytes p' + bytes \<le> cp_max_bytes p') \<and> (fits \<or> all_pinned p')"
        using "1.IH" [of k "(p1, b)" p1 b] over Some ev e(2,4,7) run1 "1.prems"(3) by (auto simp: w)
      have "pool_blobs p = add_mset (ce_blob e) (pool_blobs p1)"
        using blobs_remove [OF "1.prems"(2) e(1)] by (simp add: pool_blobs_def e(5))
      moreover have "evicted_to p p'"
        by (rule evicted_to_step [OF e(1) cp_inv_keys [OF "1.prems"(2)] e(3) _ e(5) e(7-9)]) (use old IH in blast)+
      ultimately show ?thesis using IH by auto
    qed
  qed
qed


section \<open>Captures\<close>

text \<open>The state after the replaced entry is taken out.\<close>

definition without_key :: "('b \<Rightarrow> nat) \<Rightarrow> 'b checkpoint_pool \<Rightarrow> checkpoint_key \<Rightarrow> 'b checkpoint_pool" where
  "without_key bytes_len p key =
     p\<lparr>cp_entries := AList.delete key (cp_entries p),
       cp_total_bytes := cp_total_bytes p - (case map_of (cp_entries p) key of None \<Rightarrow> 0 | Some e \<Rightarrow> bytes_len (ce_blob e)),
       cp_evicted := cp_evicted p - {key}\<rparr>"

lemma delete_absent: "map_of xs k = None \<Longrightarrow> AList.delete k xs = xs"
  by (auto simp: AList.delete_eq filter_id_conv map_of_eq_None_iff intro: rev_image_eqI)

lemma without_key_inv: "cp_inv bytes_len p \<Longrightarrow> cp_inv bytes_len (without_key bytes_len p key)"
  using cp_inv_remove [of bytes_len p key _ "cp_evicted p - {key}"]
  by (cases "map_of (cp_entries p) key") (simp_all add: without_key_def delete_absent cp_inv_ignores_evicted)

lemma without_key_frame [simp]:
  "cp_max_bytes (without_key bytes_len p key) = cp_max_bytes p" "cp_next_id (without_key bytes_len p key) = cp_next_id p"
  "cp_lru_clock (without_key bytes_len p key) = cp_lru_clock p"
  "cp_entries (without_key bytes_len p key) = AList.delete key (cp_entries p)"
  by (simp_all add: without_key_def)

definition replaced_blob :: "'b checkpoint_pool \<Rightarrow> checkpoint_key \<Rightarrow> 'b list" where
  "replaced_blob p key = (case map_of (cp_entries p) key of None \<Rightarrow> [] | Some e \<Rightarrow> [ce_blob e])"

lemma without_key_blobs:
  "cp_inv bytes_len p \<Longrightarrow> pool_blobs (without_key bytes_len p key) + mset (replaced_blob p key) = pool_blobs p"
  using blobs_remove [of bytes_len p key]
  by (cases "map_of (cp_entries p) key") (simp_all add: pool_blobs_def delete_absent replaced_blob_def)

lemma insert_unaligned_alt:
  "insert_unaligned bytes_len p domain pos fp blob =
     (let key = (domain, pos, fp); old = map_of (cp_entries p) key;
          (p3, displaced, fits) = evict_until bytes_len (bytes_len blob) (without_key bytes_len p key) (replaced_blob p key);
          i = (case old of Some e \<Rightarrow> ce_id e | None \<Rightarrow> cp_next_id p3);
          clock = cp_lru_clock p3 + 1
      in if \<not> fits then (p3, CHECKPOINT_NONE, displaced @ [blob])
         else (p3\<lparr>cp_next_id := (case old of Some e \<Rightarrow> cp_next_id p3 | None \<Rightarrow> cp_next_id p3 + 1), cp_lru_clock := clock,
                  cp_total_bytes := wrap64 (cp_total_bytes p3 + bytes_len blob),
                  cp_entries := AList.update key \<lparr>ce_id = i, ce_blob = blob, ce_pins = 0, ce_stamp = clock\<rparr> (cp_entries p3)\<rparr>,
               i, displaced))"
  by (cases "map_of (cp_entries p) (domain, pos, fp)")
    (simp_all add: insert_unaligned_def without_key_def replaced_blob_def delete_absent Let_def split: prod.splits)

lemma evicted_to_set:
  assumes "evicted_to p p'"
  shows "set (cp_entries p') \<subseteq> set (cp_entries p)"
    and "(k, e) \<in> set (cp_entries p) \<Longrightarrow> ce_pins e \<noteq> 0 \<Longrightarrow> (k, e) \<in> set (cp_entries p')"
proof -
  obtain vs where f: "cp_entries p' = filter (\<lambda>(k, _). k \<notin> vs) (cp_entries p)"
    and u: "\<And>k e. (k, e) \<in> set (cp_entries p) \<Longrightarrow> k \<in> vs \<Longrightarrow> ce_pins e = 0"
    using assms unfolding evicted_to_def by blast
  show "set (cp_entries p') \<subseteq> set (cp_entries p)" unfolding f by auto
  show "(k, e) \<in> set (cp_entries p')" if "(k, e) \<in> set (cp_entries p)" "ce_pins e \<noteq> 0"
    using that u [of k e] unfolding f by auto
qed

lemma evicted_to_frame: "evicted_to p p' \<Longrightarrow> cp_max_bytes p' = cp_max_bytes p \<and> cp_next_id p' = cp_next_id p \<and> cp_lru_clock p' = cp_lru_clock p"
  unfolding evicted_to_def by simp

lemma evicted_to_oldest:
  assumes "evicted_to p p'" "(k, e) \<in> set (cp_entries p)" "k \<notin> fst ` set (cp_entries p')" "(k', e') \<in> set (cp_entries p')" "ce_pins e' = 0"
  shows "ce_stamp e \<le> ce_stamp e'"
proof -
  obtain vs where f: "cp_entries p' = filter (\<lambda>(k, _). k \<notin> vs) (cp_entries p)"
    and o: "\<And>k e k' e'. (k, e) \<in> set (cp_entries p) \<Longrightarrow> (k', e') \<in> set (cp_entries p) \<Longrightarrow>
             k \<in> vs \<Longrightarrow> k' \<notin> vs \<Longrightarrow> ce_pins e' = 0 \<Longrightarrow> ce_stamp e \<le> ce_stamp e'"
    using assms(1) unfolding evicted_to_def by blast
  have "k \<in> vs"
  proof (rule ccontr)
    assume "k \<notin> vs"
    then have "(k, e) \<in> set (cp_entries p')" using assms(2) unfolding f by simp
    with assms(3) show False by (metis fst_conv imageI)
  qed
  moreover have "k' \<notin> vs" "(k', e') \<in> set (cp_entries p)" using assms(4) f by auto
  ultimately show ?thesis using o assms(2,5) by blast
qed

lemma update_absent: "k \<notin> fst ` set xs \<Longrightarrow> AList.update k v xs = xs @ [(k, v)]"
  by (induction xs) auto

lemma cp_inv_add:
  assumes inv: "cp_inv bytes_len p" and new: "key \<notin> fst ` set (cp_entries p)"
    and i: "0 < i" "i < nxt" "cp_next_id p \<le> nxt" "i \<notin> (ce_id \<circ> snd) ` set (cp_entries p)"
    and fit: "cp_total_bytes p + bytes_len blob \<le> cp_max_bytes p"
  shows "cp_inv bytes_len (p\<lparr>cp_next_id := nxt, cp_lru_clock := cp_lru_clock p + 1,
    cp_total_bytes := cp_total_bytes p + bytes_len blob,
    cp_entries := AList.update key \<lparr>ce_id = i, ce_blob = blob, ce_pins = 0, ce_stamp = cp_lru_clock p + 1\<rparr> (cp_entries p)\<rparr>)"
  using assms unfolding cp_inv_def
  by (auto simp: update_absent [OF new] entry_bytes_def image_iff split: prod.splits; fastforce)

text \<open>The id a capture gets: the replaced entry's, or a fresh one.\<close>

definition capture_id :: "'b checkpoint_pool \<Rightarrow> checkpoint_key \<Rightarrow> checkpoint_id" where
  "capture_id p key = (case map_of (cp_entries p) key of Some e \<Rightarrow> ce_id e | None \<Rightarrow> cp_next_id p)"

definition capture_next :: "'b checkpoint_pool \<Rightarrow> checkpoint_key \<Rightarrow> nat" where
  "capture_next p key = (case map_of (cp_entries p) key of Some e \<Rightarrow> cp_next_id p | None \<Rightarrow> cp_next_id p + 1)"

lemma insert_cases:
  assumes inv: "cp_inv bytes_len p" and small: "cp_max_bytes p + bytes_len blob \<le> u64_max"
    and ins: "insert_unaligned bytes_len p domain pos fp blob = (p', i, ds)"
  obtains (refused) p3 displaced where "cp_inv bytes_len p3" "evicted_to (without_key bytes_len p (domain, pos, fp)) p3"
      "pool_blobs p3 + mset displaced = pool_blobs p" "all_pinned p3" "cp_max_bytes p3 < cp_total_bytes p3 + bytes_len blob"
      "p' = p3" "i = CHECKPOINT_NONE" "ds = displaced @ [blob]"
    | (kept) p3 where "cp_inv bytes_len p3" "evicted_to (without_key bytes_len p (domain, pos, fp)) p3"
      "pool_blobs p3 + mset ds = pool_blobs p" "cp_total_bytes p3 + bytes_len blob \<le> cp_max_bytes p3"
      "i = capture_id p (domain, pos, fp)"
      "p' = p3\<lparr>cp_next_id := capture_next p (domain, pos, fp), cp_lru_clock := cp_lru_clock p3 + 1,
        cp_total_bytes := cp_total_bytes p3 + bytes_len blob,
        cp_entries := AList.update (domain, pos, fp)
          \<lparr>ce_id = i, ce_blob = blob, ce_pins = 0, ce_stamp = cp_lru_clock p3 + 1\<rparr> (cp_entries p3)\<rparr>"
proof -
  let ?key = "(domain, pos, fp)"
  obtain p3 displaced fits where ev: "evict_until bytes_len (bytes_len blob) (without_key bytes_len p ?key) (replaced_blob p ?key) = (p3, displaced, fits)"
    by (metis prod_cases3)
  have E: "cp_inv bytes_len p3 \<and> evicted_to (without_key bytes_len p ?key) p3
      \<and> pool_blobs p3 + mset displaced = pool_blobs (without_key bytes_len p ?key) + mset (replaced_blob p ?key)
      \<and> (fits \<longleftrightarrow> cp_total_bytes p3 + bytes_len blob \<le> cp_max_bytes p3) \<and> (fits \<or> all_pinned p3)"
    using evict_until_spec [OF ev without_key_inv [OF inv]] small unfolding without_key_frame by blast
  have n: "cp_next_id p3 = cp_next_id p" "cp_max_bytes p3 = cp_max_bytes p" using evicted_to_frame E by fastforce+
  have b: "pool_blobs p3 + mset displaced = pool_blobs p" using E without_key_blobs [OF inv] by metis
  show thesis
  proof (cases fits)
    case False
    then have "p' = p3 \<and> i = CHECKPOINT_NONE \<and> ds = displaced @ [blob]"
      using ins unfolding insert_unaligned_alt Let_def ev by simp
    then show thesis using refused [of p3 displaced] E b False by auto
  next
    case True
    have w: "wrap64 (cp_total_bytes p3 + bytes_len blob) = cp_total_bytes p3 + bytes_len blob"
      using E True n small by simp
    have "i = capture_id p ?key \<and> ds = displaced \<and> p' = p3\<lparr>cp_next_id := capture_next p ?key, cp_lru_clock := cp_lru_clock p3 + 1,
        cp_total_bytes := cp_total_bytes p3 + bytes_len blob,
        cp_entries := AList.update ?key
          \<lparr>ce_id = capture_id p ?key, ce_blob = blob, ce_pins = 0, ce_stamp = cp_lru_clock p3 + 1\<rparr> (cp_entries p3)\<rparr>"
      using ins True unfolding insert_unaligned_alt Let_def ev
      by (cases "map_of (cp_entries p) ?key") (auto simp: n w capture_id_def capture_next_def)
    then show thesis using kept [of p3] E b True by auto
  qed
qed

lemma evicted_key_gone:
  assumes "cp_inv bytes_len p" "evicted_to (without_key bytes_len p key) p3"
  shows "key \<notin> fst ` set (cp_entries p3)"
proof
  assume "key \<in> fst ` set (cp_entries p3)"
  then have "key \<in> fst ` set (AList.delete key (cp_entries p))" using evicted_to_set(1) [OF assms(2)] by auto
  then show False unfolding set_delete [OF cp_inv_keys [OF assms(1)]] by auto
qed

lemma capture_id_fresh:
  assumes inv: "cp_inv bytes_len p" and t: "evicted_to (without_key bytes_len p key) p3"
  shows "0 < capture_id p key" "capture_id p key < capture_next p key" "cp_next_id p3 \<le> capture_next p key"
    "capture_id p key \<notin> (ce_id \<circ> snd) ` set (cp_entries p3)"
proof -
  have n: "cp_next_id p3 = cp_next_id p" using evicted_to_frame [OF t] by simp
  have sub: "x \<in> set (cp_entries p) \<and> fst x \<noteq> key" if "x \<in> set (cp_entries p3)" for x
    using evicted_to_set(1) [OF t] that set_delete [OF cp_inv_keys [OF inv], of key] by auto
  have bound: "ce_id (snd x) < cp_next_id p" if "x \<in> set (cp_entries p)" for x
    using inv that unfolding cp_inv_def by blast
  have inj: "inj_on (ce_id \<circ> snd) (set (cp_entries p))" using inv by (simp add: cp_inv_def distinct_map)
  have "0 < cp_next_id p" using inv by (simp add: cp_inv_def)
  then show "0 < capture_id p key" "capture_id p key < capture_next p key"
    using cp_inv_bounds [OF inv, of key] by (auto simp: capture_id_def capture_next_def split: option.splits)
  show "cp_next_id p3 \<le> capture_next p key" by (simp add: n capture_next_def split: option.splits)
  show "capture_id p key \<notin> (ce_id \<circ> snd) ` set (cp_entries p3)"
  proof (cases "map_of (cp_entries p) key")
    case None
    then show ?thesis using bound sub by (fastforce simp: capture_id_def image_iff)
  next
    case (Some e)
    then show ?thesis
      using inj_onD [OF inj _ map_of_SomeD [OF Some]] sub by (fastforce simp: capture_id_def)
  qed
qed

lemma insert_unaligned_inv:
  assumes "cp_inv bytes_len p" "cp_max_bytes p + bytes_len blob \<le> u64_max"
    "insert_unaligned bytes_len p domain pos fp blob = (p', i, ds)"
  shows "cp_inv bytes_len p' \<and> cp_max_bytes p' = cp_max_bytes p"
  using assms
proof (cases rule: insert_cases)
  case (refused p3 displaced)
  then show ?thesis using evicted_to_frame by fastforce
next
  case (kept p3)
  then show ?thesis
    using cp_inv_add [OF kept(1) evicted_key_gone [OF assms(1) kept(2)] capture_id_fresh [OF assms(1) kept(2)] kept(4)]
      evicted_to_frame [OF kept(2)] by simp
qed

lemma cp_inv_update:
  assumes inv: "cp_inv bytes_len p" and m: "map_of (cp_entries p) k = Some e"
    and e': "ce_id e' = ce_id e" "ce_blob e' = ce_blob e" "ce_stamp e' = ce_stamp e \<or> ce_stamp e' = cp_lru_clock p + 1"
    and c: "cp_lru_clock p \<le> c" "ce_stamp e' \<le> c"
  shows "cp_inv bytes_len (p\<lparr>cp_lru_clock := c, cp_entries := AList.update k e' (cp_entries p)\<rparr>)"
proof -
  obtain xs ys where es: "cp_entries p = xs @ (k, e) # ys"
    using split_list [OF map_of_SomeD [OF m]] by blast
  have fresh: "k \<notin> fst ` set xs" using cp_inv_keys [OF inv] by (simp add: es)
  have u: "AList.update k e' (xs @ (k, e) # ys) = xs @ (k, e') # ys"
    using fresh by (induction xs) auto
  have old: "0 < ce_id x \<and> ce_id x < cp_next_id p \<and> ce_stamp x \<le> cp_lru_clock p"
      if "x \<in> snd ` set (xs @ (k, e) # ys)" for x
    using inv that unfolding cp_inv_def es by blast
  have d: "ce_stamp e \<notin> ce_stamp ` snd ` (set xs \<union> set ys)" "distinct (map (ce_stamp \<circ> snd) (xs @ ys))"
    using inv by (auto simp: cp_inv_def es image_iff)
  have "ce_stamp e' \<noteq> ce_stamp x" if "x \<in> snd ` (set xs \<union> set ys)" for x
  proof -
    have "x \<in> snd ` set (xs @ (k, e) # ys)" using that by auto
    then have "ce_stamp x \<le> cp_lru_clock p" using old by blast
    moreover have "ce_stamp e \<noteq> ce_stamp x" using d(1) that by blast
    ultimately show ?thesis using e'(3) by linarith
  qed
  then have "ce_stamp e' \<notin> ce_stamp ` snd ` (set xs \<union> set ys)" by blast
  then have stamps: "distinct (map (ce_stamp \<circ> snd) (xs @ (k, e') # ys))" using d(2) by (auto simp: image_iff)
  have "0 < ce_id x \<and> ce_id x < cp_next_id p \<and> ce_stamp x \<le> c" if "x \<in> snd ` set (xs @ (k, e') # ys)" for x
  proof (cases "x = e'")
    case True
    then show ?thesis using old [of e] e'(1) c by simp
  next
    case False
    then have "x \<in> snd ` set (xs @ (k, e) # ys)" using that by auto
    then show ?thesis using old [of x] c(1) by auto
  qed
  then show ?thesis using inv stamps e'(1,2) by (simp add: cp_inv_def es u entry_bytes_def)
qed

lemma evict_internal_inv:
  "cp_inv bytes_len p \<Longrightarrow> evict_internal bytes_len p k = (p', b) \<Longrightarrow> cp_inv bytes_len p' \<and> cp_max_bytes p' = cp_max_bytes p"
  using cp_inv_remove [of bytes_len p k] by (auto simp: evict_internal_def split: option.splits)

lemma set_pins_inv: "cp_inv bytes_len p \<Longrightarrow> cp_inv bytes_len (fst (set_pins n p d pos fp)) \<and> cp_max_bytes (fst (set_pins n p d pos fp)) = cp_max_bytes p"
proof (cases "map_of (cp_entries p) (d, pos, fp)")
  case (Some e)
  assume inv: "cp_inv bytes_len p"
  have "ce_stamp e \<le> cp_lru_clock p" using cp_inv_bounds [OF inv Some] by simp
  then show ?thesis
    using cp_inv_update [OF inv Some, of "e\<lparr>ce_pins := n\<rparr>" "cp_lru_clock p"] by (simp add: set_pins_def Some)
qed (simp add: set_pins_def)

lemma cp_get_inv:
  assumes "cp_inv bytes_len p"
  shows "cp_inv bytes_len (fst (cp_get p d pos fp)) \<and> cp_max_bytes (fst (cp_get p d pos fp)) = cp_max_bytes p"
proof (cases "map_of (cp_entries p) (d, pos, fp)")
  case None
  then show ?thesis using assms by (simp add: cp_get_def)
next
  case (Some e)
  then show ?thesis
    using cp_inv_update [OF assms Some, of "e\<lparr>ce_stamp := cp_lru_clock p + 1\<rparr>" "cp_lru_clock p + 1"]
    by (simp add: cp_get_def Some)
qed

section \<open>Reachable pools\<close>

inductive cp_step :: "(byte list \<Rightarrow> digest) \<Rightarrow> ('b \<Rightarrow> nat) \<Rightarrow> 'b checkpoint_pool \<Rightarrow> 'b checkpoint_pool \<Rightarrow> bool"
  for sha256 :: "byte list \<Rightarrow> digest" and bytes_len :: "'b \<Rightarrow> nat" where
  cps_insert: "cp_max_bytes p + bytes_len blob \<le> u64_max \<Longrightarrow> cp_insert bytes_len p d pos fp blob = (p', r) \<Longrightarrow> cp_step sha256 bytes_len p p'"
| cps_unaligned: "cp_max_bytes p + bytes_len blob \<le> u64_max \<Longrightarrow> insert_unaligned bytes_len p d pos fp blob = (p', r) \<Longrightarrow> cp_step sha256 bytes_len p p'"
| cps_pop: "pop_lru bytes_len p = (p', x) \<Longrightarrow> cp_step sha256 bytes_len p p'"
| cps_evict: "cp_evict bytes_len p d pos fp = (p', b) \<Longrightarrow> cp_step sha256 bytes_len p p'"
| cps_get: "cp_get p d pos fp = (p', b) \<Longrightarrow> cp_step sha256 bytes_len p p'"
| cps_pin: "cp_step sha256 bytes_len p (fst (cp_pin p d pos fp))"
| cps_unpin: "cp_step sha256 bytes_len p (fst (cp_unpin p d pos fp))"
| cps_drain: "cp_step sha256 bytes_len p (fst (drain_blobs p))"
| cps_resume: "plan_resume sha256 bytes_len p d tokens lookup drafter = (p', r) \<Longrightarrow> cp_step sha256 bytes_len p p'"

definition cp_reachable :: "(byte list \<Rightarrow> digest) \<Rightarrow> ('b \<Rightarrow> nat) \<Rightarrow> nat \<Rightarrow> 'b checkpoint_pool \<Rightarrow> bool" where
  "cp_reachable sha256 bytes_len max_bytes p \<longleftrightarrow> max_bytes \<le> u64_max \<and> (cp_step sha256 bytes_len)\<^sup>*\<^sup>* (cp_new max_bytes) p"

lemma cp_step_inv:
  assumes "cp_step sha256 bytes_len p p'" "cp_inv bytes_len p"
  shows "cp_inv bytes_len p' \<and> cp_max_bytes p' = cp_max_bytes p"
  using assms
proof (cases rule: cp_step.cases)
  case (cps_insert blob d pos fp r)
  then show ?thesis using assms(2) insert_unaligned_inv [of bytes_len p blob d pos fp]
    by (cases r) (auto simp: cp_insert_def split: if_splits)
next
  case (cps_unaligned blob d pos fp r)
  then show ?thesis using assms(2) insert_unaligned_inv [of bytes_len p blob d pos fp] by (cases r) auto
next
  case (cps_pop x)
  then show ?thesis using assms(2) evict_internal_inv
    by (fastforce simp: pop_lru_def split: option.splits prod.splits)
next
  case (cps_evict d pos fp b)
  then show ?thesis using assms(2) evict_internal_inv by (fastforce simp: cp_evict_def)
next
  case (cps_get d pos fp b)
  then show ?thesis using cp_get_inv [OF assms(2), of d pos fp] by simp
next
  case (cps_drain)
  then show ?thesis using assms(2) by (simp add: drain_blobs_def cp_inv_def entry_bytes_def)
qed (use assms(2) in \<open>auto simp: cp_pin_def cp_unpin_def plan_resume_def set_pins_inv split: sum.splits if_splits\<close>)

lemma cp_reachable_inv:
  assumes "cp_reachable sha256 bytes_len max_bytes p"
  shows "cp_inv bytes_len p \<and> cp_max_bytes p = max_bytes"
proof -
  have "(cp_step sha256 bytes_len)\<^sup>*\<^sup>* (cp_new max_bytes) p" "max_bytes \<le> u64_max" using assms by (simp_all add: cp_reachable_def)
  then show ?thesis
  proof (induction rule: rtranclp_induct)
    case base
    then show ?case by (simp add: cp_inv_def cp_new_def entry_bytes_def)
  qed (auto dest: cp_step_inv)
qed

text \<open>
  C25: In every reachable pool the byte total is exactly the bytes of the entries held and never above the
  ceiling; keys, ids and LRU stamps are unique, ids are never the reserved 0.
\<close>

theorem checkpoint_bytes_bounded:
  assumes "cp_reachable sha256 bytes_len max_bytes p"
  shows "cp_total_bytes p = sum_list (map (bytes_len \<circ> ce_blob \<circ> snd) (cp_entries p)) \<and> cp_total_bytes p \<le> max_bytes
    \<and> distinct (map fst (cp_entries p)) \<and> distinct (map (ce_id \<circ> snd) (cp_entries p)) \<and> distinct (map (ce_stamp \<circ> snd) (cp_entries p))
    \<and> (\<forall>e \<in> snd ` set (cp_entries p). checkpoint_is_some (ce_id e))"
  using cp_reachable_inv [OF assms] by (simp add: cp_inv_def entry_bytes_def checkpoint_is_some_def)

section \<open>A capture loses nothing and evicts fairly\<close>

lemma insert_blobs:
  assumes "cp_inv bytes_len p" "cp_max_bytes p + bytes_len blob \<le> u64_max"
    "insert_unaligned bytes_len p domain pos fp blob = (p', i, ds)"
  shows "pool_blobs p' + mset ds = add_mset blob (pool_blobs p)"
  using assms
proof (cases rule: insert_cases)
  case (kept p3)
  then show ?thesis using update_absent [OF evicted_key_gone [OF assms(1) kept(2)]] by (simp add: pool_blobs_def)
qed simp

lemma insert_survivors:
  assumes inv: "cp_inv bytes_len p" and "cp_max_bytes p + bytes_len blob \<le> u64_max"
    "insert_unaligned bytes_len p domain pos fp blob = (p', i, ds)"
  obtains p3 where "cp_inv bytes_len p3" "evicted_to (without_key bytes_len p (domain, pos, fp)) p3"
    "\<And>k. k \<noteq> (domain, pos, fp) \<Longrightarrow> map_of (cp_entries p') k = map_of (cp_entries p3) k"
  using assms
proof (cases rule: insert_cases)
  case (refused p3 displaced)
  then show thesis using that [of p3] by simp
next
  case (kept p3)
  then show thesis using that [of p3] by (simp add: update_conv')
qed

lemma survivor_old:
  assumes "cp_inv bytes_len p" "cp_inv bytes_len p3" "evicted_to (without_key bytes_len p key) p3" "map_of (cp_entries p) k = Some e" "k \<noteq> key"
  shows "ce_pins e \<noteq> 0 \<Longrightarrow> map_of (cp_entries p3) k = Some e"
    and "map_of (cp_entries p3) k = None \<Longrightarrow> map_of (cp_entries p3) k' = Some e' \<Longrightarrow> ce_pins e' = 0 \<Longrightarrow> ce_stamp e \<le> ce_stamp e'"
proof -
  have m: "(k, e) \<in> set (cp_entries (without_key bytes_len p key))"
    using map_of_SomeD [OF assms(4)] assms(5) set_delete [OF cp_inv_keys [OF assms(1)], of key] by simp
  show "map_of (cp_entries p3) k = Some e" if "ce_pins e \<noteq> 0"
    using evicted_to_set(2) [OF assms(3) m that] cp_inv_entry [OF assms(2)] by simp
  show "ce_stamp e \<le> ce_stamp e'" if "map_of (cp_entries p3) k = None" "map_of (cp_entries p3) k' = Some e'" "ce_pins e' = 0"
    using evicted_to_oldest [OF assms(3) m] that map_of_SomeD [OF that(2)] by (simp add: map_of_eq_None_iff)
qed


text \<open>
  C12: A capture never loses a blob: every blob that was in the pool, and the new one, is afterwards in the
  pool or handed back to be freed, exactly once. Pinned entries under other keys survive unchanged. Any
  entry that was evicted is at least as old as every unpinned entry that stayed. When the capture is
  accepted it is stored under its key, with the id the key already had.
\<close>

theorem capture_conserves_blobs:
  assumes "cp_reachable sha256 bytes_len max_bytes p" "max_bytes + bytes_len blob \<le> u64_max"
    and "cp_insert bytes_len p domain pos fp blob = (p', i, ds)"
  shows "pool_blobs p' + mset ds = add_mset blob (pool_blobs p)
    \<and> (\<forall>k e. map_of (cp_entries p) k = Some e \<longrightarrow> k \<noteq> (domain, pos, fp) \<longrightarrow> ce_pins e \<noteq> 0 \<longrightarrow> map_of (cp_entries p') k = Some e)
    \<and> (\<forall>k e k' e'. map_of (cp_entries p) k = Some e \<longrightarrow> map_of (cp_entries p') k = None \<longrightarrow> k \<noteq> (domain, pos, fp) \<longrightarrow>
         map_of (cp_entries p') k' = Some e' \<longrightarrow> k' \<noteq> (domain, pos, fp) \<longrightarrow> ce_pins e' = 0 \<longrightarrow> ce_stamp e \<le> ce_stamp e')
    \<and> (checkpoint_is_some i \<longrightarrow> peek p' domain pos fp = Some blob \<and> id_of p' domain pos fp = Some i
         \<and> (\<forall>j. id_of p domain pos fp = Some j \<longrightarrow> i = j))"
proof (cases "is_aligned pos")
  case False
  then show ?thesis using assms(3) by (auto simp: cp_insert_def checkpoint_is_some_def CHECKPOINT_NONE_def)
next
  case True
  have inv: "cp_inv bytes_len p" and small: "cp_max_bytes p + bytes_len blob \<le> u64_max"
    using cp_reachable_inv [OF assms(1)] assms(2) by auto
  have ins: "insert_unaligned bytes_len p domain pos fp blob = (p', i, ds)" using assms(3) True by (simp add: cp_insert_def)
  obtain p3 where p3: "cp_inv bytes_len p3" "evicted_to (without_key bytes_len p (domain, pos, fp)) p3"
    and same: "\<And>k. k \<noteq> (domain, pos, fp) \<Longrightarrow> map_of (cp_entries p') k = map_of (cp_entries p3) k"
    using insert_survivors [OF inv small ins] by blast
  note old = survivor_old [OF inv p3]
  have stored: "peek p' domain pos fp = Some blob \<and> id_of p' domain pos fp = Some i
      \<and> (\<forall>j. id_of p domain pos fp = Some j \<longrightarrow> i = j)" if "checkpoint_is_some i"
    using inv small ins
  proof (cases rule: insert_cases)
    case (refused p4 displaced)
    then show ?thesis using that by (simp add: checkpoint_is_some_def CHECKPOINT_NONE_def)
  next
    case (kept p4)
    then show ?thesis by (auto simp: peek_def id_of_def update_conv' capture_id_def)
  qed
  show ?thesis
    using insert_blobs [OF inv small ins] stored old same by (intro conjI) (metis, metis, metis, blast)
qed

section \<open>Predicting a capture\<close>

text \<open>The bytes no eviction can free: pinned entries under other keys.\<close>

definition pinned_others :: "('b \<Rightarrow> nat) \<Rightarrow> 'b checkpoint_pool \<Rightarrow> checkpoint_key \<Rightarrow> nat" where
  "pinned_others bytes_len p key = entry_bytes bytes_len (filter (\<lambda>x. ce_pins (snd x) \<noteq> 0) (AList.delete key (cp_entries p)))"

lemma entry_bytes_partition: "entry_bytes bytes_len es = entry_bytes bytes_len (filter P es) + entry_bytes bytes_len (filter (\<lambda>x. \<not> P x) es)"
  by (induction es) (auto simp: entry_bytes_def)

lemma evicted_to_bytes:
  assumes "evicted_to p p'"
  shows "entry_bytes bytes_len (filter (\<lambda>x. ce_pins (snd x) \<noteq> 0) (cp_entries p')) =
    entry_bytes bytes_len (filter (\<lambda>x. ce_pins (snd x) \<noteq> 0) (cp_entries p))"
proof -
  obtain vs where f: "cp_entries p' = filter (\<lambda>(k, _). k \<notin> vs) (cp_entries p)"
    and u: "\<And>k e. (k, e) \<in> set (cp_entries p) \<Longrightarrow> k \<in> vs \<Longrightarrow> ce_pins e = 0"
    using assms unfolding evicted_to_def by blast
  have "filter (\<lambda>x. ce_pins (snd x) \<noteq> 0) (cp_entries p') = filter (\<lambda>x. ce_pins (snd x) \<noteq> 0) (cp_entries p)"
    unfolding f filter_filter using u by (intro filter_cong) (auto simp: prod.case_eq_if)
  then show ?thesis by simp
qed

lemma insert_accepts_iff:
  assumes inv: "cp_inv bytes_len p" and small: "cp_max_bytes p + bytes_len blob \<le> u64_max"
    and ins: "insert_unaligned bytes_len p domain pos fp blob = (p', i, ds)"
  shows "checkpoint_is_some i \<longleftrightarrow> pinned_others bytes_len p (domain, pos, fp) + bytes_len blob \<le> cp_max_bytes p"
proof -
  let ?pinned = "\<lambda>q. entry_bytes bytes_len (filter (\<lambda>x. ce_pins (snd x) \<noteq> 0) (cp_entries q))"
  have low: "?pinned p3 = pinned_others bytes_len p (domain, pos, fp)" "cp_max_bytes p3 = cp_max_bytes p"
    if "evicted_to (without_key bytes_len p (domain, pos, fp)) p3" for p3
    using evicted_to_bytes [OF that] evicted_to_frame [OF that] by (simp_all add: pinned_others_def)
  have tot: "cp_total_bytes q = ?pinned q + entry_bytes bytes_len (filter (\<lambda>x. \<not> ce_pins (snd x) \<noteq> 0) (cp_entries q))"
    if "cp_inv bytes_len q" for q using that entry_bytes_partition [of bytes_len "cp_entries q" "\<lambda>x. ce_pins (snd x) \<noteq> 0"] by (simp add: cp_inv_def)
  show ?thesis using inv small ins
  proof (cases rule: insert_cases)
    case (refused p3 displaced)
    have "filter (\<lambda>x. \<not> ce_pins (snd x) \<noteq> 0) (cp_entries p3) = []"
      using refused(4) unfolding all_pinned_def filter_empty_conv by force
    then have "cp_total_bytes p3 = ?pinned p3" using tot [OF refused(1)] by (simp add: entry_bytes_def)
    then show ?thesis using refused low [OF refused(2)] by (simp add: checkpoint_is_some_def CHECKPOINT_NONE_def)
  next
    case (kept p3)
    have "?pinned p3 \<le> cp_total_bytes p3" using tot [OF kept(1)] by simp
    then show ?thesis using kept low [OF kept(2)] capture_id_fresh(1) [OF inv kept(2)] by (simp add: checkpoint_is_some_def)
  qed
qed

lemma can_afford_iff:
  assumes inv: "cp_inv bytes_len p" and small: "cp_max_bytes p + bytes \<le> u64_max"
  shows "can_afford bytes_len p key bytes \<longleftrightarrow> pinned_others bytes_len p key + bytes \<le> cp_max_bytes p"
proof -
  define replaced where "replaced = (case map_of (cp_entries p) key of None \<Rightarrow> 0 | Some e \<Rightarrow> bytes_len (ce_blob e))"
  define unpinned where "unpinned = entry_bytes bytes_len (filter (\<lambda>x. \<not> ce_pins (snd x) \<noteq> 0) (AList.delete key (cp_entries p)))"
  have "cp_total_bytes p = replaced + entry_bytes bytes_len (AList.delete key (cp_entries p))"
    using inv entry_bytes_delete [OF cp_inv_keys [OF inv], of key _ bytes_len]
    by (auto simp: cp_inv_def replaced_def delete_absent split: option.splits)
  then have tot: "cp_total_bytes p = replaced + unpinned + pinned_others bytes_len p key"
    unfolding unpinned_def pinned_others_def 
    using entry_bytes_partition [of bytes_len "AList.delete key (cp_entries p)" "\<lambda>x. ce_pins (snd x) \<noteq> 0"] by simp
  have le: "cp_total_bytes p \<le> cp_max_bytes p" using inv by (simp add: cp_inv_def)
  have u: "sum_list (map (\<lambda>(_, e). bytes_len (ce_blob e)) (filter (\<lambda>(k, e). ce_pins e = 0 \<and> k \<noteq> key) (cp_entries p))) = unpinned"
    unfolding unpinned_def entry_bytes_def AList.delete_eq filter_filter
    by (intro arg_cong [where f = sum_list] map_cong filter_cong) (auto simp: prod.case_eq_if)
  have w: "wrap64 unpinned = unpinned" "wrap64 (replaced + unpinned) = replaced + unpinned" using tot le small by simp_all
  have sat: "saturating_add64 (pinned_others bytes_len p key) bytes = pinned_others bytes_len p key + bytes"
    using tot le small by (simp add: saturating_add64_def)
  show ?thesis unfolding can_afford_def Let_def u replaced_def [symmetric] w by (simp add: tot sat)
qed

text \<open>
  C26: The affordability check is exact: it says yes for a page-aligned boundary precisely when the capture
  would be accepted, whatever has to be evicted for it.
\<close>

theorem can_afford_exact:
  assumes "cp_reachable sha256 bytes_len max_bytes p" "max_bytes + bytes_len blob \<le> u64_max" "is_aligned pos"
  shows "can_afford bytes_len p (domain, pos, fp) (bytes_len blob) \<longleftrightarrow>
    checkpoint_is_some (fst (snd (cp_insert bytes_len p domain pos fp blob)))"
proof -
  have inv: "cp_inv bytes_len p" and small: "cp_max_bytes p + bytes_len blob \<le> u64_max"
    using cp_reachable_inv [OF assms(1)] assms(2) by auto
  obtain p' i ds where ins: "insert_unaligned bytes_len p domain pos fp blob = (p', i, ds)" by (metis prod_cases3)
  show ?thesis
    using can_afford_iff [OF inv small] insert_accepts_iff [OF inv small ins] ins assms(3) by (simp add: cp_insert_def)
qed

section \<open>Resume plans\<close>








lemma plan_or_miss_complete [simp]:
  "plan_or_miss (resume_plan_new p (complete_bundle d) c lt) = Ok \<lparr>boundary = p, rp_bundle = complete_bundle d, byte_cost = c, last_token = lt\<rparr>"
  by (simp add: plan_or_miss_def resume_plan_new_def complete_bundle_def)



section \<open>A concrete pool\<close>

text \<open>Blobs are their own byte counts; the digest function stands in for SHA-256.\<close>

definition demo_sha :: "byte list \<Rightarrow> digest" where
  "demo_sha bs = take 32 (bs @ replicate 32 0)"

definition demo_domain :: cache_domain where
  "demo_domain = for_model demo_sha [1] [2] [3] None (str_bytes ''qwen35'') 0"

definition demo_prompt :: "32 word list" where
  "demo_prompt = replicate 200 7"

definition demo_fp :: u64 where
  "demo_fp = prefix_fingerprint demo_sha (take 128 demo_prompt)"

definition demo_pool1 :: "nat checkpoint_pool" where
  "demo_pool1 = fst (cp_insert id (cp_new 100) demo_domain 0 0 40)"

definition demo_checkpoints :: "nat checkpoint_pool" where
  "demo_checkpoints = fst (cp_insert id demo_pool1 demo_domain 128 demo_fp 30)"

lemma cp_insert_reachable:
  "cp_reachable sha256 bytes_len max_bytes p \<Longrightarrow> max_bytes + bytes_len blob \<le> u64_max \<Longrightarrow>
   cp_reachable sha256 bytes_len max_bytes (fst (cp_insert bytes_len p d pos fp blob))"
  using cps_insert [of p bytes_len blob d pos fp, OF _ prod.collapse [symmetric]] cp_reachable_inv [of sha256 bytes_len max_bytes p]
  by (auto simp: cp_reachable_def intro: rtranclp.rtrancl_into_rtrancl)

lemma demo_checkpoints_reachable: "cp_reachable demo_sha id 100 demo_checkpoints"
  unfolding demo_checkpoints_def demo_pool1_def
  by (intro cp_insert_reachable) (simp_all add: cp_reachable_def u64_max_def)

lemmas eval_pool = cp_insert_def is_aligned_def insert_unaligned_def evict_until.simps cp_new_def wrap64_def
  PAGE_TOKENS_def find_oldest_unpinned_key_def evict_internal_def Let_def

lemma demo_pool1: "demo_pool1 =
  \<lparr>cp_entries = [((demo_domain, 0, 0), \<lparr>ce_id = 1, ce_blob = 40, ce_pins = 0, ce_stamp = 1\<rparr>)], cp_evicted = {},
   cp_total_bytes = 40, cp_max_bytes = 100, cp_next_id = 2, cp_lru_clock = 1\<rparr>"
  by (simp add: demo_pool1_def eval_pool)

lemma demo_checkpoints: "demo_checkpoints =
  \<lparr>cp_entries = [((demo_domain, 0, 0), \<lparr>ce_id = 1, ce_blob = 40, ce_pins = 0, ce_stamp = 1\<rparr>),
                 ((demo_domain, 128, demo_fp), \<lparr>ce_id = 2, ce_blob = 30, ce_pins = 0, ce_stamp = 2\<rparr>)], cp_evicted = {},
   cp_total_bytes = 70, cp_max_bytes = 100, cp_next_id = 3, cp_lru_clock = 2\<rparr>"
  by (simp add: demo_checkpoints_def demo_pool1 eval_pool)

theorem checkpoint_bytes_bounded_witness: "cp_total_bytes demo_checkpoints = 70 \<and> cp_total_bytes demo_checkpoints \<le> 100"
  using checkpoint_bytes_bounded [OF demo_checkpoints_reachable] by (simp add: demo_checkpoints)

text \<open>A third capture of 60 bytes evicts the oldest entry.\<close>

theorem capture_conserves_blobs_witness:
  "case cp_insert id demo_checkpoints demo_domain 256 5 60 of (p', i, ds) \<Rightarrow>
     i = 3 \<and> ds = [40] \<and> pool_blobs p' + mset ds = {#60, 40, 30#} \<and> peek p' demo_domain 256 5 = Some 60"
proof -
  obtain p' i ds where ins: "cp_insert id demo_checkpoints demo_domain 256 5 60 = (p', i, ds)" by (metis prod_cases3)
  have i: "i = 3" "ds = [40]" using ins by (simp_all add: demo_checkpoints eval_pool)
  show ?thesis
    using capture_conserves_blobs [OF demo_checkpoints_reachable _ ins] i
    by (simp add: ins u64_max_def checkpoint_is_some_def) (simp add: demo_checkpoints pool_blobs_def)
qed

theorem can_afford_exact_witness: "can_afford id demo_checkpoints (demo_domain, 256, 5) 60"
  using can_afford_exact [OF demo_checkpoints_reachable, of 60 256 demo_domain 5]
  by (simp add: demo_checkpoints eval_pool u64_max_def checkpoint_is_some_def)


end
