(* ===== verification/Byte_Arena.thy ===== *)
theory Byte_Arena
  imports Byte_Codec "HOL-Library.List_Lexorder"
begin

text \<open>
  The bounded byte arenas of \<^verbatim>\<open>crates/rdna-compute/src/byte_arena.rs\<close>: the next-fit layout of named
  members into roots, its validation, the lookup by name, and the ownership of the lazily allocated
  shadow roots. A \<^verbatim>\<open>String\<close> name is its UTF-8 bytes, compared lexicographically. The device is the
  record of its operations, over an arbitrary device state, root and error type: it is an argument
  of everything that calls it. An error value names the message it stands for.
\<close>

type_synonym name = "byte list"

definition MIN_ROOT_BYTES :: nat where
  "MIN_ROOT_BYTES = 256"

record arena_span =
  span_name :: name
  span_root :: nat
  span_offset :: nat
  span_bytes :: nat

record arena_plan =
  ap_roots :: "nat list"
  ap_members :: "arena_span list"
  ap_alignment :: nat
  ap_max_root_bytes :: nat

datatype arena_error =
    ZeroGranule
  | RoundOverflow nat nat
  | BadAlignment nat
  | EmptyName
  | DuplicateName name
  | MemberTooLarge name nat nat
  | OffsetOverflow name nat
  | LogicalOverflow
  | BackingOverflow
  | CapacityCount nat nat
  | CapacityDiffers nat nat nat
  | BackingDiffers nat nat
  | CapBelowMinimum nat
  | NotSorted name name
  | NoSuchRoot name nat nat
  | Misaligned name nat nat
  | RangeExceedsRoot name nat nat nat
  | RootOutside nat nat nat
  | NotCanonical
  | WeightArena arena_error
  | ShadowArena arena_error
  | NoWeightMember name
  | AlreadyInstalled
  | QuarantineHeld nat
  | PointerCount nat nat
  | NullPointer name
  | PointerBoundTwice nat name name

section \<open>Rounding\<close>

definition align_up :: "nat \<Rightarrow> nat \<Rightarrow> nat option" where
  "align_up value alignment =
     map_option (\<lambda>v. unat ((of_nat v :: u64) AND NOT (of_nat (alignment - 1)))) (checked_add64 value (alignment - 1))"

definition round_up_to_granule :: "nat \<Rightarrow> nat \<Rightarrow> arena_error + nat" where
  "round_up_to_granule bytes granule =
     (if granule = 0 then Err ZeroGranule
      else case checked_mul64 (div_ceil bytes granule) granule of
             None \<Rightarrow> Err (RoundOverflow bytes granule)
           | Some r \<Rightarrow> Ok r)"

text \<open>\<^verbatim>\<open>usize::is_power_of_two\<close>.\<close>

definition is_power_of_two :: "nat \<Rightarrow> bool" where
  "is_power_of_two n \<longleftrightarrow> list_ex (\<lambda>k. n = 2 ^ k) [0 ..< 64]"

definition check_alignment :: "nat \<Rightarrow> arena_error + unit" where
  "check_alignment alignment =
     (if alignment = 0 \<or> \<not> is_power_of_two alignment then Err (BadAlignment alignment) else Ok ())"

section \<open>The layout\<close>

text \<open>Where the current root would take the member, if there is one and it has room.\<close>

definition fitted :: "nat \<Rightarrow> nat \<Rightarrow> nat option \<Rightarrow> name \<Rightarrow> nat \<Rightarrow> arena_error + (nat \<times> nat) option" where
  "fitted alignment cap extent nm bytes =
     (case extent of
        None \<Rightarrow> Ok None
      | Some used \<Rightarrow>
          (case align_up used alignment of
             None \<Rightarrow> Err (OffsetOverflow nm used)
           | Some start \<Rightarrow>
               Ok (case checked_add64 start bytes of
                     None \<Rightarrow> None
                   | Some e \<Rightarrow> if e \<le> cap then Some (start, e) else None)))"

definition close_root :: "nat list \<Rightarrow> nat option \<Rightarrow> nat list" where
  "close_root roots extent = (case extent of None \<Rightarrow> roots | Some used \<Rightarrow> roots @ [max used MIN_ROOT_BYTES])"

fun place_members ::
  "nat \<Rightarrow> nat \<Rightarrow> (name \<times> nat) list \<Rightarrow> nat list \<Rightarrow> arena_span list \<Rightarrow> nat option
    \<Rightarrow> arena_error + nat list \<times> arena_span list \<times> nat option" where
  "place_members alignment cap [] roots spans extent = Ok (roots, spans, extent)"
| "place_members alignment cap ((nm, bytes) # rest) roots spans extent =
     (if bytes > cap then Err (MemberTooLarge nm bytes cap)
      else case fitted alignment cap extent nm bytes of
             Inl e \<Rightarrow> Err e
           | Inr fit \<Rightarrow>
               (let (roots, start, e) = (case fit of
                      Some (start, e) \<Rightarrow> (roots, start, e)
                    | None \<Rightarrow> (close_root roots extent, 0, bytes))
                in place_members alignment cap rest roots
                     (spans @ [\<lparr>span_name = nm, span_root = length roots, span_offset = start, span_bytes = bytes\<rparr>]) (Some e)))"

text \<open>\<^verbatim>\<open>members.windows(2)\<close> with two equal neighbours.\<close>

fun first_duplicate :: "(name \<times> nat) list \<Rightarrow> name option" where
  "first_duplicate (a # b # rest) = (if fst a = fst b then Some (fst a) else first_duplicate (b # rest))"
| "first_duplicate _ = None"

definition arena_new :: "(name \<times> nat) list \<Rightarrow> nat \<Rightarrow> nat \<Rightarrow> arena_error + arena_plan" where
  "arena_new members alignment max_root_bytes =
     (case check_alignment alignment of
        Inl e \<Rightarrow> Err e
      | Inr _ \<Rightarrow>
          (let cap = max max_root_bytes MIN_ROOT_BYTES;
               members = sort_key fst members
           in if list_ex (\<lambda>m. fst m = []) members then Err EmptyName
              else case first_duplicate members of
                Some n \<Rightarrow> Err (DuplicateName n)
              | None \<Rightarrow>
                  (case place_members alignment cap members [] [] None of
                     Inl e \<Rightarrow> Err e
                   | Inr (roots, spans, extent) \<Rightarrow>
                       Ok \<lparr>ap_roots = close_root roots extent, ap_members = spans, ap_alignment = alignment,
                           ap_max_root_bytes = cap\<rparr>)))"

text \<open>The loop of \<^verbatim>\<open>slice::binary_search_by\<close>: halve the window, keep the half that starts at or before the key.\<close>

function search_base :: "arena_span list \<Rightarrow> name \<Rightarrow> nat \<Rightarrow> nat \<Rightarrow> nat" where
  "search_base spans nm base sz =
     (if sz \<le> 1 then base
      else let half = sz div 2; mid = base + half
           in search_base spans nm (if span_name (spans ! mid) > nm then base else mid) (sz - half))"
  by pat_completeness auto
termination
  by (relation "measure (\<lambda>(_, _, _, sz). sz)") auto

declare search_base.simps [simp del]

definition arena_member :: "arena_plan \<Rightarrow> name \<Rightarrow> arena_span option" where
  "arena_member plan nm =
     (if ap_members plan = [] then None
      else let i = search_base (ap_members plan) nm 0 (length (ap_members plan))
           in if span_name (ap_members plan ! i) = nm then Some (ap_members plan ! i) else None)"

fun sum_bytes :: "arena_span list \<Rightarrow> nat \<Rightarrow> arena_error + nat" where
  "sum_bytes [] acc = Ok acc"
| "sum_bytes (s # rest) acc =
     (case checked_add64 acc (span_bytes s) of None \<Rightarrow> Err LogicalOverflow | Some acc \<Rightarrow> sum_bytes rest acc)"

definition logical_bytes :: "arena_plan \<Rightarrow> arena_error + nat" where
  "logical_bytes plan = sum_bytes (ap_members plan) 0"

fun sum_backing_from :: "nat list \<Rightarrow> nat \<Rightarrow> nat \<Rightarrow> arena_error + nat" where
  "sum_backing_from [] granule acc = Ok acc"
| "sum_backing_from (root # rest) granule acc =
     (case round_up_to_granule root granule of
        Inl e \<Rightarrow> Err e
      | Inr rounded \<Rightarrow>
          (case checked_add64 acc rounded of None \<Rightarrow> Err BackingOverflow | Some acc \<Rightarrow> sum_backing_from rest granule acc))"

definition sum_backing :: "nat list \<Rightarrow> nat \<Rightarrow> arena_error + nat" where
  "sum_backing roots granule = sum_backing_from roots granule 0"

definition backing_bytes :: "arena_plan \<Rightarrow> nat \<Rightarrow> arena_error + nat" where
  "backing_bytes plan granule = sum_backing (ap_roots plan) granule"

fun first_difference :: "nat \<Rightarrow> nat list \<Rightarrow> nat list \<Rightarrow> (nat \<times> nat \<times> nat) option" where
  "first_difference i (want # ws) (got # gs) = (if got \<noteq> want then Some (i, got, want) else first_difference (i + 1) ws gs)"
| "first_difference i _ _ = None"

definition validate_capacities :: "arena_plan \<Rightarrow> nat list \<Rightarrow> nat \<Rightarrow> arena_error + nat" where
  "validate_capacities plan actual granule =
     (if granule = 0 then Err ZeroGranule
      else if length actual \<noteq> length (ap_roots plan) then Err (CapacityCount (length actual) (length (ap_roots plan)))
      else case first_difference 0 (ap_roots plan) actual of
        Some (i, got, want) \<Rightarrow> Err (CapacityDiffers i got want)
      | None \<Rightarrow>
          (case sum_backing actual granule of
             Inl e \<Rightarrow> Err e
           | Inr backing \<Rightarrow>
               (case backing_bytes plan granule of
                  Inl e \<Rightarrow> Err e
                | Inr planned \<Rightarrow> if backing \<noteq> planned then Err (BackingDiffers backing planned) else Ok backing)))"

section \<open>Validation\<close>

fun check_sorted :: "arena_span list \<Rightarrow> arena_error + unit" where
  "check_sorted (a # b # rest) =
     (if span_name a \<ge> span_name b then Err (NotSorted (span_name a) (span_name b)) else check_sorted (b # rest))"
| "check_sorted _ = Ok ()"

definition check_span :: "arena_plan \<Rightarrow> arena_span \<Rightarrow> arena_error + unit" where
  "check_span plan s =
     (case vec_get (ap_roots plan) (span_root s) of
        None \<Rightarrow> Err (NoSuchRoot (span_name s) (span_root s) (length (ap_roots plan)))
      | Some root_bytes \<Rightarrow>
          if span_offset s mod ap_alignment plan \<noteq> 0 then Err (Misaligned (span_name s) (span_offset s) (ap_alignment plan))
          else case checked_add64 (span_offset s) (span_bytes s) of
            None \<Rightarrow> Err (RangeExceedsRoot (span_name s) (span_offset s) (span_bytes s) root_bytes)
          | Some e \<Rightarrow>
              if e \<le> root_bytes then Ok () else Err (RangeExceedsRoot (span_name s) (span_offset s) (span_bytes s) root_bytes))"

fun check_spans :: "arena_plan \<Rightarrow> arena_span list \<Rightarrow> arena_error + unit" where
  "check_spans plan [] = Ok ()"
| "check_spans plan (s # rest) = (case check_span plan s of Inl e \<Rightarrow> Err e | Inr _ \<Rightarrow> check_spans plan rest)"

fun check_roots :: "nat \<Rightarrow> nat \<Rightarrow> nat list \<Rightarrow> arena_error + unit" where
  "check_roots cap i [] = Ok ()"
| "check_roots cap i (r # rest) =
     (if r < MIN_ROOT_BYTES \<or> r > cap then Err (RootOutside i r cap) else check_roots cap (i + 1) rest)"

definition arena_validate :: "arena_plan \<Rightarrow> arena_error + unit" where
  "arena_validate plan =
     (case check_alignment (ap_alignment plan) of
        Inl e \<Rightarrow> Err e
      | Inr _ \<Rightarrow>
          if ap_max_root_bytes plan < MIN_ROOT_BYTES then Err (CapBelowMinimum (ap_max_root_bytes plan))
          else case check_sorted (ap_members plan) of
            Inl e \<Rightarrow> Err e
          | Inr _ \<Rightarrow>
              (case check_spans plan (ap_members plan) of
                 Inl e \<Rightarrow> Err e
               | Inr _ \<Rightarrow>
                   (case check_roots (ap_max_root_bytes plan) 0 (ap_roots plan) of
                      Inl e \<Rightarrow> Err e
                    | Inr _ \<Rightarrow>
                        (case arena_new (map (\<lambda>s. (span_name s, span_bytes s)) (ap_members plan)) (ap_alignment plan)
                                (ap_max_root_bytes plan) of
                           Inl e \<Rightarrow> Err e
                         | Inr canonical \<Rightarrow> if canonical \<noteq> plan then Err NotCanonical else Ok ()))))"

record model_arena_plan =
  mp_weights :: arena_plan
  mp_f16_shadows :: arena_plan
  mp_granule_bytes :: nat

definition model_validate :: "model_arena_plan \<Rightarrow> arena_error + unit" where
  "model_validate p =
     (if mp_granule_bytes p = 0 then Err ZeroGranule
      else case arena_validate (mp_weights p) of
        Inl e \<Rightarrow> Err (WeightArena e)
      | Inr _ \<Rightarrow>
          (case arena_validate (mp_f16_shadows p) of
             Inl e \<Rightarrow> Err (ShadowArena e)
           | Inr _ \<Rightarrow>
               (case find (\<lambda>s. arena_member (mp_weights p) (span_name s) = None) (ap_members (mp_f16_shadows p)) of
                  Some s \<Rightarrow> Err (NoWeightMember (span_name s))
                | None \<Rightarrow> Ok ())))"

section \<open>The device and the shadow roots\<close>

record ('d, 'r, 'e) exact_root_device =
  dev_alloc_exact :: "'d \<Rightarrow> nat \<Rightarrow> 'd \<times> ('e + 'r)"
  dev_is_owning :: "'r \<Rightarrow> bool"
  dev_capacity :: "'r \<Rightarrow> nat"
  dev_quiesce :: "'d \<Rightarrow> 'd \<times> ('e + unit)"
  dev_release :: "'d \<Rightarrow> 'r \<Rightarrow> 'd \<times> ('e + unit)"

datatype plan_refusal = NoArena | MemberOutOfRange nat | NeedsMoreThanSpan name nat nat | RootOutOfRange nat | IndexPanic

datatype 'e exact_alloc_error =
    AllocError 'e
  | CapacityMismatch nat nat "'e option"
  | NotOwning nat
  | PlanError plan_refusal

definition exact_alloc ::
  "('d, 'r, 'e) exact_root_device \<Rightarrow> 'd \<Rightarrow> nat \<Rightarrow> 'd \<times> ('e exact_alloc_error + 'r)" where
  "exact_alloc D d bytes =
     (let requested = max bytes MIN_ROOT_BYTES
      in case dev_alloc_exact D d requested of
           (d, Inl e) \<Rightarrow> (d, Err (AllocError e))
         | (d, Inr root) \<Rightarrow>
             if \<not> dev_is_owning D root then (d, Err (NotOwning requested))
             else
               let actual = dev_capacity D root
               in if actual \<noteq> requested then
                    (case dev_release D d root of
                       (d, Inl e) \<Rightarrow> (d, Err (CapacityMismatch requested actual (Some e)))
                     | (d, Inr _) \<Rightarrow> (d, Err (CapacityMismatch requested actual None)))
                  else (d, Ok root))"

record 'r shadow_root_set =
  srs_plan :: "model_arena_plan option"
  srs_source_ptrs :: "nat list"
  srs_by_ptr :: "(nat \<times> nat) list"
  srs_roots :: "'r option list"
  srs_quarantined :: "'r list"

definition srs_new :: "'r shadow_root_set" where
  "srs_new = \<lparr>srs_plan = None, srs_source_ptrs = [], srs_by_ptr = [], srs_roots = [], srs_quarantined = []\<rparr>"

fun bind_ptrs :: "arena_span list \<Rightarrow> nat \<Rightarrow> nat list \<Rightarrow> (nat \<times> nat) list \<Rightarrow> arena_error + (nat \<times> nat) list" where
  "bind_ptrs members i [] by_ptr = Ok by_ptr"
| "bind_ptrs members i (ptr # rest) by_ptr =
     (if ptr = 0 then Err (NullPointer (span_name (members ! i)))
      else case map_of by_ptr ptr of
        Some prev \<Rightarrow> Err (PointerBoundTwice ptr (span_name (members ! prev)) (span_name (members ! i)))
      | None \<Rightarrow> bind_ptrs members (i + 1) rest ((ptr, i) # by_ptr))"

definition srs_bind ::
  "'r shadow_root_set \<Rightarrow> model_arena_plan \<Rightarrow> nat list \<Rightarrow> 'r shadow_root_set \<times> (arena_error + unit)" where
  "srs_bind s plan source_ptrs =
     (if srs_plan s \<noteq> None then (s, Err AlreadyInstalled)
      else if srs_quarantined s \<noteq> [] then (s, Err (QuarantineHeld (length (srs_quarantined s))))
      else case model_validate plan of
        Inl e \<Rightarrow> (s, Err e)
      | Inr _ \<Rightarrow>
          (let members = ap_members (mp_f16_shadows plan)
           in if length source_ptrs \<noteq> length members then (s, Err (PointerCount (length source_ptrs) (length members)))
              else case bind_ptrs members 0 source_ptrs [] of
                Inl e \<Rightarrow> (s, Err e)
              | Inr by_ptr \<Rightarrow>
                  (s\<lparr>srs_roots := replicate (length (ap_roots (mp_f16_shadows plan))) None, srs_source_ptrs := source_ptrs,
                     srs_by_ptr := by_ptr, srs_plan := Some plan\<rparr>, Ok ())))"

definition srs_is_active :: "'r shadow_root_set \<Rightarrow> bool" where
  "srs_is_active s \<longleftrightarrow> srs_plan s \<noteq> None"

definition srs_lookup :: "'r shadow_root_set \<Rightarrow> nat \<Rightarrow> nat option" where
  "srs_lookup s ptr = map_of (srs_by_ptr s) ptr"

definition srs_span :: "'r shadow_root_set \<Rightarrow> nat \<Rightarrow> arena_span option" where
  "srs_span s member = Option.bind (srs_plan s) (\<lambda>p. vec_get (ap_members (mp_f16_shadows p)) member)"

definition srs_root :: "'r shadow_root_set \<Rightarrow> nat \<Rightarrow> 'r option" where
  "srs_root s index = Option.bind (vec_get (srs_roots s) index) id"

definition root_capacities :: "'r shadow_root_set \<Rightarrow> ('r \<Rightarrow> nat) \<Rightarrow> nat option list" where
  "root_capacities s capacity = map (map_option capacity) (srs_roots s)"

text \<open>\<^verbatim>\<open>self.roots.iter().flatten()\<close>.\<close>

definition live_list :: "'r option list \<Rightarrow> 'r list" where
  "live_list roots = List.map_filter id roots"

definition live_roots :: "'r shadow_root_set \<Rightarrow> nat" where
  "live_roots s = length (live_list (srs_roots s))"

definition quarantined_roots :: "'r shadow_root_set \<Rightarrow> nat" where
  "quarantined_roots s = length (srs_quarantined s)"

definition ensure_member ::
  "('d, 'r, 'e) exact_root_device \<Rightarrow> 'r shadow_root_set \<Rightarrow> 'd \<Rightarrow> nat \<Rightarrow> nat
    \<Rightarrow> 'r shadow_root_set \<times> 'd \<times> ('e exact_alloc_error + 'r \<times> nat)" where
  "ensure_member D s d member need_bytes =
     (case srs_plan s of
        None \<Rightarrow> (s, d, Err (PlanError NoArena))
      | Some plan \<Rightarrow>
          (case vec_get (ap_members (mp_f16_shadows plan)) member of
             None \<Rightarrow> (s, d, Err (PlanError (MemberOutOfRange member)))
           | Some span \<Rightarrow>
               if need_bytes > span_bytes span
               then (s, d, Err (PlanError (NeedsMoreThanSpan (span_name span) need_bytes (span_bytes span))))
               else
                 (case vec_get (ap_roots (mp_f16_shadows plan)) (span_root span) of
                    None \<Rightarrow> (s, d, Err (PlanError (RootOutOfRange (span_root span))))
                  | Some request \<Rightarrow>
                      (case vec_get (srs_roots s) (span_root span) of
                         None \<Rightarrow> (s, d, Err (PlanError IndexPanic))
                       | Some (Some root) \<Rightarrow> (s, d, Ok (root, span_offset span))
                       | Some None \<Rightarrow>
                           (case exact_alloc D d request of
                              (d, Inl e) \<Rightarrow> (s, d, Err e)
                            | (d, Inr root) \<Rightarrow>
                                (s\<lparr>srs_roots := (srs_roots s)[span_root span := Some root]\<rparr>, d, Ok (root, span_offset span)))))))"

text \<open>The loop over the drained roots: how many were released, and the errors of the others.\<close>

fun release_all ::
  "('d, 'r, 'e) exact_root_device \<Rightarrow> 'd \<Rightarrow> 'r list \<Rightarrow> 'd \<times> nat \<times> 'e list" where
  "release_all D d [] = (d, 0, [])"
| "release_all D d (r # rs) =
     (case dev_release D d r of
        (d, res) \<Rightarrow>
          (case release_all D d rs of
             (d, released, errors) \<Rightarrow>
               (case res of Inl e \<Rightarrow> (d, released, e # errors) | Inr _ \<Rightarrow> (d, released + 1, errors))))"

datatype 'e release_error = QuiesceFailed 'e nat | ReleaseFailed nat nat "'e list"

definition srs_release ::
  "('d, 'r, 'e) exact_root_device \<Rightarrow> 'r shadow_root_set \<Rightarrow> 'd \<Rightarrow> 'r shadow_root_set \<times> 'd \<times> ('e release_error + nat)" where
  "srs_release D s d =
     (let s = s\<lparr>srs_plan := None, srs_source_ptrs := [], srs_by_ptr := [], srs_roots := [],
                srs_quarantined := srs_quarantined s @ live_list (srs_roots s)\<rparr>
      in if srs_quarantined s = [] then (s, d, Ok 0)
         else case dev_quiesce D d of
           (d, Inl e) \<Rightarrow> (s, d, Err (QuiesceFailed e (length (srs_quarantined s))))
         | (d, Inr _) \<Rightarrow>
             (case release_all D d (srs_quarantined s) of
                (d, released, errors) \<Rightarrow>
                  (s\<lparr>srs_quarantined := []\<rparr>, d,
                   if errors = [] then Ok released
                   else Err (ReleaseFailed (length errors) (length errors + released) errors))))"

definition clear_shadow_arena ::
  "('d, 'r, 'e) exact_root_device \<Rightarrow> ('v \<Rightarrow> bool) \<Rightarrow> (nat \<times> 'v) list \<Rightarrow> 'r shadow_root_set \<Rightarrow> 'd
    \<Rightarrow> (nat \<times> 'v) list \<times> 'r shadow_root_set \<times> 'd \<times> ('e release_error + nat)" where
  "clear_shadow_arena D is_view cache s d = (filter (\<lambda>(_, v). \<not> is_view v) cache, srs_release D s d)"

text \<open>The callback acts on the caller's value caches.\<close>

definition invalidate_weight_source ::
  "('d, 'r, 'e) exact_root_device \<Rightarrow> (nat \<times> 'v) list \<Rightarrow> 'r shadow_root_set \<Rightarrow> 'd \<Rightarrow> nat \<Rightarrow> ('c \<Rightarrow> 'c) \<Rightarrow> 'c
    \<Rightarrow> (nat \<times> 'v) list \<times> 'd \<times> 'c \<times> ('e + 'v option option)" where
  "invalidate_weight_source D cache s d source_ptr forget_value_caches c =
     (if \<not> srs_is_active s then (cache, d, c, Ok None)
      else case dev_quiesce D d of
        (d, Inl e) \<Rightarrow> (cache, d, c, Err e)
      | (d, Inr _) \<Rightarrow>
          (AList.delete source_ptr cache, d, forget_value_caches c, Ok (Some (map_of cache source_ptr))))"

end
