(* ===== verification/Byte_Arena_Props.thy ===== *)
theory Byte_Arena_Props
  imports Byte_Arena
begin

text \<open>
  The next-fit layout places every member once, aligned, inside a bounded root and clear of the others;
  validation accepts exactly the layouts the planner builds; and the shadow roots are neither leaked
  nor freed twice, whatever the device answers.
\<close>

section \<open>Rounding to a power of two\<close>

lemma is_power_of_two_iff: "is_power_of_two n \<longleftrightarrow> (\<exists>k < 64. n = 2 ^ k)"
  by (auto simp: is_power_of_two_def list_ex_iff)

lemma mask_off_low_bits:
  fixes w :: u64
  assumes "k < 64"
  shows "unat (w AND NOT (mask k)) = unat w div 2 ^ k * 2 ^ k"
proof -
  have "w AND NOT (mask k) = push_bit k (drop_bit k w)"
    by (rule bit_word_eqI) (auto simp: bit_simps)
  moreover have "unat (push_bit k (drop_bit k w)) = take_bit 64 (push_bit k (drop_bit k (unat w)))"
    by (simp add: unsigned_push_bit_eq unsigned_drop_bit_eq take_bit_nat_eq_self [OF unat64_less [of w]])
  moreover have "push_bit k (drop_bit k (unat w)) < 2 ^ 64"
    unfolding push_bit_eq_mult drop_bit_eq_div by (rule le_less_trans [OF div_times_less_eq_dividend unat64_less])
  ultimately show ?thesis by (simp add: push_bit_eq_mult drop_bit_eq_div take_bit_nat_eq_self)
qed

lemma align_up_Some:
  assumes "is_power_of_two a" "align_up v a = Some s"
  shows "v \<le> s \<and> s < v + a \<and> s mod a = 0"
proof -
  obtain k where k: "k < 64" "a = 2 ^ k" using assms(1) by (auto simp: is_power_of_two_iff)
  let ?n = "v + (a - 1)"
  have n: "?n \<le> u64_max" and s: "s = unat ((of_nat ?n :: u64) AND NOT (of_nat (a - 1)))"
    using assms(2) by (auto simp: align_up_def checked_add64_def split: if_splits)
  have "(of_nat (a - 1) :: u64) = mask k" by (simp add: k(2) mask_eq_exp_minus_1 of_nat_diff)
  moreover have "unat (of_nat m :: u64) = m" if "m \<le> u64_max" for m
    using that by (simp add: unat_of_nat u64_max_def)
  then have "unat (of_nat ?n :: u64) = ?n" using n by blast
  ultimately have s: "s = ?n div a * a" using s mask_off_low_bits [OF k(1)] k(2) by simp
  have "0 < a" using k by simp
  then have "?n = s + ?n mod a" "?n mod a < a" by (simp_all only: s div_mult_mod_eq mod_less_divisor)
  moreover have "s mod a = 0" by (simp add: s)
  ultimately show ?thesis using \<open>0 < a\<close> by linarith
qed

section \<open>The layout\<close>

definition before :: "arena_span \<Rightarrow> arena_span \<Rightarrow> bool" where
  "before s t \<longleftrightarrow> span_root s < span_root t \<or> span_root s = span_root t \<and> span_offset s + span_bytes s \<le> span_offset t"

definition in_closed :: "nat list \<Rightarrow> arena_span \<Rightarrow> bool" where
  "in_closed roots s \<longleftrightarrow> span_root s < length roots \<and> span_offset s + span_bytes s \<le> roots ! span_root s"

definition in_open :: "nat list \<Rightarrow> nat option \<Rightarrow> arena_span \<Rightarrow> bool" where
  "in_open roots extent s \<longleftrightarrow>
     span_root s = length roots \<and> (\<exists>u. extent = Some u \<and> span_offset s + span_bytes s \<le> u)"

definition layout_ok :: "nat \<Rightarrow> nat \<Rightarrow> nat list \<Rightarrow> arena_span list \<Rightarrow> nat option \<Rightarrow> bool" where
  "layout_ok a cap roots spans extent \<longleftrightarrow>
     (\<forall>s \<in> set spans. span_offset s mod a = 0 \<and> (in_closed roots s \<or> in_open roots extent s))
     \<and> sorted_wrt before spans \<and> (\<forall>r \<in> set roots. MIN_ROOT_BYTES \<le> r \<and> r \<le> cap)
     \<and> (\<forall>u. extent = Some u \<longrightarrow> u \<le> cap)"

lemma in_closed_append: "in_closed roots s \<Longrightarrow> in_closed (roots @ rs) s"
  by (auto simp: in_closed_def nth_append)

lemma close_root_in:
  "in_closed roots s \<or> in_open roots extent s \<Longrightarrow> in_closed (close_root roots extent) s"
  by (auto simp: close_root_def in_open_def in_closed_def nth_append split: option.splits)

lemma close_root_bounds:
  assumes "layout_ok a cap roots spans extent" "MIN_ROOT_BYTES \<le> cap"
  shows "\<forall>r \<in> set (close_root roots extent). MIN_ROOT_BYTES \<le> r \<and> r \<le> cap"
  using assms by (auto simp: layout_ok_def close_root_def split: option.splits)

lemma layout_open_new:
  assumes ok: "layout_ok a cap roots spans extent" and cap: "MIN_ROOT_BYTES \<le> cap" "bytes \<le> cap"
  defines "rs \<equiv> close_root roots extent"
  shows "layout_ok a cap rs (spans @ [\<lparr>span_name = nm, span_root = length rs, span_offset = 0, span_bytes = bytes\<rparr>]) (Some bytes)"
proof -
  have c: "in_closed rs s" if "s \<in> set spans" for s
    using ok that close_root_in unfolding layout_ok_def rs_def by blast
  then have "before s t" if "s \<in> set spans" "span_root t = length rs" for s t
    using that by (auto simp: before_def in_closed_def)
  then show ?thesis
    using ok c cap close_root_bounds [OF ok cap(1)] unfolding layout_ok_def rs_def
    by (auto simp: sorted_wrt_append in_open_def)
qed

lemma layout_extend:
  assumes ok: "layout_ok a cap roots spans (Some u)" and s: "u \<le> start" "start mod a = 0" "start + bytes \<le> cap"
  shows "layout_ok a cap roots (spans @ [\<lparr>span_name = nm, span_root = length roots, span_offset = start, span_bytes = bytes\<rparr>])
    (Some (start + bytes))"
proof -
  let ?t = "\<lparr>span_name = nm, span_root = length roots, span_offset = start, span_bytes = bytes\<rparr>"
  have p: "in_closed roots x \<or> in_open roots (Some u) x" "span_offset x mod a = 0" if "x \<in> set spans" for x
    using ok that unfolding layout_ok_def by blast+
  have "before x ?t" if "x \<in> set spans" for x
    using p(1) [OF that] s(1) by (auto simp: before_def in_closed_def in_open_def)
  moreover have "in_closed roots x \<or> in_open roots (Some (start + bytes)) x" if "x \<in> set spans" for x
    using p(1) [OF that] s(1) by (auto simp: in_open_def)
  ultimately show ?thesis
    using ok p(2) s unfolding layout_ok_def by (auto simp: sorted_wrt_append in_open_def)
qed

lemma place_members_ok:
  assumes "place_members a cap ms roots spans extent = Ok (roots', spans', extent')"
    and "layout_ok a cap roots spans extent" "is_power_of_two a" "MIN_ROOT_BYTES \<le> cap"
  shows "layout_ok a cap roots' spans' extent'
    \<and> map (\<lambda>s. (span_name s, span_bytes s)) spans' = map (\<lambda>s. (span_name s, span_bytes s)) spans @ ms"
  using assms(1,2)
proof (induction ms arbitrary: roots spans extent)
  case Nil
  then show ?case by simp
next
  case (Cons m ms)
  obtain nm bytes where m: "m = (nm, bytes)" by fastforce
  let ?new = "\<lambda>r st. \<lparr>span_name = nm, span_root = length r, span_offset = st, span_bytes = bytes\<rparr>"
  have cap: "bytes \<le> cap" using Cons.prems(1) by (simp add: m split: if_splits)
  then obtain fit where f: "fitted a cap extent nm bytes = Ok fit"
    using Cons.prems(1) by (auto simp: m split: sum.splits)
  show ?case
  proof (cases fit)
    case None
    then show ?thesis
      using Cons.IH [of "close_root roots extent" "spans @ [?new (close_root roots extent) 0]" "Some bytes"]
        layout_open_new [OF Cons.prems(2) assms(4) cap] Cons.prems(1) cap f by (simp add: m)
  next
    case (Some p)
    then obtain u start where u: "extent = Some u" "align_up u a = Some start" "p = (start, start + bytes)" "start + bytes \<le> cap"
      using f by (auto simp: fitted_def checked_Some split: option.splits if_splits)
    have "layout_ok a cap roots (spans @ [?new roots start]) (Some (start + bytes))"
      using layout_extend [of a cap roots spans u start bytes nm] Cons.prems(2) align_up_Some [OF assms(3) u(2)] u by simp
    then show ?thesis
      using Cons.IH [of roots "spans @ [?new roots start]" "Some (start + bytes)"] Cons.prems(1) cap f Some u(3) by (simp add: m)
  qed
qed

section \<open>Names\<close>

lemma first_duplicate_None:
  "sorted (map fst ms) \<Longrightarrow> first_duplicate ms = None \<Longrightarrow> sorted_wrt (<) (map fst ms)"
proof (induction ms rule: first_duplicate.induct)
  case (1 a b rest)
  then have "fst a < fst b" by (simp split: if_splits)
  then show ?case using 1 by (auto split: if_splits intro: less_le_trans)
qed simp_all

lemma check_sorted_iff: "check_sorted spans = Ok () \<longleftrightarrow> sorted_wrt (<) (map span_name spans)"
proof (induction spans rule: check_sorted.induct)
  case (1 a b rest)
  then show ?case by (auto simp: not_le)
qed simp_all

text \<open>The window of the binary search always holds the name, if the list does.\<close>

lemma search_base_spec:
  assumes "sorted_wrt (<) (map span_name spans)" "0 < sz" "base + sz \<le> length spans"
  shows "base \<le> search_base spans nm base sz \<and> search_base spans nm base sz < base + sz
    \<and> (\<forall>j. base \<le> j \<longrightarrow> j < base + sz \<longrightarrow> span_name (spans ! j) = nm \<longrightarrow> search_base spans nm base sz = j)"
  using assms
proof (induction spans nm base sz rule: search_base.induct)
  case (1 spans nm base sz)
  show ?case
  proof (cases "sz \<le> 1")
    case True
    then show ?thesis using "1.prems" by (simp add: search_base.simps [of spans nm base sz])
  next
    case False
    define half where "half = sz div 2"
    define b where "b = (if span_name (spans ! (base + half)) > nm then base else base + half)"
    have eq: "search_base spans nm base sz = search_base spans nm b (sz - half)"
      using False by (simp add: search_base.simps [of spans nm base sz] Let_def half_def b_def)
    have h: "0 < half" "half \<le> sz - half" "half < sz" using False by (auto simp: half_def)
    have lt: "span_name (spans ! i) < span_name (spans ! j)" if "i < j" "j < length spans" for i j
      using sorted_wrt_nth_less [OF "1.prems"(1), of i j] that by simp
    have win: "base \<le> b" "b + (sz - half) \<le> base + sz" using h by (auto simp: b_def)
    have keep: "b \<le> j \<and> j < b + (sz - half)" if j: "base \<le> j" "j < base + sz" "span_name (spans ! j) = nm" for j
    proof (cases "span_name (spans ! (base + half)) > nm")
      case True
      then have "j < base + half" using lt [of "base + half" j] j "1.prems"(3) h by (metis less_asym linorder_neqE_nat order_less_le_trans)
      then show ?thesis using True j(1) h by (simp add: b_def)
    next
      case False
      then have "base + half \<le> j" using lt [of j "base + half"] j "1.prems"(3) h by (metis add_less_cancel_left not_le order_less_le_trans)
      then show ?thesis using False j(2) h by (simp add: b_def)
    qed
    have IH: "b \<le> search_base spans nm b (sz - half) \<and> search_base spans nm b (sz - half) < b + (sz - half)
      \<and> (\<forall>j. b \<le> j \<longrightarrow> j < b + (sz - half) \<longrightarrow> span_name (spans ! j) = nm \<longrightarrow> search_base spans nm b (sz - half) = j)"
      using "1.IH" [OF False half_def _ "1.prems"(1), of "base + half"] h win "1.prems"(3) by (simp add: b_def)
    show ?thesis unfolding eq using IH win keep by (metis le_trans order_less_le_trans)
  qed
qed

lemma arena_member_iff:
  assumes "sorted_wrt (<) (map span_name (ap_members plan))"
  shows "arena_member plan nm = Some s \<longleftrightarrow> s \<in> set (ap_members plan) \<and> span_name s = nm"
proof (cases "ap_members plan = []")
  case True
  then show ?thesis by (simp add: arena_member_def)
next
  case False
  define i where "i = search_base (ap_members plan) nm 0 (length (ap_members plan))"
  have i: "i < length (ap_members plan)"
    "\<And>j. j < length (ap_members plan) \<Longrightarrow> span_name (ap_members plan ! j) = nm \<Longrightarrow> i = j"
    using search_base_spec [OF assms, of "length (ap_members plan)" 0 nm] False by (auto simp: i_def)
  have m: "arena_member plan nm = (if span_name (ap_members plan ! i) = nm then Some (ap_members plan ! i) else None)"
    using False by (simp add: arena_member_def Let_def i_def)
  show ?thesis
  proof
    assume "arena_member plan nm = Some s"
    then show "s \<in> set (ap_members plan) \<and> span_name s = nm" using i(1) nth_mem by (auto simp: m split: if_splits)
  next
    assume "s \<in> set (ap_members plan) \<and> span_name s = nm"
    then obtain j where "j < length (ap_members plan)" "ap_members plan ! j = s" "span_name s = nm"
      by (auto simp: in_set_conv_nth)
    then show "arena_member plan nm = Some s" using i(2) [of j] by (simp add: m)
  qed
qed

section \<open>What the planner builds\<close>

definition named_bytes :: "arena_span \<Rightarrow> name \<times> nat" where
  "named_bytes s = (span_name s, span_bytes s)"

definition plan_sound :: "arena_plan \<Rightarrow> bool" where
  "plan_sound plan \<longleftrightarrow>
     is_power_of_two (ap_alignment plan) \<and> MIN_ROOT_BYTES \<le> ap_max_root_bytes plan
     \<and> sorted_wrt (<) (map span_name (ap_members plan)) \<and> sorted_wrt before (ap_members plan)
     \<and> (\<forall>s \<in> set (ap_members plan). span_offset s mod ap_alignment plan = 0 \<and> in_closed (ap_roots plan) s)
     \<and> (\<forall>r \<in> set (ap_roots plan). MIN_ROOT_BYTES \<le> r \<and> r \<le> ap_max_root_bytes plan)"

lemma check_alignment_iff: "check_alignment a = Ok () \<longleftrightarrow> is_power_of_two a"
  by (auto simp: check_alignment_def is_power_of_two_iff)

lemma arena_new_Ok:
  assumes "arena_new ms a c = Ok plan"
  shows "plan_sound plan" "map named_bytes (ap_members plan) = sort_key fst ms"
    "ap_alignment plan = a" "ap_max_root_bytes plan = max c MIN_ROOT_BYTES"
proof -
  let ?cap = "max c MIN_ROOT_BYTES"
  obtain roots spans extent where a: "is_power_of_two a" and d: "first_duplicate (sort_key fst ms) = None"
    and p: "place_members a ?cap (sort_key fst ms) [] [] None = Ok (roots, spans, extent)"
    and plan: "plan = \<lparr>ap_roots = close_root roots extent, ap_members = spans, ap_alignment = a, ap_max_root_bytes = ?cap\<rparr>"
    using assms by (auto simp: arena_new_def Let_def check_alignment_def split: sum.splits option.splits if_splits prod.splits)
  have ok: "layout_ok a ?cap roots spans extent" and nb: "map named_bytes spans = sort_key fst ms"
    using place_members_ok [OF p _ a] by (simp_all add: layout_ok_def named_bytes_def [abs_def])
  have "map span_name spans = map fst (sort_key fst ms)" by (simp add: nb [symmetric] named_bytes_def)
  then have "sorted_wrt (<) (map span_name spans)" using first_duplicate_None [OF _ d] by simp
  moreover have "\<forall>r \<in> set (close_root roots extent). MIN_ROOT_BYTES \<le> r \<and> r \<le> ?cap"
    by (rule close_root_bounds [OF ok]) simp
  ultimately show "plan_sound plan" using a ok close_root_in unfolding plan plan_sound_def layout_ok_def by auto
  show "map named_bytes (ap_members plan) = sort_key fst ms" "ap_alignment plan = a" "ap_max_root_bytes plan = ?cap"
    by (simp_all add: plan nb)
qed

lemma before_disjoint:
  assumes "sorted_wrt before xs" "s \<in> set xs" "t \<in> set xs" "s \<noteq> t" "span_root s = span_root t"
  shows "span_offset s + span_bytes s \<le> span_offset t \<or> span_offset t + span_bytes t \<le> span_offset s"
proof -
  obtain i j where "i < length xs" "xs ! i = s" "j < length xs" "xs ! j = t" using assms by (auto simp: in_set_conv_nth)
  moreover from this assms(4) have "i < j \<or> j < i" by (metis linorder_neqE_nat)
  ultimately have "before s t \<or> before t s" using sorted_wrt_nth_less [OF assms(1)] by metis
  then show ?thesis using assms(5) by (auto simp: before_def)
qed

lemma place_members_total:
  assumes "cap + a \<le> u64_max" "\<forall>m \<in> set ms. snd m \<le> cap" "\<forall>u. extent = Some u \<longrightarrow> u \<le> cap"
  shows "\<exists>res. place_members a cap ms roots spans extent = Ok res"
  using assms(2,3)
proof (induction ms arbitrary: roots spans extent)
  case (Cons m ms)
  obtain nm bytes where m: "m = (nm, bytes)" by fastforce
  have "align_up u a \<noteq> None" if "extent = Some u" for u
    using Cons.prems(2) that assms(1) by (auto simp: align_up_def checked_add64_def)
  then obtain fit where f: "fitted a cap extent nm bytes = Ok fit" "\<And>st e. fit = Some (st, e) \<Longrightarrow> e \<le> cap"
    by (fastforce simp: fitted_def split: option.splits if_splits)
  show ?case
    using Cons.prems f(2) Cons.IH by (auto simp: m f(1) split: option.split)
qed simp

lemma place_members_small: "place_members a cap ms roots spans extent = Ok res \<Longrightarrow> \<forall>m \<in> set ms. snd m \<le> cap"
  by (induction a cap ms roots spans extent rule: place_members.induct)
    (auto simp: Let_def split: if_splits sum.splits option.splits prod.splits)

lemma first_duplicate_distinct:
  "sorted (map fst ms) \<Longrightarrow> first_duplicate ms = None \<longleftrightarrow> distinct (map fst ms)"
proof
  show "first_duplicate ms = None" if "distinct (map fst ms)"
    using that by (induction ms rule: first_duplicate.induct) auto
qed (use first_duplicate_None strict_sorted_iff in blast)

lemma arena_new_accepts_iff:
  assumes "max c MIN_ROOT_BYTES + a \<le> u64_max"
  shows "(\<exists>plan. arena_new ms a c = Ok plan) \<longleftrightarrow>
    is_power_of_two a \<and> [] \<notin> fst ` set ms \<and> distinct (map fst ms) \<and> (\<forall>m \<in> set ms. snd m \<le> max c MIN_ROOT_BYTES)"
    (is "?ok \<longleftrightarrow> _ \<and> _ \<and> _ \<and> ?small")
proof -
  let ?cap = "max c MIN_ROOT_BYTES" and ?s = "sort_key fst ms"
  have "(\<exists>res. place_members a ?cap ?s [] [] None = Ok res) \<longleftrightarrow> (\<forall>m \<in> set ?s. snd m \<le> ?cap)"
    by (metis place_members_total [OF assms] place_members_small option.distinct(1))
  moreover have "first_duplicate ?s = None \<longleftrightarrow> distinct (map fst ms)"
    using first_duplicate_distinct [of ?s] by (metis distinct_map distinct_sort set_sort sorted_sort_key)
  moreover have "list_ex (\<lambda>m. fst m = []) ?s \<longleftrightarrow> [] \<in> fst ` set ms" by (force simp: list_ex_iff)
  moreover have "?ok \<longleftrightarrow> check_alignment a = Ok () \<and> \<not> list_ex (\<lambda>m. fst m = []) ?s \<and> first_duplicate ?s = None
    \<and> (\<exists>res. place_members a ?cap ?s [] [] None = Ok res)"
    by (auto simp: arena_new_def Let_def split: sum.split option.split)
  ultimately show ?thesis by (simp add: check_alignment_iff)
qed

section \<open>What validation accepts\<close>

lemma arena_new_again:
  assumes "arena_new ms a c = Ok plan"
  shows "arena_new (map named_bytes (ap_members plan)) (ap_alignment plan) (ap_max_root_bytes plan) = Ok plan"
proof -
  have e: "sort_key fst (sort_key fst ms) = sort_key fst ms" "max (max c MIN_ROOT_BYTES) MIN_ROOT_BYTES = max c MIN_ROOT_BYTES"
    by (simp_all add: sort_key_id_if_sorted)
  show ?thesis using assms unfolding arena_new_Ok(2-4) [OF assms] arena_new_def e .
qed

lemma check_spans_iff: "check_spans plan spans = Ok () \<longleftrightarrow> (\<forall>s \<in> set spans. check_span plan s = Ok ())"
  by (induction spans) (auto split: sum.split)

lemma check_roots_iff: "check_roots cap i rs = Ok () \<longleftrightarrow> (\<forall>r \<in> set rs. MIN_ROOT_BYTES \<le> r \<and> r \<le> cap)"
  by (induction rs arbitrary: i) auto

lemma plan_sound_checks:
  assumes "plan_sound plan" "ap_max_root_bytes plan \<le> u64_max"
  shows "check_sorted (ap_members plan) = Ok ()" "check_spans plan (ap_members plan) = Ok ()"
    "check_roots (ap_max_root_bytes plan) 0 (ap_roots plan) = Ok ()"
proof -
  have "check_span plan s = Ok ()" if "s \<in> set (ap_members plan)" for s
  proof -
    have s: "span_offset s mod ap_alignment plan = 0" "span_root s < length (ap_roots plan)"
      "span_offset s + span_bytes s \<le> ap_roots plan ! span_root s"
      using assms(1) that by (auto simp: plan_sound_def in_closed_def)
    moreover have "ap_roots plan ! span_root s \<le> ap_max_root_bytes plan"
      using assms(1) s(2) nth_mem by (auto simp: plan_sound_def)
    ultimately show ?thesis using assms(2) by (simp add: check_span_def vec_get_def checked_add64_def)
  qed
  then show "check_spans plan (ap_members plan) = Ok ()" by (simp add: check_spans_iff)
qed (use assms(1) in \<open>simp_all add: plan_sound_def check_sorted_iff check_roots_iff\<close>)

lemma arena_validate_iff:
  assumes "ap_max_root_bytes plan \<le> u64_max"
  shows "arena_validate plan = Ok () \<longleftrightarrow> (\<exists>ms a c. arena_new ms a c = Ok plan)"
proof
  assume "arena_validate plan = Ok ()"
  then show "\<exists>ms a c. arena_new ms a c = Ok plan"
    by (auto simp: arena_validate_def split: sum.splits if_splits)
next
  assume "\<exists>ms a c. arena_new ms a c = Ok plan"
  then obtain ms a c where n: "arena_new ms a c = Ok plan" by blast
  have "check_alignment (ap_alignment plan) = Ok ()" "MIN_ROOT_BYTES \<le> ap_max_root_bytes plan"
    using arena_new_Ok(1) [OF n] by (simp_all add: plan_sound_def check_alignment_iff)
  then show "arena_validate plan = Ok ()"
    using plan_sound_checks [OF arena_new_Ok(1) [OF n] assms] arena_new_again [OF n]
    by (simp add: arena_validate_def named_bytes_def [abs_def])
qed

section \<open>Properties\<close>

text \<open>Evaluating the planner on concrete members: the names are compared byte by byte.\<close>

lemmas eval_arena = arena_new_def check_alignment_def is_power_of_two_def upt_rec fitted_def close_root_def align_up_def
  checked_add64_def MIN_ROOT_BYTES_def u64_max_def

text \<open>
  C14: A layout the planner returns holds exactly the requested members, each under its own name, at an
  aligned offset and wholly inside an existing root; no two members of a root overlap; every root is between
  the minimum and the cap; and the binary search finds each member by name and nothing else.
\<close>

theorem arena_layout_sound:
  assumes "arena_new members alignment max_root_bytes = Ok plan"
  shows "mset (map (\<lambda>s. (span_name s, span_bytes s)) (ap_members plan)) = mset members \<and> distinct (map fst members)
    \<and> (\<forall>s \<in> set (ap_members plan). span_root s < length (ap_roots plan) \<and> span_offset s mod alignment = 0
         \<and> span_offset s + span_bytes s \<le> ap_roots plan ! span_root s)
    \<and> (\<forall>s \<in> set (ap_members plan). \<forall>t \<in> set (ap_members plan). s \<noteq> t \<longrightarrow> span_root s = span_root t \<longrightarrow>
         span_offset s + span_bytes s \<le> span_offset t \<or> span_offset t + span_bytes t \<le> span_offset s)
    \<and> (\<forall>r \<in> set (ap_roots plan). MIN_ROOT_BYTES \<le> r \<and> r \<le> max max_root_bytes MIN_ROOT_BYTES)
    \<and> (\<forall>nm s. arena_member plan nm = Some s \<longleftrightarrow> s \<in> set (ap_members plan) \<and> span_name s = nm)"
proof -
  note n = arena_new_Ok [OF assms]
  have "mset (map named_bytes (ap_members plan)) = mset members" by (simp add: n(2))
  moreover have "distinct (map fst members)"
  proof -
    have "map span_name (ap_members plan) = map fst (sort_key fst members)" by (simp add: n(2) [symmetric] named_bytes_def)
    then have "distinct (map fst (sort_key fst members))" using n(1) by (simp add: plan_sound_def strict_sorted_iff)
    then show ?thesis by (metis distinct_map distinct_sort set_sort)
  qed
  ultimately show ?thesis
    using n(1) arena_member_iff [of plan] before_disjoint [of "ap_members plan"]
    by (simp add: plan_sound_def in_closed_def n(3,4) named_bytes_def [abs_def])
qed

theorem arena_layout_sound_witness:
  "\<exists>plan. arena_new [([98], 100), ([97], 300), ([99], 400)] 256 800 = Ok plan \<and> ap_roots plan = [612, 400]
     \<and> (\<forall>nm s. arena_member plan nm = Some s \<longleftrightarrow> s \<in> set (ap_members plan) \<and> span_name s = nm)"
proof -
  define plan where "plan = \<lparr>ap_roots = [612, 400],
    ap_members = [\<lparr>span_name = [97], span_root = 0, span_offset = 0, span_bytes = 300\<rparr>,
      \<lparr>span_name = [98], span_root = 0, span_offset = 512, span_bytes = 100\<rparr>,
      \<lparr>span_name = [99], span_root = 1, span_offset = 0, span_bytes = 400\<rparr>],
    ap_alignment = 256, ap_max_root_bytes = 800\<rparr>"
  have "arena_new [([98], 100), ([97], 300), ([99], 400)] 256 800 = Ok plan"
    by (simp add: eval_arena plan_def)
  then show ?thesis using arena_layout_sound [of "[([98], 100), ([97], 300), ([99], 400)]" 256 800 plan] by (simp add: plan_def)
qed

text \<open>
  C39: Unless the cap and the alignment together overflow, the planner refuses exactly a bad alignment, an empty
  or repeated name and a member over the cap: whatever else is asked for is laid out.
\<close>

theorem arena_new_refusals:
  assumes "max max_root_bytes MIN_ROOT_BYTES + alignment \<le> u64_max"
  shows "(\<exists>plan. arena_new members alignment max_root_bytes = Ok plan) \<longleftrightarrow>
    is_power_of_two alignment \<and> [] \<notin> fst ` set members \<and> distinct (map fst members)
    \<and> (\<forall>m \<in> set members. snd m \<le> max max_root_bytes MIN_ROOT_BYTES)"
  by (rule arena_new_accepts_iff [OF assms])

theorem arena_new_refusals_witness:
  "max 100 MIN_ROOT_BYTES + 16 \<le> u64_max \<and> (\<exists>plan. arena_new [([1], 256), ([2], 7)] 16 100 = Ok plan)
    \<and> \<not> (\<exists>plan. arena_new [([1], 257), ([2], 7)] 16 100 = Ok plan)"
  using arena_new_refusals [of 100 16 "[([1], 256), ([2], 7)]"] arena_new_refusals [of 100 16 "[([1], 257), ([2], 7)]"]
  by (simp add: MIN_ROOT_BYTES_def u64_max_def is_power_of_two_def upt_rec)

text \<open>
  C17: Validation is exact. A plan whose cap fits a machine word passes it if and only if it is a layout the
  planner returns for some members, alignment and cap.
\<close>

theorem arena_validate_exact:
  assumes "ap_max_root_bytes plan \<le> u64_max"
  shows "arena_validate plan = Ok () \<longleftrightarrow> (\<exists>members alignment cap. arena_new members alignment cap = Ok plan)"
  by (rule arena_validate_iff [OF assms])

theorem arena_validate_exact_witness:
  "(256 :: nat) \<le> u64_max
    \<and> arena_validate \<lparr>ap_roots = [256], ap_members = [\<lparr>span_name = [97], span_root = 0, span_offset = 0, span_bytes = 9\<rparr>],
        ap_alignment = 16, ap_max_root_bytes = 256\<rparr> = Ok ()"
proof -
  have "arena_new [([97], 9)] 16 256 = Ok \<lparr>ap_roots = [256],
    ap_members = [\<lparr>span_name = [97], span_root = 0, span_offset = 0, span_bytes = 9\<rparr>], ap_alignment = 16, ap_max_root_bytes = 256\<rparr>"
    by (simp add: eval_arena)
  then show ?thesis
    using arena_validate_exact [of "\<lparr>ap_roots = [256],
      ap_members = [\<lparr>span_name = [97], span_root = 0, span_offset = 0, span_bytes = 9\<rparr>], ap_alignment = 16, ap_max_root_bytes = 256\<rparr>"]
    by (auto simp: u64_max_def)
qed

end
