(* ===== verification/Shadow_Roots.thy ===== *)
theory Shadow_Roots
  imports Byte_Arena_Props
begin

text \<open>
  The lazily allocated shadow roots of \<^verbatim>\<open>crates/rdna-compute/src/byte_arena.rs\<close> over any sequence of calls and
  any answers of the device: what a caller is handed lies inside an owned root of the exact planned
  size, every root obtained is held or released once, and nothing that was in use is released
  without a successful quiesce just before.
\<close>

section \<open>The calls\<close>

text \<open>The caches that an invalidation edits are not part of the state; they are tables of numbers here.\<close>

inductive shadow_step ::
  "('d, 'r, 'e) exact_root_device \<Rightarrow> 'r shadow_root_set \<times> 'd \<Rightarrow> 'r shadow_root_set \<times> 'd \<Rightarrow> bool" for D where
  step_bind: "srs_bind s plan ptrs = (s', res) \<Longrightarrow> shadow_step D (s, d) (s', d)"
| step_ensure: "ensure_member D s d member need = (s', d', res) \<Longrightarrow> shadow_step D (s, d) (s', d')"
| step_release: "srs_release D s d = (s', d', res) \<Longrightarrow> shadow_step D (s, d) (s', d')"
| step_invalidate: "invalidate_weight_source D (cache :: (nat \<times> nat) list) s d ptr forget (c :: nat) = (cache', d', c', res) \<Longrightarrow> shadow_step D (s, d) (s, d')"

inductive shadow_reach ::
  "('d, 'r, 'e) exact_root_device \<Rightarrow> 'd \<Rightarrow> 'r shadow_root_set \<times> 'd \<Rightarrow> bool" for D d0 where
  reach_new: "shadow_reach D d0 (srs_new, d0)"
| reach_step: "shadow_reach D d0 st \<Longrightarrow> shadow_step D st st' \<Longrightarrow> shadow_reach D d0 st'"

section \<open>Planned roots\<close>

definition root_fits :: "('d, 'r, 'e) exact_root_device \<Rightarrow> nat \<Rightarrow> 'r option \<Rightarrow> bool" where
  "root_fits D request slot \<longleftrightarrow> (case slot of None \<Rightarrow> True | Some r \<Rightarrow> dev_is_owning D r \<and> dev_capacity D r = request)"

definition shadow_inv :: "('d, 'r, 'e) exact_root_device \<Rightarrow> 'r shadow_root_set \<Rightarrow> bool" where
  "shadow_inv D s \<longleftrightarrow>
     (case srs_plan s of
        None \<Rightarrow> srs_roots s = []
      | Some p \<Rightarrow> plan_sound (mp_f16_shadows p) \<and> list_all2 (root_fits D) (ap_roots (mp_f16_shadows p)) (srs_roots s))"

lemma arena_validate_sound: "arena_validate plan = Ok () \<Longrightarrow> plan_sound plan"
  by (auto simp: arena_validate_def split: sum.splits if_splits dest: arena_new_Ok(1))

lemma model_validate_sound: "model_validate p = Ok () \<Longrightarrow> plan_sound (mp_f16_shadows p)"
  by (auto simp: model_validate_def split: sum.splits if_splits option.splits dest: arena_validate_sound)

lemma exact_alloc_fits:
  assumes "exact_alloc D d bytes = (d', Ok r)" "MIN_ROOT_BYTES \<le> bytes"
  shows "root_fits D bytes (Some r)"
  using assms by (auto simp: exact_alloc_def Let_def root_fits_def split: prod.splits sum.splits if_splits)

lemma srs_bind_cases:
  assumes "srs_bind s p ptrs = (s', res)"
  obtains "s' = s"
  | by_ptr where "srs_plan s = None" "model_validate p = Ok ()" "srs_plan s' = Some p" "srs_quarantined s' = srs_quarantined s"
      "srs_roots s' = replicate (length (ap_roots (mp_f16_shadows p))) None"
  using assms by (auto simp: srs_bind_def Let_def split: if_splits sum.splits)

text \<open>A call either leaves the set alone or fills the one empty root of its member.\<close>

lemma ensure_member_cases:
  assumes "ensure_member D s d member need = (s', d', res)"
  obtains e where "res = Err e" "s' = s" "d' = d"
  | p span root where "srs_plan s = Some p" "vec_get (ap_members (mp_f16_shadows p)) member = Some span"
      "need \<le> span_bytes span" "vec_get (srs_roots s) (span_root span) = Some (Some root)"
      "res = Ok (root, span_offset span)" "s' = s" "d' = d"
  | p span request e where "srs_plan s = Some p" "vec_get (ap_members (mp_f16_shadows p)) member = Some span"
      "vec_get (srs_roots s) (span_root span) = Some None"
      "exact_alloc D d request = (d', Err e)" "res = Err e" "s' = s"
  | p span request root where "srs_plan s = Some p" "vec_get (ap_members (mp_f16_shadows p)) member = Some span"
      "need \<le> span_bytes span" "vec_get (ap_roots (mp_f16_shadows p)) (span_root span) = Some request"
      "vec_get (srs_roots s) (span_root span) = Some None" "exact_alloc D d request = (d', Ok root)"
      "res = Ok (root, span_offset span)" "s' = s\<lparr>srs_roots := (srs_roots s)[span_root span := Some root]\<rparr>"
proof (cases "srs_plan s")
  case None
  then show thesis using assms that(1) by (auto simp: ensure_member_def)
next
  case p: (Some p)
  show thesis
  proof (cases "vec_get (ap_members (mp_f16_shadows p)) member")
    case None
    then show thesis using assms p that(1) by (auto simp: ensure_member_def)
  next
    case sp: (Some span)
    consider "span_bytes span < need \<or> vec_get (ap_roots (mp_f16_shadows p)) (span_root span) = None
        \<or> vec_get (srs_roots s) (span_root span) = None"
      | request slot where "need \<le> span_bytes span" "vec_get (ap_roots (mp_f16_shadows p)) (span_root span) = Some request"
          "vec_get (srs_roots s) (span_root span) = Some slot"
      by fastforce
    then show thesis
    proof cases
      case 1
      then show thesis using assms p sp that(1) by (auto simp: ensure_member_def split: option.splits if_splits)
    next
      case 2
      obtain d1 r where x: "exact_alloc D d request = (d1, r)" by fastforce
      show thesis
      proof (cases slot)
        case None
        show thesis
        proof (cases r)
          case (Inl e)
          then have "d' = d1" "res = Err e" "s' = s" using assms p sp 2 x None by (simp_all add: ensure_member_def)
          then show thesis by (intro that(3) [OF p sp]) (use 2 x None Inl in simp_all)
        next
          case (Inr root)
          then have "d' = d1" "res = Ok (root, span_offset span)"
            "s' = s\<lparr>srs_roots := (srs_roots s)[span_root span := Some root]\<rparr>"
            using assms p sp 2 x None by (simp_all add: ensure_member_def)
          then show thesis by (intro that(4) [OF p sp 2(1,2)]) (use 2 x None Inr in simp_all)
        qed
      next
        case (Some root)
        then have "d' = d" "res = Ok (root, span_offset span)" "s' = s" using assms p sp 2 by (simp_all add: ensure_member_def)
        then show thesis by (intro that(2) [OF p sp 2(1)]) (use 2 Some in simp_all)
      qed
    qed
  qed
qed

lemma shadow_step_inv:
  assumes "shadow_step D st st'" "shadow_inv D (fst st)"
  shows "shadow_inv D (fst st')"
  using assms
proof cases
  case (step_bind s plan ptrs s' res d)
  from step_bind(3) show ?thesis
    by (cases rule: srs_bind_cases)
      (use assms(2) step_bind model_validate_sound in \<open>auto simp: shadow_inv_def root_fits_def list_all2_conv_all_nth\<close>)
next
  case (step_ensure s d member need s' d' res)
  from step_ensure(3) show ?thesis
  proof (cases rule: ensure_member_cases)
    case (4 p span request root)
    have "MIN_ROOT_BYTES \<le> request"
      using assms(2) step_ensure(1) 4(1,4) by (auto simp: shadow_inv_def plan_sound_def vec_get_def split: if_splits)
    then have "root_fits D request (Some root)" by (rule exact_alloc_fits [OF 4(6)])
    then show ?thesis
      using assms(2) step_ensure(1,2) 4(1,4,8)
      by (auto simp: shadow_inv_def vec_get_def list_all2_conv_all_nth nth_list_update split: if_splits)
  qed (use assms(2) step_ensure in auto)
next
  case (step_release s d s' d' res)
  then show ?thesis by (auto simp: shadow_inv_def srs_release_def Let_def split: if_splits prod.splits sum.splits)
qed simp

lemma shadow_reach_inv: "shadow_reach D d0 st \<Longrightarrow> shadow_inv D (fst st)"
proof (induction rule: shadow_reach.induct)
  case reach_new
  show ?case by (simp add: shadow_inv_def srs_new_def)
qed (rule shadow_step_inv)

section \<open>The trace of a device\<close>

datatype 'r root_event = Got 'r | Quiesced | QuiesceRefused | Freed 'r

text \<open>Any device, with what it did to owned roots recorded, newest first.\<close>

definition logged :: "('d, 'r, 'e) exact_root_device \<Rightarrow> ('d \<times> 'r root_event list, 'r, 'e) exact_root_device" where
  "logged D =
     \<lparr>dev_alloc_exact = (\<lambda>(d, tr) n. case dev_alloc_exact D d n of
          (d, Inl e) \<Rightarrow> ((d, tr), Inl e)
        | (d, Inr r) \<Rightarrow> ((d, if dev_is_owning D r then Got r # tr else tr), Inr r)),
      dev_is_owning = dev_is_owning D,
      dev_capacity = dev_capacity D,
      dev_quiesce = (\<lambda>(d, tr). case dev_quiesce D d of
          (d, Inl e) \<Rightarrow> ((d, QuiesceRefused # tr), Inl e)
        | (d, Inr u) \<Rightarrow> ((d, Quiesced # tr), Inr u)),
      dev_release = (\<lambda>(d, tr) r. case dev_release D d r of (d, res) \<Rightarrow> ((d, Freed r # tr), res))\<rparr>"

fun obtained :: "'r root_event list \<Rightarrow> 'r multiset" where
  "obtained [] = {#}"
| "obtained (Got r # tr) = add_mset r (obtained tr)"
| "obtained (_ # tr) = obtained tr"

fun freed :: "'r root_event list \<Rightarrow> 'r multiset" where
  "freed [] = {#}"
| "freed (Freed r # tr) = add_mset r (freed tr)"
| "freed (_ # tr) = freed tr"

text \<open>Only releases since the last successful quiesce.\<close>

fun after_quiesce :: "'r root_event list \<Rightarrow> bool" where
  "after_quiesce (Quiesced # tr) = True"
| "after_quiesce (Freed r # tr) = after_quiesce tr"
| "after_quiesce _ = False"

text \<open>Every release follows a quiesce, or hands a root back that was obtained just before and never used.\<close>

fun fenced :: "'r root_event list \<Rightarrow> bool" where
  "fenced [] = True"
| "fenced (Freed r # tr) =
     ((after_quiesce tr \<or> (case tr of Got r' # _ \<Rightarrow> r' = r | _ \<Rightarrow> False)) \<and> fenced tr)"
| "fenced (_ # tr) = fenced tr"

definition held :: "'r shadow_root_set \<Rightarrow> 'r multiset" where
  "held s = mset (live_list (srs_roots s)) + mset (srs_quarantined s)"

definition trace_ok :: "'r shadow_root_set \<Rightarrow> 'r root_event list \<Rightarrow> bool" where
  "trace_ok s tr \<longleftrightarrow> obtained tr = held s + freed tr \<and> fenced tr"

lemma logged_simps [simp]:
  "dev_is_owning (logged D) = dev_is_owning D" "dev_capacity (logged D) = dev_capacity D"
  "dev_release (logged D) (d, tr) r = (case dev_release D d r of (d, res) \<Rightarrow> ((d, Freed r # tr), res))"
  by (simp_all add: logged_def)

lemma logged_alloc:
  assumes "exact_alloc (logged D) (d, tr) n = ((d', tr'), res)" "fenced tr"
  shows "fenced tr' \<and> (case res of
      Inl _ \<Rightarrow> \<exists>x. obtained tr' = x + obtained tr \<and> freed tr' = x + freed tr
    | Inr r \<Rightarrow> obtained tr' = add_mset r (obtained tr) \<and> freed tr' = freed tr)"
proof -
  have "\<exists>x. add_mset r (obtained tr) = x + obtained tr \<and> add_mset r (freed tr) = x + freed tr" for r
    by (rule exI [of _ "{#r#}"]) simp
  then show ?thesis using assms
    by (auto simp: exact_alloc_def Let_def logged_def split: prod.splits sum.splits if_splits)
qed

lemma logged_release_all:
  "release_all (logged D) (d, tr) rs = ((d', tr'), n, errors) \<Longrightarrow> tr' = rev (map Freed rs) @ tr \<and> n + length errors = length rs"
proof (induction rs arbitrary: d tr d' tr' n errors)
  case (Cons r rs)
  obtain d1 res where r: "dev_release D d r = (d1, res)" by fastforce
  obtain d2 tr2 n2 errs where all: "release_all (logged D) (d1, Freed r # tr) rs = ((d2, tr2), n2, errs)" by (metis surj_pair)
  show ?case using Cons.prems Cons.IH [OF all] all r by (auto split: sum.splits)
qed simp

lemma freed_trace:
  "obtained (rev (map Freed rs) @ tr) = obtained tr" "freed (rev (map Freed rs) @ tr) = mset rs + freed tr"
  "after_quiesce tr \<Longrightarrow> fenced tr \<Longrightarrow> fenced (rev (map Freed rs) @ tr) \<and> after_quiesce (rev (map Freed rs) @ tr)"
  by (induction rs rule: rev_induct) auto

lemma live_list_simps [simp]:
  "live_list [] = []" "live_list (None # xs) = live_list xs" "live_list (Some r # xs) = r # live_list xs"
  "live_list (replicate n None) = []"
  by (induction n) (auto simp: live_list_def List.map_filter_simps)

lemma live_list_append [simp]: "live_list (xs @ ys) = live_list xs @ live_list ys"
  by (induction xs) (auto simp: live_list_def List.map_filter_simps split: option.split)

lemma live_list_fill:
  assumes "vec_get xs i = Some None"
  shows "mset (live_list (xs[i := Some r])) = add_mset r (mset (live_list xs))"
proof -
  have i: "i < length xs" "xs ! i = None" using assms by (auto simp: vec_get_def split: if_splits)
  then have "xs = take i xs @ None # drop (Suc i) xs" using id_take_nth_drop by metis
  then have "live_list xs = live_list (take i xs) @ live_list (drop (Suc i) xs)" by (metis live_list_append live_list_simps(2))
  then show ?thesis by (simp add: upd_conv_take_nth_drop i(1))
qed

text \<open>A release empties the bindings; then nothing, everything or, when the fence fails, no root is freed.\<close>

lemma logged_release:
  assumes r: "srs_release (logged D) s (d, tr) = (s', (d', tr'), res)" and f: "fenced tr"
  shows "srs_plan s' = None \<and> srs_by_ptr s' = [] \<and> srs_roots s' = [] \<and> obtained tr' = obtained tr \<and> fenced tr'"
    and "case dev_quiesce D d of
        (_, Inl e) \<Rightarrow> held s' = held s \<and> freed tr' = freed tr
          \<and> res = (if held s = {#} then Ok 0 else Err (QuiesceFailed e (size (held s))))
      | (_, Inr _) \<Rightarrow> held s' = {#} \<and> freed tr' = held s + freed tr \<and> (\<forall>n. res = Ok n \<longrightarrow> n = size (held s))"
proof -
  let ?all = "srs_quarantined s @ live_list (srs_roots s)"
  let ?s = "s\<lparr>srs_plan := None, srs_source_ptrs := [], srs_by_ptr := [], srs_roots := [], srs_quarantined := ?all\<rparr>"
  have h: "held s = mset ?all" by (simp add: held_def)
  obtain d1 q where q: "dev_quiesce D d = (d1, q)" by fastforce
  obtain d2 tr2 n errs where all: "release_all (logged D) (d1, Quiesced # tr) ?all = ((d2, tr2), n, errs)" by (metis surj_pair)
  note t = logged_release_all [OF all] freed_trace [where rs = ?all and tr = "Quiesced # tr"]
  consider "?all = []" "s' = ?s" "tr' = tr" "res = Ok 0"
    | e where "?all \<noteq> []" "q = Inl e" "s' = ?s" "tr' = QuiesceRefused # tr" "res = Err (QuiesceFailed e (length ?all))"
    | u where "q = Inr u" "s' = ?s\<lparr>srs_quarantined := []\<rparr>" "tr' = tr2" "errs = [] \<longrightarrow> res = Ok n" "errs \<noteq> [] \<longrightarrow> isl res"
    using r q all by (cases "?all = []"; cases q) (auto simp: srs_release_def Let_def logged_def split: if_splits)
  note c = this
  from c show "srs_plan s' = None \<and> srs_by_ptr s' = [] \<and> srs_roots s' = [] \<and> obtained tr' = obtained tr \<and> fenced tr'"
    by cases (use t f in auto)
  from c show "case dev_quiesce D d of
        (_, Inl e) \<Rightarrow> held s' = held s \<and> freed tr' = freed tr
          \<and> res = (if held s = {#} then Ok 0 else Err (QuiesceFailed e (size (held s))))
      | (_, Inr _) \<Rightarrow> held s' = {#} \<and> freed tr' = held s + freed tr \<and> (\<forall>n. res = Ok n \<longrightarrow> n = size (held s))"
  proof cases
    case 1
    then show ?thesis unfolding h q by (auto simp: held_def split: sum.split)
  next
    case 2
    then show ?thesis unfolding h q by (auto simp: held_def)
  next
    case 3
    then show ?thesis using t unfolding h q by (auto simp: held_def)
  qed
qed

lemma trace_step:
  assumes "shadow_step (logged D) (s, d, tr) (s', d', tr')" "shadow_inv (logged D) s" "trace_ok s tr"
  shows "trace_ok s' tr'"
  using assms(1)
proof cases
  case (step_bind plan ptrs res)
  from step_bind(3) show ?thesis
    by (cases rule: srs_bind_cases) (use assms(2,3) step_bind(1,2) in \<open>auto simp: trace_ok_def held_def shadow_inv_def\<close>)
next
  case (step_ensure member need res)
  have f: "fenced tr" using assms(3) by (simp add: trace_ok_def)
  from step_ensure show ?thesis
  proof (cases rule: ensure_member_cases)
    case (3 p span request e)
    show ?thesis using logged_alloc [OF 3(4) f] 3 assms(3) by (auto simp: trace_ok_def)
  next
    case (4 p span request root)
    show ?thesis using logged_alloc [OF 4(6) f] 4(8) live_list_fill [OF 4(5), of root] assms(3)
      by (auto simp: trace_ok_def held_def)
  qed (use assms(3) in auto)
next
  case (step_release res)
  then show ?thesis
    using logged_release [OF step_release] assms(3) by (auto simp: trace_ok_def split: prod.splits sum.splits)
next
  case (step_invalidate cache ptr forget c cache' c' res)
  then show ?thesis
    using assms(3) by (auto simp: trace_ok_def invalidate_weight_source_def logged_def split: if_splits prod.splits sum.splits)
qed

lemma shadow_reach_trace: "shadow_reach (logged D) (d0, []) (s, d, tr) \<Longrightarrow> trace_ok s tr"
proof (induction "(s, d, tr)" arbitrary: s d tr rule: shadow_reach.induct)
  case reach_new
  then show ?case by (simp add: trace_ok_def held_def srs_new_def)
next
  case (reach_step st)
  obtain s0 d1 tr0 where st: "st = (s0, d1, tr0)" by (cases st)
  show ?case
    using trace_step [of D s0 d1 tr0 s d tr] reach_step(2) [OF st] reach_step(3) shadow_reach_inv [OF reach_step(1)] by (simp add: st)
qed

section \<open>Properties\<close>

lemma ensure_member_error:
  assumes "shadow_inv D s" "ensure_member D s d member need = (s', d', Err e)"
  shows "s' = s \<and> e \<noteq> PlanError IndexPanic \<and> (\<forall>i. e \<noteq> PlanError (RootOutOfRange i))"
proof -
  have "span_root span < length (ap_roots (mp_f16_shadows p)) \<and> span_root span < length (srs_roots s)"
    if "srs_plan s = Some p" "vec_get (ap_members (mp_f16_shadows p)) member = Some span" for p span
    using assms(1) that by (auto simp: shadow_inv_def plan_sound_def in_closed_def vec_get_def list_all2_lengthD split: if_splits)
  moreover have "e' \<noteq> PlanError x" if "exact_alloc D d n = (d1, Err e')" for d1 e' n x
    using that by (auto simp: exact_alloc_def Let_def split: prod.splits sum.splits if_splits)
  ultimately show ?thesis
    using assms(2) by (auto simp: ensure_member_def vec_get_def split: option.splits if_splits prod.splits sum.splits)
qed

lemma ensure_member_view:
  assumes "shadow_inv D s" "ensure_member D s d member need = (s', d', Ok (root, off))"
  obtains p span where "srs_plan s' = Some p" "vec_get (ap_members (mp_f16_shadows p)) member = Some span"
    "off = span_offset span" "off mod ap_alignment (mp_f16_shadows p) = 0" "need \<le> span_bytes span"
    "vec_get (srs_roots s') (span_root span) = Some (Some root)" "shadow_inv D s'"
proof -
  have inv: "shadow_inv D s'"
    using shadow_step_inv [OF shadow_step.step_ensure [OF assms(2)]] assms(1) by simp
  obtain p span where p: "srs_plan s' = Some p" "vec_get (ap_members (mp_f16_shadows p)) member = Some span"
    "off = span_offset span" "need \<le> span_bytes span" "vec_get (srs_roots s') (span_root span) = Some (Some root)"
    using assms(2) by (cases rule: ensure_member_cases) (auto simp: vec_get_def split: if_splits)
  have "off mod ap_alignment (mp_f16_shadows p) = 0"
    using inv p by (auto simp: shadow_inv_def plan_sound_def vec_get_def split: if_splits)
  then show thesis by (rule that [OF p(1-3) _ p(4,5) inv])
qed

text \<open>
  C16: In every state the calls can reach, a shadow view is aligned, covers the bytes asked for inside the span the
  plan reserves, and lies wholly within a root that is owned and has exactly the planned capacity; asking again
  returns the same view without touching the device; and a refusal changes nothing and is never an index out of range.
\<close>

theorem shadow_views_in_bounds:
  assumes "shadow_reach D d0 (s, d)" "ensure_member D s d member need = (s', d', res)"
  shows "case res of
      Inl e \<Rightarrow> s' = s \<and> e \<noteq> PlanError IndexPanic \<and> (\<forall>i. e \<noteq> PlanError (RootOutOfRange i))
    | Inr (root, off) \<Rightarrow> (\<exists>p span. srs_plan s' = Some p \<and> srs_span s' member = Some span
        \<and> off = span_offset span \<and> off mod ap_alignment (mp_f16_shadows p) = 0
        \<and> need \<le> span_bytes span \<and> off + span_bytes span \<le> dev_capacity D root \<and> dev_is_owning D root
        \<and> dev_capacity D root = ap_roots (mp_f16_shadows p) ! span_root span
        \<and> (\<forall>dev n. n \<le> span_bytes span \<longrightarrow> ensure_member D s' dev member n = (s', dev, Ok (root, off))))"
proof (cases res)
  case (Inl e)
  then show ?thesis using ensure_member_error shadow_reach_inv [OF assms(1)] assms(2) by fastforce
next
  case (Inr v)
  obtain root off where v: "v = (root, off)" by fastforce
  from shadow_reach_inv [OF assms(1), simplified] assms(2) [unfolded Inr v] show ?thesis
  proof (cases rule: ensure_member_view)
    case (1 p span)
    have sound: "plan_sound (mp_f16_shadows p)"
      and fit: "list_all2 (root_fits D) (ap_roots (mp_f16_shadows p)) (srs_roots s')"
      using 1(1,7) by (simp_all add: shadow_inv_def)
    have in_root: "span_root span < length (ap_roots (mp_f16_shadows p))"
      "span_offset span + span_bytes span \<le> ap_roots (mp_f16_shadows p) ! span_root span"
      using sound 1(2) by (auto simp: plan_sound_def in_closed_def vec_get_def split: if_splits)
    moreover have "dev_is_owning D root \<and> dev_capacity D root = ap_roots (mp_f16_shadows p) ! span_root span"
      using list_all2_nthD [OF fit in_root(1)] 1(6) by (auto simp: root_fits_def vec_get_def split: if_splits)
    moreover have "ensure_member D s' dev member n = (s', dev, Ok (root, off))" if "n \<le> span_bytes span" for dev n
      using that 1 in_root(1) by (simp add: ensure_member_def vec_get_def split: if_splits)
    ultimately show ?thesis using 1 unfolding Inr v by (auto simp: srs_span_def)
  qed
qed

text \<open>A device for the examples: roots are numbered in the order they were obtained, and a flag lets it refuse a quiesce.\<close>

definition sample_device :: "(nat \<times> bool, nat \<times> nat, nat) exact_root_device" where
  "sample_device =
     \<lparr>dev_alloc_exact = (\<lambda>(n, busy) bytes. ((n + 1, busy), Inr (n, bytes))), dev_is_owning = (\<lambda>_. True), dev_capacity = snd,
      dev_quiesce = (\<lambda>(n, busy). ((n, False), if busy then Inl 7 else Inr ())), dev_release = (\<lambda>d _. (d, Inr ()))\<rparr>"

definition sample_arena :: arena_plan where
  "sample_arena = \<lparr>ap_roots = [300], ap_members = [\<lparr>span_name = [97], span_root = 0, span_offset = 0, span_bytes = 300\<rparr>],
     ap_alignment = 16, ap_max_root_bytes = 512\<rparr>"

definition sample_plan :: model_arena_plan where
  "sample_plan = \<lparr>mp_weights = sample_arena, mp_f16_shadows = sample_arena, mp_granule_bytes = 4096\<rparr>"

definition sample_bound :: "(nat \<times> nat) shadow_root_set" where
  "sample_bound = fst (srs_bind srs_new sample_plan [64])"

lemma sample_plan_valid: "model_validate sample_plan = Ok ()"
proof -
  have "arena_new [([97], 300)] 16 512 = Ok sample_arena" by (simp add: eval_arena sample_arena_def)
  then have "arena_validate sample_arena = Ok ()"
    using arena_validate_iff [of sample_arena] by (auto simp: sample_arena_def u64_max_def)
  moreover have "arena_member sample_arena [97] \<noteq> None"
    by (simp add: arena_member_def sample_arena_def search_base.simps)
  ultimately show ?thesis by (simp add: model_validate_def sample_plan_def) (simp add: sample_arena_def)
qed

lemma sample_bound_eq:
  "sample_bound = \<lparr>srs_plan = Some sample_plan, srs_source_ptrs = [64], srs_by_ptr = [(64, 0)], srs_roots = [None], srs_quarantined = []\<rparr>"
  by (simp add: sample_bound_def srs_bind_def sample_plan_valid srs_new_def) (simp add: sample_plan_def sample_arena_def Let_def)

lemma sample_bound_reach: "shadow_reach D d (sample_bound, d)"
  unfolding sample_bound_def
  by (rule shadow_reach.reach_step [OF shadow_reach.reach_new]) (rule shadow_step.step_bind, rule prod.collapse [symmetric])

theorem shadow_views_in_bounds_witness:
  "shadow_reach sample_device (0, False) (sample_bound, (0, False))
    \<and> snd (snd (ensure_member sample_device sample_bound (0, False) 0 200)) = Ok ((0, 300), 0)
    \<and> 0 + 300 \<le> dev_capacity sample_device (0, 300)"
proof -
  obtain s' d' where e: "ensure_member sample_device sample_bound (0, False) 0 200 = (s', d', Ok ((0, 300), 0))"
    by (simp add: ensure_member_def sample_bound_eq sample_plan_def sample_arena_def vec_get_def exact_alloc_def
        sample_device_def MIN_ROOT_BYTES_def Let_def)
  have "srs_span s' 0 = Some \<lparr>span_name = [97], span_root = 0, span_offset = 0, span_bytes = 300\<rparr>"
    using e by (auto simp: ensure_member_def sample_bound_eq sample_plan_def sample_arena_def vec_get_def exact_alloc_def
        sample_device_def MIN_ROOT_BYTES_def Let_def srs_span_def)
  then show ?thesis using shadow_views_in_bounds [OF sample_bound_reach e] e by (auto intro: sample_bound_reach)
qed

text \<open>
  C15: Whatever the device answers and in whatever order the calls come, every owned root it ever handed out is
  held by the set or has been given back, once; and a root is given back only after a successful quiesce with no
  allocation since, or, unused, in the call that obtained it.
\<close>

theorem shadow_roots_conserved:
  assumes "shadow_reach (logged D) (d0, []) (s, d, tr)"
  shows "obtained tr = mset (live_list (srs_roots s)) + mset (srs_quarantined s) + freed tr \<and> fenced tr"
  using shadow_reach_trace [OF assms] by (simp add: trace_ok_def held_def)

theorem shadow_roots_conserved_witness:
  "\<exists>s d tr. shadow_reach (logged sample_device) ((0, False), []) (s, d, tr)
     \<and> obtained tr = mset (live_list (srs_roots s)) + mset (srs_quarantined s) + freed tr \<and> tr = [Got (0, 300)]"
proof -
  obtain s d where e: "ensure_member (logged sample_device) sample_bound ((0, False), []) 0 200
      = (s, (d, [Got (0, 300)]), Ok ((0, 300), 0))"
    by (simp add: ensure_member_def sample_bound_eq sample_plan_def sample_arena_def vec_get_def exact_alloc_def
        sample_device_def logged_def MIN_ROOT_BYTES_def Let_def)
  have r: "shadow_reach (logged sample_device) ((0, False), []) (s, d, [Got (0, 300)])"
    by (rule shadow_reach.reach_step [OF sample_bound_reach shadow_step.step_ensure [OF e]])
  show ?thesis by (intro exI conjI, rule r, rule conjunct1 [OF shadow_roots_conserved [OF r]], rule refl)
qed

text \<open>
  C38: A release clears every binding first. If the device refuses to quiesce, no root is freed and all of them are
  quarantined; if it does, every root ever obtained has then been freed, and the count reported is theirs.
\<close>

theorem shadow_release_complete:
  assumes "shadow_reach (logged D) (d0, []) (s, d, tr)" "srs_release (logged D) s (d, tr) = (s', (d', tr'), res)"
  shows "\<not> srs_is_active s' \<and> (\<forall>ptr. srs_lookup s' ptr = None) \<and> live_roots s' = 0
    \<and> (case dev_quiesce D d of
         (_, Inl e) \<Rightarrow> freed tr' = freed tr \<and> mset (srs_quarantined s') = mset (live_list (srs_roots s)) + mset (srs_quarantined s)
       | (_, Inr _) \<Rightarrow> freed tr' = obtained tr' \<and> srs_quarantined s' = []
           \<and> (\<forall>n. res = Ok n \<longrightarrow> n = live_roots s + quarantined_roots s))"
proof -
  have t: "obtained tr = held s + freed tr" "fenced tr" using shadow_reach_trace [OF assms(1)] by (simp_all add: trace_ok_def)
  note r = logged_release [OF assms(2) t(2)]
  have "mset (srs_quarantined s') = held s'" using r(1) by (simp add: held_def)
  moreover have "size (held s) = live_roots s + quarantined_roots s" by (simp add: held_def live_roots_def quarantined_roots_def)
  ultimately show ?thesis
    using r t(1) by (auto simp: srs_is_active_def srs_lookup_def live_roots_def held_def split: prod.splits sum.splits)
qed

theorem shadow_release_complete_witness:
  "shadow_reach (logged sample_device) ((0, True), []) (sample_bound, (0, True), [])
    \<and> \<not> srs_is_active (fst (srs_release (logged sample_device) sample_bound ((0, True), [])))"
proof -
  obtain s' d' tr' res where e: "srs_release (logged sample_device) sample_bound ((0, True), []) = (s', (d', tr'), res)"
    by (metis surj_pair)
  show ?thesis using shadow_release_complete [OF sample_bound_reach e] e by (simp add: sample_bound_reach)
qed

end
