(* ===== verification/Cache_Plan.thy ===== *)
theory Cache_Plan
  imports Rust_Prelude "HOL-Library.Sublist"
begin

text \<open>
  The prompt-cache planner of \<^verbatim>\<open>crates/hipfire-runtime/src/cache_plan.rs\<close>: what a turn reuses of the previous
  conversation, by architecture policy. Also the longest-common-prefix facts that the radix index shares.
\<close>

type_synonym token = "32 word"

section \<open>The planner\<close>

record cache_plan =
  cache_hit :: bool
  start_pos :: nat
  cached_tokens :: nat
  resume_from :: "nat option"

definition plan_miss :: cache_plan where
  "plan_miss = \<lparr>cache_hit = False, start_pos = 0, cached_tokens = 0, resume_from = None\<rparr>"

datatype exact_match = ExactMiss | StepBack

record cache_policy =
  min_new_len_ge_prior :: bool
  on_exact :: exact_match
  allow_partial :: bool

definition policy_qwen35 :: cache_policy where
  "policy_qwen35 = \<lparr>min_new_len_ge_prior = False, on_exact = ExactMiss, allow_partial = False\<rparr>"

definition policy_deepseek4 :: cache_policy where
  "policy_deepseek4 = \<lparr>min_new_len_ge_prior = True, on_exact = StepBack, allow_partial = False\<rparr>"

fun common_len :: "'a list \<Rightarrow> 'a list \<Rightarrow> nat" where
  "common_len (x # xs) (y # ys) = (if x = y then Suc (common_len xs ys) else 0)"
| "common_len _ _ = 0"

definition latest_checkpoint :: "nat list \<Rightarrow> nat \<Rightarrow> nat \<Rightarrow> nat option" where
  "latest_checkpoint checkpoints lcp len =
     (case filter (\<lambda>p. p \<le> lcp \<and> p < len) checkpoints of [] \<Rightarrow> None | p # ps \<Rightarrow> Some (fold max ps p))"

definition plan_cache ::
  "token list \<Rightarrow> token list \<Rightarrow> cache_policy \<Rightarrow> nat list \<Rightarrow> bool \<Rightarrow> cache_plan" where
  "plan_cache rendered prior policy checkpoints resume_enabled =
     (if prior = [] then plan_miss
      else if min_new_len_ge_prior policy \<and> length rendered < length prior then plan_miss
      else let lcp = common_len prior rendered
           in if lcp = length rendered \<and> lcp > 0 \<and> on_exact policy = ExactMiss then plan_miss
              else let lcp = (if lcp = length rendered \<and> lcp > 0 then lcp - 1 else lcp)
                   in if lcp = length prior \<and> lcp < length rendered \<and> lcp > 0
                      then \<lparr>cache_hit = True, start_pos = lcp, cached_tokens = lcp, resume_from = None\<rparr>
                      else if lcp > 0 \<and> lcp < length prior
                      then if allow_partial policy
                           then \<lparr>cache_hit = True, start_pos = lcp, cached_tokens = lcp, resume_from = None\<rparr>
                           else if resume_enabled
                           then (case latest_checkpoint checkpoints lcp (length rendered) of
                                   Some p \<Rightarrow> \<lparr>cache_hit = True, start_pos = p, cached_tokens = p, resume_from = Some p\<rparr>
                                 | None \<Rightarrow> plan_miss)
                           else plan_miss
                      else plan_miss)"

section \<open>Common prefixes\<close>

lemma common_len_le: "common_len xs ys \<le> length xs" "common_len xs ys \<le> length ys"
  by (induction xs ys rule: common_len.induct) auto

lemma common_len_take: "take (common_len xs ys) xs = take (common_len xs ys) ys"
  by (induction xs ys rule: common_len.induct) auto

text \<open>It is the longest one.\<close>

lemma common_len_max: "k \<le> length xs \<Longrightarrow> k \<le> length ys \<Longrightarrow> take k xs = take k ys \<Longrightarrow> k \<le> common_len xs ys"
proof (induction xs ys arbitrary: k rule: common_len.induct)
  case (1 x xs y ys)
  then show ?case by (cases k) auto
qed auto

lemma common_len_full: "common_len xs ys = length xs \<longleftrightarrow> prefix xs ys"
proof
  assume "common_len xs ys = length xs"
  then have "xs = take (length xs) ys" using common_len_take [of xs ys] by simp
  then show "prefix xs ys" by (metis take_is_prefix)
next
  assume "prefix xs ys"
  then have "length xs \<le> common_len xs ys" by (intro common_len_max) (auto simp: prefix_def)
  then show "common_len xs ys = length xs" using common_len_le(1) [of xs ys] by simp
qed

lemma common_len_differ:
  assumes "common_len xs ys < length xs" "common_len xs ys < length ys"
  shows "xs ! common_len xs ys \<noteq> ys ! common_len xs ys"
  using assms by (induction xs ys rule: common_len.induct) auto

lemma fold_max: "fold max ps (p :: nat) \<in> set (p # ps) \<and> (\<forall>q \<in> set (p # ps). q \<le> fold max ps p)"
proof (induction ps arbitrary: p)
  case (Cons a ps)
  show ?case using Cons [of "max a p"] by (auto simp: max_def split: if_splits)
qed simp

lemma latest_checkpoint_Some:
  assumes "latest_checkpoint cs lcp len = Some p"
  shows "p \<in> set cs \<and> p \<le> lcp \<and> p < len \<and> (\<forall>q \<in> set cs. q \<le> lcp \<longrightarrow> q < len \<longrightarrow> q \<le> p)"
proof -
  obtain a ps where f: "filter (\<lambda>p. p \<le> lcp \<and> p < len) cs = a # ps" "p = fold max ps a"
    using assms by (auto simp: latest_checkpoint_def split: list.splits)
  have "set (a # ps) = {q \<in> set cs. q \<le> lcp \<and> q < len}" by (simp flip: f(1))
  then show ?thesis using fold_max [of ps a] f(2) by blast
qed

text \<open>
  C1: A cache hit reuses only tokens that the new render shares with the conversation before it, always leaves
  at least one token to process, and counts what it reuses exactly; a resume starts at the latest usable checkpoint,
  and under a policy without partial hits nothing but a whole previous conversation is reused otherwise.
\<close>

theorem plan_cache_sound:
  assumes "plan_cache rendered prior policy checkpoints resume_enabled = plan" "cache_hit plan"
  shows "cached_tokens plan = start_pos plan \<and> start_pos plan < length rendered
    \<and> take (start_pos plan) rendered = take (start_pos plan) prior
    \<and> (case resume_from plan of
         Some p \<Rightarrow> resume_enabled \<and> p = start_pos plan \<and> p \<in> set checkpoints
           \<and> (\<forall>q \<in> set checkpoints. q < length rendered \<longrightarrow> q \<le> length prior \<longrightarrow>
                take q rendered = take q prior \<longrightarrow> q \<le> p)
       | None \<Rightarrow> allow_partial policy \<or> start_pos plan = length prior)"
proof -
  define l where "l = common_len prior rendered"
  define k where "k = (if l = length rendered \<and> l > 0 then l - 1 else l)"
  have l: "l \<le> length rendered" "take l prior = take l rendered"
    unfolding l_def by (rule common_len_le common_len_take)+
  have k: "k \<le> l" "0 < k \<Longrightarrow> k < length rendered" using l(1) by (auto simp: k_def)
  have upto: "take q rendered = take q prior" if "q \<le> k" for q
    using l(2) that k(1) by (metis min.absorb1 order_trans take_take)
  have longest: "q \<le> k" if "q < length rendered" "q \<le> length prior" "take q rendered = take q prior" for q
    using common_len_max [of q prior rendered] that unfolding k_def l_def by (auto split: if_splits)
  have "plan = \<lparr>cache_hit = True, start_pos = k, cached_tokens = k, resume_from = None\<rparr> \<and> 0 < k
      \<and> (allow_partial policy \<or> k = length prior)
    \<or> (\<exists>p. resume_enabled \<and> 0 < k \<and> latest_checkpoint checkpoints k (length rendered) = Some p
        \<and> plan = \<lparr>cache_hit = True, start_pos = p, cached_tokens = p, resume_from = Some p\<rparr>)"
    using assms unfolding plan_cache_def Let_def l_def [symmetric] k_def [symmetric]
    by (auto simp: plan_miss_def split: if_splits option.splits)
  then show ?thesis
  proof
    assume "plan = \<lparr>cache_hit = True, start_pos = k, cached_tokens = k, resume_from = None\<rparr> \<and> 0 < k
      \<and> (allow_partial policy \<or> k = length prior)"
    then show ?thesis using k(2) upto by simp
  next
    assume "\<exists>p. resume_enabled \<and> 0 < k \<and> latest_checkpoint checkpoints k (length rendered) = Some p
        \<and> plan = \<lparr>cache_hit = True, start_pos = p, cached_tokens = p, resume_from = Some p\<rparr>"
    then obtain p where p: "resume_enabled" "latest_checkpoint checkpoints k (length rendered) = Some p"
      "plan = \<lparr>cache_hit = True, start_pos = p, cached_tokens = p, resume_from = Some p\<rparr>" by blast
    then show ?thesis using latest_checkpoint_Some [OF p(2)] upto longest by simp
  qed
qed

theorem plan_cache_sound_witness:
  "cache_hit (plan_cache [1, 2, 9] [1, 2, 3, 4] policy_qwen35 [0, 1] True)
    \<and> take 1 [1, 2, 9 :: token] = take 1 [1, 2, 3, 4]"
  using plan_cache_sound [of "[1, 2, 9]" "[1, 2, 3, 4]" policy_qwen35 "[0, 1]" True
      "\<lparr>cache_hit = True, start_pos = 1, cached_tokens = 1, resume_from = Some 1\<rparr>"]
  by (simp add: plan_cache_def policy_qwen35_def latest_checkpoint_def)

end
