(* ===== verification/Prefix_Tree.thy ===== *)
theory Prefix_Tree
  imports Page_Pool Serve_Contract Cache_Plan
begin

text \<open>
  The radix trees of \<^verbatim>\<open>crates/hipfire-runtime/src/prefix_index.rs\<close>. The edges of a tree are token spans, its nodes
  hold page handles and checkpoint boundaries; the functions here read one tree, split and join its edges,
  and extend it by a chain of nodes, taking cache references of the page pool as they go. Hash maps are
  association lists. A failed \<^verbatim>\<open>unwrap\<close> or slice is the error \<open>IndexPanics\<close>. The loops that descend a tree are
  bounded by the number of its nodes and of the tokens looked for; a step consumes a token unless its
  edge is empty, so the bound is never met in a well-formed tree.
\<close>

section \<open>Nodes and trees\<close>

record checkpoint_boundary =
  cb_token_offset :: nat
  cb_checkpoint :: checkpoint_id

record radix_node =
  insert_seq :: nat
  node_parent :: "nat option"
  edge_tokens :: "token list"
  first_page_skip :: nat
  node_pages :: "page_handle list"
  node_checkpoints :: "checkpoint_boundary list"
  node_children :: "(token \<times> nat) list"
  pin_count :: nat

definition node_root :: radix_node where
  "node_root = \<lparr>insert_seq = 0, node_parent = None, edge_tokens = [], first_page_skip = 0, node_pages = [],
     node_checkpoints = [], node_children = [], pin_count = 0\<rparr>"

definition node_new :: "nat \<Rightarrow> nat \<Rightarrow> token list \<Rightarrow> page_handle list \<Rightarrow> radix_node" where
  "node_new seq parent edge pages =
     \<lparr>insert_seq = seq, node_parent = Some parent, edge_tokens = edge, first_page_skip = 0, node_pages = pages,
      node_checkpoints = [], node_children = [], pin_count = 0\<rparr>"

definition token_span :: "radix_node \<Rightarrow> nat" where
  "token_span n = length (edge_tokens n)"

definition is_leaf_node :: "radix_node \<Rightarrow> bool" where
  "is_leaf_node n \<longleftrightarrow> node_children n = []"

record domain_tree =
  tree_root :: nat
  tree_nodes :: "(nat \<times> radix_node) list"
  next_node_id :: nat
  next_insert_seq :: nat

definition tree_new :: domain_tree where
  "tree_new = \<lparr>tree_root = 0, tree_nodes = [(0, node_root)], next_node_id = 1, next_insert_seq = 1\<rparr>"

definition fresh_node_id :: "domain_tree \<Rightarrow> domain_tree \<times> nat" where
  "fresh_node_id t = (t\<lparr>next_node_id := next_node_id t + 1\<rparr>, next_node_id t)"

definition fresh_insert_seq :: "domain_tree \<Rightarrow> domain_tree \<times> nat" where
  "fresh_insert_seq t = (t\<lparr>next_insert_seq := next_insert_seq t + 1\<rparr>, next_insert_seq t)"

definition node_count :: "domain_tree \<Rightarrow> nat" where
  "node_count t = length (tree_nodes t)"

abbreviation node_at :: "domain_tree \<Rightarrow> nat \<Rightarrow> radix_node option" where
  "node_at t i \<equiv> map_of (tree_nodes t) i"

abbreviation put_node :: "domain_tree \<Rightarrow> nat \<Rightarrow> radix_node \<Rightarrow> domain_tree" where
  "put_node t i n \<equiv> t\<lparr>tree_nodes := AList.update i n (tree_nodes t)\<rparr>"

abbreviation drop_node :: "domain_tree \<Rightarrow> nat \<Rightarrow> domain_tree" where
  "drop_node t i \<equiv> t\<lparr>tree_nodes := AList.delete i (tree_nodes t)\<rparr>"

abbreviation child_of :: "radix_node \<Rightarrow> token \<Rightarrow> nat option" where
  "child_of n tok \<equiv> map_of (node_children n) tok"

text \<open>\<^verbatim>\<open>if let Some(node) = nodes.get_mut(&id)\<close>: change the node if it is there.\<close>

definition modify_node :: "nat \<Rightarrow> (radix_node \<Rightarrow> radix_node) \<Rightarrow> domain_tree \<Rightarrow> domain_tree" where
  "modify_node i f t = (case node_at t i of None \<Rightarrow> t | Some n \<Rightarrow> put_node t i (f n))"

abbreviation add_child :: "token \<Rightarrow> nat \<Rightarrow> radix_node \<Rightarrow> radix_node" where
  "add_child tok c n \<equiv> n\<lparr>node_children := AList.update tok c (node_children n)\<rparr>"

abbreviation remove_child :: "token \<Rightarrow> radix_node \<Rightarrow> radix_node" where
  "remove_child tok n \<equiv> n\<lparr>node_children := AList.delete tok (node_children n)\<rparr>"

definition unlink :: "nat option \<Rightarrow> token list \<Rightarrow> domain_tree \<Rightarrow> domain_tree" where
  "unlink parent edge t =
     (case (parent, edge) of
        (Some pid, ft # _) \<Rightarrow> modify_node pid (remove_child ft) t
      | _ \<Rightarrow> t)"

section \<open>Public types\<close>

record handle =
  h_handle :: page_handle
  h_token_offset :: nat

datatype invalid_reason =
    PoolRefused pool_error
  | CacheRefRefused nat "32 word" pool_error
  | ZeroCheckpoint
  | NotAttached
  | DomainNotFound
  | ChildNotFound
  | NodeMissing

datatype insert_error =
    PartialLastPage nat
  | CpuNodeBoundExceeded nat nat
  | InvalidHandle invalid_reason
  | MisalignedHandle
  | CacheByteBoundExceeded nat nat
  | IndexPanics

record exact_candidate =
  ec_boundary :: nat
  ec_checkpoint :: checkpoint_id
  ec_ancestors :: nat
  ec_holder :: nat

record walk_result =
  w_matched_tokens :: nat
  w_resident_kv_tokens :: nat
  w_resumable_tokens :: nat
  w_path :: "nat list"
  w_exhausted_query :: bool
  w_pages :: "handle list"
  w_exact :: "exact_candidate option"

section \<open>Looking a prompt up\<close>

definition edge_match :: "token list \<Rightarrow> token list \<Rightarrow> nat" where
  "edge_match edge tokens = common_len edge tokens"

text \<open>The page loop: the contiguous resident prefix, the resident tokens and the pages found.\<close>

fun scan_pages ::
  "page_pool \<Rightarrow> nat \<Rightarrow> nat \<Rightarrow> page_handle list \<Rightarrow> nat \<Rightarrow> nat \<Rightarrow> handle list \<Rightarrow> nat \<times> nat \<times> handle list" where
  "scan_pages pool page_start matched_end [] contig resident pages = (contig, resident, pages)"
| "scan_pages pool page_start matched_end (ph # rest) contig resident pages =
     (let page_end = page_start + PAGE_TOKENS
      in if page_end > matched_end then (contig, resident, pages)
         else if is_ok (validate_handle pool ph)
         then scan_pages pool page_end matched_end rest (if contig = page_start then page_end else contig)
                (resident + PAGE_TOKENS) (pages @ [\<lparr>h_handle = ph, h_token_offset = page_start\<rparr>])
         else scan_pages pool page_end matched_end rest contig resident pages)"

definition better_exact :: "nat \<Rightarrow> nat \<Rightarrow> nat option \<Rightarrow> exact_candidate option \<Rightarrow> bool" where
  "better_exact bd contig exact_before exact =
     (case exact_before of
        None \<Rightarrow> False
      | Some before \<Rightarrow>
          bd < before \<and> bd - bd mod PAGE_TOKENS \<le> contig
          \<and> (case exact of None \<Rightarrow> True | Some e \<Rightarrow> bd > ec_boundary e))"

fun scan_checkpoints ::
  "nat \<Rightarrow> nat \<Rightarrow> nat \<Rightarrow> nat option \<Rightarrow> nat \<Rightarrow> nat \<Rightarrow> checkpoint_boundary list \<Rightarrow> nat \<Rightarrow> exact_candidate option
    \<Rightarrow> nat \<times> exact_candidate option" where
  "scan_checkpoints child_base m contig before ancestors holder [] resumable exact = (resumable, exact)"
| "scan_checkpoints child_base m contig before ancestors holder (cb # rest) resumable exact =
     (if cb_token_offset cb \<le> m
      then let bd = child_base + cb_token_offset cb;
               resumable = (if bd \<le> contig then max resumable bd else resumable);
               exact = (if better_exact bd contig before exact
                        then Some \<lparr>ec_boundary = bd, ec_checkpoint = cb_checkpoint cb, ec_ancestors = ancestors,
                                   ec_holder = holder\<rparr>
                        else exact)
           in scan_checkpoints child_base m contig before ancestors holder rest resumable exact
      else scan_checkpoints child_base m contig before ancestors holder rest resumable exact)"

fun walk_loop ::
  "nat \<Rightarrow> domain_tree \<Rightarrow> token list \<Rightarrow> page_pool \<Rightarrow> nat option \<Rightarrow> nat \<Rightarrow> nat \<Rightarrow> nat \<Rightarrow> walk_result \<Rightarrow> walk_result" where
  "walk_loop 0 tree tokens pool before current query_pos contig w = w\<lparr>w_exhausted_query := query_pos \<ge> length tokens\<rparr>"
| "walk_loop (Suc fuel) tree tokens pool before current query_pos contig w =
     (let stop = w\<lparr>w_exhausted_query := query_pos \<ge> length tokens\<rparr>
      in if query_pos \<ge> length tokens then stop
         else case node_at tree current of
           None \<Rightarrow> stop
         | Some node \<Rightarrow>
             (case child_of node (tokens ! query_pos) of
                None \<Rightarrow> stop
              | Some child_id \<Rightarrow>
                  (case node_at tree child_id of
                     None \<Rightarrow> stop
                   | Some child \<Rightarrow>
                       (let m = edge_match (edge_tokens child) (drop query_pos tokens);
                            child_base = w_matched_tokens w;
                            page_base = saturating_sub child_base (first_page_skip child);
                            (contig, resident, pages) = scan_pages pool page_base (child_base + m) (node_pages child) contig
                              (w_resident_kv_tokens w) (w_pages w);
                            (resumable, exact) = scan_checkpoints child_base m contig before (length (w_path w)) child_id
                              (node_checkpoints child) (w_resumable_tokens w) (w_exact w);
                            w = w\<lparr>w_matched_tokens := child_base + m, w_resident_kv_tokens := resident,
                                  w_resumable_tokens := resumable, w_pages := pages, w_exact := exact\<rparr>
                        in if m = length (edge_tokens child)
                           then walk_loop fuel tree tokens pool before child_id (query_pos + m) contig
                                  (w\<lparr>w_path := w_path w @ [child_id]\<rparr>)
                           else w\<lparr>w_exhausted_query := query_pos \<ge> length tokens\<rparr>))))"

definition tree_fuel :: "domain_tree \<Rightarrow> token list \<Rightarrow> nat" where
  "tree_fuel tree tokens = node_count tree + length tokens"

definition walk_start :: "nat list \<Rightarrow> walk_result" where
  "walk_start path =
     \<lparr>w_matched_tokens = 0, w_resident_kv_tokens = 0, w_resumable_tokens = 0, w_path = path, w_exhausted_query = False,
      w_pages = [], w_exact = None\<rparr>"

fun matched_loop :: "nat \<Rightarrow> domain_tree \<Rightarrow> token list \<Rightarrow> nat \<Rightarrow> nat \<Rightarrow> nat" where
  "matched_loop 0 tree tokens current pos = pos"
| "matched_loop (Suc fuel) tree tokens current pos =
     (if pos \<ge> length tokens then pos
      else case Option.bind (node_at tree current) (\<lambda>n. child_of n (tokens ! pos)) of
        None \<Rightarrow> pos
      | Some child_id \<Rightarrow>
          (case node_at tree child_id of
             None \<Rightarrow> pos
           | Some child \<Rightarrow>
               (let m = edge_match (edge_tokens child) (drop pos tokens)
                in if m < length (edge_tokens child) then pos + m
                   else matched_loop fuel tree tokens child_id (pos + m))))"

fun find_exact_loop :: "nat \<Rightarrow> domain_tree \<Rightarrow> token list \<Rightarrow> nat \<Rightarrow> nat \<Rightarrow> checkpoint_id option" where
  "find_exact_loop 0 tree tokens current pos = None"
| "find_exact_loop (Suc fuel) tree tokens current pos =
     (case Option.bind (node_at tree current) (\<lambda>n. child_of n (tokens ! pos)) of
        None \<Rightarrow> None
      | Some child_id \<Rightarrow>
          (case node_at tree child_id of
             None \<Rightarrow> None
           | Some child \<Rightarrow>
               (let remaining = length tokens - pos; n = min remaining (length (edge_tokens child))
                in if take n (edge_tokens child) \<noteq> take n (drop pos tokens) then None
                   else if n = remaining
                   then map_option cb_checkpoint (find (\<lambda>cb. cb_token_offset cb = n) (node_checkpoints child))
                   else find_exact_loop fuel tree tokens child_id (pos + n))))"

section \<open>Changing a tree\<close>

definition attach_checkpoint :: "radix_node \<Rightarrow> nat \<Rightarrow> checkpoint_id \<Rightarrow> radix_node \<times> checkpoint_id" where
  "attach_checkpoint node offset ckpt =
     (case find (\<lambda>cb. cb_token_offset cb = offset) (node_checkpoints node) of
        Some existing \<Rightarrow> (node, cb_checkpoint existing)
      | None \<Rightarrow>
          (node\<lparr>node_checkpoints := sort_key cb_token_offset
                 (node_checkpoints node @ [\<lparr>cb_token_offset = offset, cb_checkpoint = ckpt\<rparr>])\<rparr>, ckpt))"

text \<open>The two halves of a split edge: the marker in front and what remains of the child.\<close>

definition split_marker :: "radix_node \<Rightarrow> nat \<Rightarrow> nat \<Rightarrow> nat \<Rightarrow> nat \<Rightarrow> radix_node" where
  "split_marker child parent child_id split_pos split_count =
     (node_new (insert_seq child) parent (take split_pos (edge_tokens child)) (take split_count (node_pages child)))
       \<lparr>node_checkpoints := filter (\<lambda>cb. cb_token_offset cb \<le> split_pos) (node_checkpoints child),
        first_page_skip := first_page_skip child,
        node_children := [(edge_tokens child ! split_pos, child_id)]\<rparr>"

definition split_rest :: "radix_node \<Rightarrow> nat \<Rightarrow> nat \<Rightarrow> nat \<Rightarrow> radix_node" where
  "split_rest child split_node_id split_pos split_count =
     child
       \<lparr>edge_tokens := drop split_pos (edge_tokens child),
        node_pages := drop split_count (node_pages child),
        node_checkpoints := map (\<lambda>cb. cb\<lparr>cb_token_offset := cb_token_offset cb - split_pos\<rparr>)
          (filter (\<lambda>cb. cb_token_offset cb > split_pos) (node_checkpoints child)),
        first_page_skip := (first_page_skip child + split_pos) mod PAGE_TOKENS,
        node_parent := Some split_node_id\<rparr>"

definition split_edge :: "domain_tree \<Rightarrow> nat \<Rightarrow> nat \<Rightarrow> nat \<Rightarrow> nat \<Rightarrow> nat \<Rightarrow> domain_tree \<times> (insert_error + nat)" where
  "split_edge tree parent child_id split_pos max_cpu_nodes current_total =
     (case node_at tree child_id of
        None \<Rightarrow> (tree, Err IndexPanics)
      | Some child \<Rightarrow>
          if split_pos \<ge> length (edge_tokens child) then (tree, Ok 0)
          else
            let split_count = (split_pos + first_page_skip child) div PAGE_TOKENS
            in if current_total + 1 > max_cpu_nodes
               then (tree, Err (CpuNodeBoundExceeded current_total max_cpu_nodes))
               else if split_count > length (node_pages child) then (tree, Err IndexPanics)
               else
                 let (tree, split_node_id) = fresh_node_id tree;
                     tree = put_node tree split_node_id (split_marker child parent child_id split_pos split_count);
                     tree = put_node tree child_id (split_rest child split_node_id split_pos split_count)
                 in case node_at tree parent of
                      None \<Rightarrow> (tree, Err IndexPanics)
                    | Some p \<Rightarrow> (put_node tree parent (add_child (hd (edge_tokens child)) split_node_id p), Ok 1))"

text \<open>The child after a split has been undone.\<close>

definition joined :: "radix_node \<Rightarrow> radix_node \<Rightarrow> nat \<Rightarrow> radix_node" where
  "joined marker child parent =
     child
       \<lparr>edge_tokens := edge_tokens marker @ edge_tokens child,
        node_pages := node_pages marker @ node_pages child,
        node_checkpoints := sort_key cb_token_offset (node_checkpoints marker
          @ map (\<lambda>cb. cb\<lparr>cb_token_offset := cb_token_offset cb + length (edge_tokens marker)\<rparr>) (node_checkpoints child)),
        first_page_skip := first_page_skip marker,
        node_parent := Some parent\<rparr>"

definition unsplit_edge :: "domain_tree \<Rightarrow> nat \<Rightarrow> nat \<Rightarrow> nat \<Rightarrow> domain_tree" where
  "unsplit_edge tree parent split_node_id child_id =
     (case node_at tree split_node_id of
        None \<Rightarrow> tree
      | Some marker \<Rightarrow>
          let tree = drop_node tree split_node_id
          in case node_at tree child_id of
               None \<Rightarrow> tree
             | Some child \<Rightarrow>
                 let tree = put_node tree child_id (joined marker child parent)
                 in case edge_tokens marker of
                      [] \<Rightarrow> tree
                    | ft # _ \<Rightarrow> modify_node parent (add_child ft child_id) tree)"

type_synonym created_node = "nat \<times> token \<times> page_handle option"

definition rollback_chain :: "domain_tree \<Rightarrow> nat \<Rightarrow> created_node list \<Rightarrow> page_pool \<Rightarrow> domain_tree \<times> page_pool" where
  "rollback_chain tree parent created pool =
     (let tree = (case created of [] \<Rightarrow> tree | (_, ft, _) # _ \<Rightarrow> modify_node parent (remove_child ft) tree);
          tree = fold (\<lambda>(i, _, _) t. drop_node t i) (rev created) tree;
          pool = fold (\<lambda>(_, _, ph) p. case ph of None \<Rightarrow> p | Some ph \<Rightarrow> fst (release_cache_ref p (ph_phys ph)))
            (rev created) pool
      in (tree, pool))"

text \<open>One round of \<^verbatim>\<open>create_chain\<close>: the length of the new node's edge, the page it completes, and the node.\<close>

definition chain_span :: "nat \<Rightarrow> token list \<Rightarrow> nat" where
  "chain_span skip tokens = min (PAGE_TOKENS - skip) (length tokens)"

definition chain_page :: "nat \<Rightarrow> token list \<Rightarrow> handle list \<Rightarrow> page_handle option" where
  "chain_page skip tokens handles =
     (if skip + chain_span skip tokens = PAGE_TOKENS then map_option h_handle (vec_get handles 0) else None)"

definition chain_node :: "nat \<Rightarrow> nat \<Rightarrow> nat \<Rightarrow> token list \<Rightarrow> page_handle option \<Rightarrow> checkpoint_id option \<Rightarrow> radix_node" where
  "chain_node seq parent skip tokens ph checkpoint =
     (let span = chain_span skip tokens
      in (node_new seq parent (take span tokens) (case ph of None \<Rightarrow> [] | Some ph \<Rightarrow> [ph]))
           \<lparr>first_page_skip := skip,
            node_checkpoints := (case checkpoint of
                None \<Rightarrow> []
              | Some c \<Rightarrow>
                  if span \<ge> length tokens \<and> checkpoint_is_some c then [\<lparr>cb_token_offset = span, cb_checkpoint = c\<rparr>] else [])\<rparr>)"

definition take_ref :: "page_pool \<Rightarrow> page_handle option \<Rightarrow> page_pool \<times> (insert_error + unit)" where
  "take_ref pool ph =
     (case ph of
        None \<Rightarrow> (pool, Ok ())
      | Some ph \<Rightarrow>
          (case add_cache_ref pool (ph_phys ph) of
             (pool, Inl e) \<Rightarrow> (pool, Err (InvalidHandle (CacheRefRefused (ph_phys ph) (ph_generation ph) e)))
           | (pool, Inr _) \<Rightarrow> (pool, Ok ())))"

definition link_node :: "domain_tree \<Rightarrow> nat \<Rightarrow> nat \<Rightarrow> radix_node \<Rightarrow> domain_tree option" where
  "link_node tree parent nid node =
     (let tree = put_node tree nid node
      in case node_at tree parent of
           None \<Rightarrow> None
         | Some p \<Rightarrow> Some (put_node tree parent (add_child (hd (edge_tokens node)) nid p)))"

text \<open>\<open>skip\<close> is non-zero only in the first round, and \<open>node_total\<close> counts the nodes added so far.\<close>

function chain_loop ::
  "domain_tree \<Rightarrow> nat \<Rightarrow> nat \<Rightarrow> token list \<Rightarrow> handle list \<Rightarrow> nat \<Rightarrow> checkpoint_id option \<Rightarrow> page_pool \<Rightarrow> nat \<Rightarrow> nat
    \<Rightarrow> created_node list \<Rightarrow> nat \<Rightarrow> domain_tree \<times> page_pool \<times> (insert_error + nat \<times> nat)" where
  "chain_loop tree parent current_parent tokens handles skip checkpoint pool max_cpu_nodes node_total created adopted =
     (if tokens = [] then (tree, pool, Ok (length created, adopted))
      else if chain_span skip tokens = 0 then (tree, pool, Err IndexPanics)
      else
        let (tree, nid) = fresh_node_id tree;
            ph = chain_page skip tokens handles;
            (tree, seq) = fresh_insert_seq tree;
            node = chain_node seq current_parent skip tokens ph checkpoint
        in if node_total + 1 > max_cpu_nodes
           then case rollback_chain tree parent created pool of
                  (tree, pool) \<Rightarrow> (tree, pool, Err (CpuNodeBoundExceeded node_total max_cpu_nodes))
           else case take_ref pool ph of
                  (pool, Inl e) \<Rightarrow> (case rollback_chain tree parent created pool of (tree, pool) \<Rightarrow> (tree, pool, Err e))
                | (pool, Inr _) \<Rightarrow>
                    (case link_node tree current_parent nid node of
                       None \<Rightarrow> (tree, pool, Err IndexPanics)
                     | Some tree \<Rightarrow>
                         chain_loop tree parent nid (drop (chain_span skip tokens) tokens) (drop 1 handles) 0 checkpoint pool
                           max_cpu_nodes (node_total + 1) (created @ [(nid, hd tokens, ph)])
                           (if ph = None then adopted else adopted + 1)))"
  by pat_completeness auto
termination
  by (relation "measure (\<lambda>(_, _, _, tokens, _). length tokens)") (auto simp: chain_span_def)

declare chain_loop.simps [simp del]

definition create_chain ::
  "domain_tree \<Rightarrow> nat \<Rightarrow> token list \<Rightarrow> handle list \<Rightarrow> nat \<Rightarrow> checkpoint_id option \<Rightarrow> page_pool \<Rightarrow> nat \<Rightarrow> nat
    \<Rightarrow> domain_tree \<times> page_pool \<times> (insert_error + nat \<times> nat)" where
  "create_chain tree parent tokens handles first_skip checkpoint pool max_cpu_nodes current_total =
     chain_loop tree parent parent tokens handles first_skip checkpoint pool max_cpu_nodes current_total [] 0"

definition requested_id :: "checkpoint_id option \<Rightarrow> checkpoint_id" where
  "requested_id checkpoint = (case checkpoint of None \<Rightarrow> CHECKPOINT_NONE | Some c \<Rightarrow> c)"

text \<open>Attach the requested checkpoint, if there is one, at the end of a node; the root takes it at offset 0.\<close>

definition attach_requested :: "domain_tree \<Rightarrow> nat \<Rightarrow> checkpoint_id option \<Rightarrow> insert_error \<Rightarrow> domain_tree \<times> (insert_error + checkpoint_id)" where
  "attach_requested tree nid checkpoint missing =
     (if requested_id checkpoint = CHECKPOINT_NONE then (tree, Ok CHECKPOINT_NONE)
      else case node_at tree nid of
        None \<Rightarrow> (tree, Err missing)
      | Some node \<Rightarrow>
          (case attach_checkpoint node (if nid = tree_root tree then 0 else length (edge_tokens node)) (requested_id checkpoint) of
             (node, adopted) \<Rightarrow> (put_node tree nid node, Ok adopted)))"

text \<open>The handles from the page in which a token lies.\<close>

abbreviation handles_from :: "nat \<Rightarrow> handle list \<Rightarrow> handle list" where
  "handles_from pos handles \<equiv> drop (min (pos div PAGE_TOKENS) (length handles)) handles"

fun insert_loop ::
  "nat \<Rightarrow> domain_tree \<Rightarrow> token list \<Rightarrow> handle list \<Rightarrow> checkpoint_id option \<Rightarrow> page_pool \<Rightarrow> nat \<Rightarrow> nat \<Rightarrow> nat \<Rightarrow> nat
    \<Rightarrow> domain_tree \<times> page_pool \<times> (insert_error + nat \<times> nat \<times> checkpoint_id)" where
  "insert_loop 0 tree tokens handles checkpoint pool max_cpu_nodes current_total current query_pos = (tree, pool, Err IndexPanics)"
| "insert_loop (Suc fuel) tree tokens handles checkpoint pool max_cpu_nodes current_total current query_pos =
     (if query_pos \<ge> length tokens
      then case attach_requested tree current checkpoint (InvalidHandle NodeMissing) of
             (tree, Inl e) \<Rightarrow> (tree, pool, Err e)
           | (tree, Inr adopted) \<Rightarrow> (tree, pool, Ok (0, 0, adopted))
      else case node_at tree current of
        None \<Rightarrow> (tree, pool, Err (InvalidHandle NodeMissing))
      | Some node \<Rightarrow>
          (case child_of node (tokens ! query_pos) of
             None \<Rightarrow>
               (case create_chain tree current (drop query_pos tokens) (handles_from query_pos handles) (query_pos mod PAGE_TOKENS)
                       checkpoint pool max_cpu_nodes current_total of
                  (tree, pool, Inl e) \<Rightarrow> (tree, pool, Err e)
                | (tree, pool, Inr (d, p)) \<Rightarrow> (tree, pool, Ok (d, p, requested_id checkpoint)))
           | Some child_id \<Rightarrow>
               (case node_at tree child_id of
                  None \<Rightarrow> (tree, pool, Err (InvalidHandle NodeMissing))
                | Some child \<Rightarrow>
                    (let m = edge_match (edge_tokens child) (drop query_pos tokens)
                     in if m = length (edge_tokens child)
                        then insert_loop fuel tree tokens handles checkpoint pool max_cpu_nodes current_total child_id (query_pos + m)
                        else
                          let divergence = query_pos + m
                          in case split_edge tree current child_id m max_cpu_nodes current_total of
                               (tree, Inl e) \<Rightarrow> (tree, pool, Err e)
                             | (tree, Inr delta) \<Rightarrow>
                                 (case Option.bind (node_at tree current) (\<lambda>p. child_of p (tokens ! query_pos)) of
                                    None \<Rightarrow> (tree, pool, Err IndexPanics)
                                  | Some split_id \<Rightarrow>
                                      if divergence \<ge> length tokens
                                      then case attach_requested tree split_id checkpoint IndexPanics of
                                             (tree, Inl e) \<Rightarrow> (tree, pool, Err e)
                                           | (tree, Inr adopted) \<Rightarrow> (tree, pool, Ok (delta, 0, adopted))
                                      else case create_chain tree split_id (drop divergence tokens) (handles_from divergence handles)
                                                  (divergence mod PAGE_TOKENS) checkpoint pool max_cpu_nodes (current_total + delta) of
                                             (tree, pool, Inl e) \<Rightarrow> (unsplit_edge tree current split_id child_id, pool, Err e)
                                           | (tree, pool, Inr (d, p)) \<Rightarrow>
                                               (tree, pool, Ok (delta + d, p, requested_id checkpoint)))))))"

definition insert_into_tree ::
  "domain_tree \<Rightarrow> token list \<Rightarrow> handle list \<Rightarrow> checkpoint_id option \<Rightarrow> page_pool \<Rightarrow> nat \<Rightarrow> nat
    \<Rightarrow> domain_tree \<times> page_pool \<times> (insert_error + nat \<times> nat \<times> checkpoint_id)" where
  "insert_into_tree tree tokens handles checkpoint pool max_cpu_nodes current_total =
     insert_loop (Suc (tree_fuel tree tokens)) tree tokens handles checkpoint pool max_cpu_nodes current_total (tree_root tree) 0"

section \<open>The nodes of a tree\<close>

definition tree_keys :: "domain_tree \<Rightarrow> nat set" where
  "tree_keys t = fst ` set (tree_nodes t)"

lemma keys_update: "fst ` set (AList.update k v xs) = insert k (fst ` set xs)"
  by (induction xs) auto

lemma keys_delete: "fst ` set (AList.delete k xs) = fst ` set xs - {k}"
  by (induction xs) auto

lemma tree_keys_simps [simp]:
  "tree_keys (put_node t i n) = insert i (tree_keys t)" "tree_keys (drop_node t i) = tree_keys t - {i}"
  "tree_keys (t\<lparr>next_node_id := a\<rparr>) = tree_keys t" "tree_keys (t\<lparr>next_insert_seq := b\<rparr>) = tree_keys t"
  by (simp_all add: tree_keys_def keys_update keys_delete)

lemma node_at_key: "node_at t i = Some n \<Longrightarrow> i \<in> tree_keys t"
  by (force simp: tree_keys_def dest: map_of_SomeD)

lemma finite_tree_keys [simp]: "finite (tree_keys t)"
  by (simp add: tree_keys_def)

lemma tree_keys_modify [simp]: "tree_keys (modify_node i f t) = tree_keys t"
  by (auto simp: modify_node_def dest: node_at_key split: option.split)

lemma tree_keys_unlink [simp]: "tree_keys (unlink p e t) = tree_keys t"
  by (auto simp: unlink_def split: option.split list.split)

text \<open>The outcomes of one round.\<close>

abbreviation bumped :: "domain_tree \<Rightarrow> domain_tree" where
  "bumped t \<equiv> t\<lparr>next_node_id := next_node_id t + 1, next_insert_seq := next_insert_seq t + 1\<rparr>"

lemma next_insert_seq_fresh: "next_insert_seq (t\<lparr>next_node_id := a\<rparr>) = next_insert_seq t"
  by simp

lemma chain_loop_cases:
  assumes "chain_loop t parent cp tokens handles skip ck pool maxn tot created adopted = (t', pool', res)"
  defines "ph \<equiv> chain_page skip tokens handles"
    and "node \<equiv> chain_node (next_insert_seq t) cp skip tokens (chain_page skip tokens handles) ck"
  obtains (finished) "tokens = []" "t' = t" "pool' = pool" "res = Ok (length created, adopted)"
  | (panic) "tokens \<noteq> []" "chain_span skip tokens = 0 \<or> link_node (bumped t) cp (next_node_id t) node = None" "res = Err IndexPanics"
  | (bound) "tokens \<noteq> []" "(t', pool') = rollback_chain (bumped t) parent created pool" "res = Err (CpuNodeBoundExceeded tot maxn)" "tot + 1 > maxn"
  | (refused) e pool1 where "tokens \<noteq> []" "take_ref pool ph = (pool1, Err e)" "(t', pool') = rollback_chain (bumped t) parent created pool1"
      "res = Err e"
  | (step) pool1 t1 where "tokens \<noteq> []" "0 < chain_span skip tokens" "tot + 1 \<le> maxn" "take_ref pool ph = (pool1, Ok ())"
      "link_node (bumped t) cp (next_node_id t) node = Some t1"
      "chain_loop t1 parent (next_node_id t) (drop (chain_span skip tokens) tokens) (drop 1 handles) 0 ck pool1 maxn (tot + 1)
         (created @ [(next_node_id t, hd tokens, ph)]) (if ph = None then adopted else adopted + 1) = (t', pool', res)"
proof -
  note e = assms(1) [unfolded chain_loop.simps [of t] fresh_node_id_def fresh_insert_seq_def Let_def prod.case
      next_insert_seq_fresh, folded ph_def, folded node_def [folded ph_def]]
  obtain pool1 r where tr: "take_ref pool ph = (pool1, r)" by fastforce
  consider "tokens = []" | "tokens \<noteq> []" "chain_span skip tokens = 0" | "tokens \<noteq> []" "0 < chain_span skip tokens" "tot + 1 > maxn"
    | x where "tokens \<noteq> []" "0 < chain_span skip tokens" "tot + 1 \<le> maxn" "r = Inl x"
    | "tokens \<noteq> []" "0 < chain_span skip tokens" "tot + 1 \<le> maxn" "r = Inr ()"
    by (cases r) fastforce+
  then show thesis
  proof cases
    case 1
    then show thesis using e that(1) by simp
  next
    case 2
    then show thesis using e that(2) by simp
  next
    case 3
    then show thesis using e that(3) by (simp split: prod.splits)
  next
    case 4
    then show thesis using e tr that(4) by (simp split: prod.splits)
  next
    case 5
    show thesis
    proof (cases "link_node (bumped t) cp (next_node_id t) node")
      case None
      then show thesis using e tr 5 that(2) by simp
    next
      case (Some t1)
      then show thesis using e tr 5 that(5) [of pool1 t1] by simp
    qed
  qed
qed

lemma link_node_Some:
  "link_node t cp i n = Some t' \<longleftrightarrow>
    (\<exists>p. node_at (put_node t i n) cp = Some p \<and> t' = put_node (put_node t i n) cp (add_child (hd (edge_tokens n)) i p))"
  by (auto simp: link_node_def Let_def split: option.splits)

lemma drop_chain_span: "tokens \<noteq> [] \<Longrightarrow> 0 < chain_span skip tokens \<Longrightarrow> length (drop (chain_span skip tokens) tokens) < length tokens"
  by (auto simp: chain_span_def)

end
