(* ===== verification/Prefix_Index.thy ===== *)
theory Prefix_Index
  imports Prefix_Tree
begin

text \<open>
  The prefix index of \<^verbatim>\<open>crates/hipfire-runtime/src/prefix_index.rs\<close>: one radix tree per cache domain, lookups
  and their pins, publication under the node bound and the byte ceiling, leaf-first eviction, and the
  queue of retired checkpoints. The index owns one cache reference of the page pool per handle in a
  node. Node counts and byte totals are natural numbers; the \<^verbatim>\<open>i32\<close> difference of node counts is exact
  below \<open>2 ^ 31\<close> nodes.
\<close>

section \<open>The index\<close>

type_synonym pin_ticket = "nat list"

record inspect_result =
  ir_matched_tokens :: nat
  ir_resident_kv_tokens :: nat
  ir_resumable_tokens :: nat

record checkpoint_hit =
  hit_lookup :: prefix_lookup
  hit_checkpoint :: checkpoint_id
  hit_pages :: "handle list"
  hit_pin :: pin_ticket

record prefix_index =
  px_trees :: "(cache_domain \<times> domain_tree) list"
  px_max_cpu_nodes :: nat
  px_total_nodes :: nat
  px_max_retained_bytes :: "nat option"
  px_retained_bytes :: nat
  px_retired :: "checkpoint_id list"
  px_exact_ids :: "checkpoint_id set"

definition px_new :: "nat \<Rightarrow> prefix_index" where
  "px_new max_cpu_nodes =
     \<lparr>px_trees = [], px_max_cpu_nodes = max_cpu_nodes, px_total_nodes = 0, px_max_retained_bytes = None,
      px_retained_bytes = 0, px_retired = [], px_exact_ids = {}\<rparr>"

definition set_max_retained_bytes :: "prefix_index \<Rightarrow> nat \<Rightarrow> prefix_index" where
  "set_max_retained_bytes ix max_bytes = ix\<lparr>px_max_retained_bytes := Some max_bytes\<rparr>"

definition domain_count :: "prefix_index \<Rightarrow> nat" where
  "domain_count ix = length (px_trees ix)"

section \<open>Looking a prompt up\<close>

definition walk :: "prefix_index \<Rightarrow> cache_domain \<Rightarrow> token list \<Rightarrow> page_pool \<Rightarrow> nat option \<Rightarrow> walk_result" where
  "walk ix domain tokens pool exact_before =
     (case map_of (px_trees ix) domain of
        None \<Rightarrow> walk_start []
      | Some tree \<Rightarrow>
          walk_loop (tree_fuel tree tokens) tree tokens pool exact_before (tree_root tree) 0 0 (walk_start [tree_root tree]))"

text \<open>\<^verbatim>\<open>if let Some(tree) = self.trees.get_mut(domain)\<close>.\<close>

definition modify_tree :: "cache_domain \<Rightarrow> (domain_tree \<Rightarrow> domain_tree) \<Rightarrow> prefix_index \<Rightarrow> prefix_index" where
  "modify_tree domain f ix =
     (case map_of (px_trees ix) domain of
        None \<Rightarrow> ix
      | Some t \<Rightarrow> ix\<lparr>px_trees := AList.update domain (f t) (px_trees ix)\<rparr>)"

definition pin_node :: "radix_node \<Rightarrow> radix_node" where
  "pin_node n = n\<lparr>pin_count := min (pin_count n + 1) u32_max\<rparr>"

definition unpin_node :: "radix_node \<Rightarrow> radix_node" where
  "unpin_node n = n\<lparr>pin_count := saturating_sub (pin_count n) 1\<rparr>"

definition pin_path :: "prefix_index \<Rightarrow> cache_domain \<Rightarrow> nat list \<Rightarrow> prefix_index \<times> pin_ticket" where
  "pin_path ix domain path = (modify_tree domain (fold (\<lambda>i. modify_node i pin_node) path) ix, path)"

definition release_pin :: "prefix_index \<Rightarrow> cache_domain \<Rightarrow> pin_ticket \<Rightarrow> prefix_index" where
  "release_pin ix domain ticket =
     (if ticket = [] then ix else modify_tree domain (fold (\<lambda>i. modify_node i unpin_node) ticket) ix)"

definition lookup_inner ::
  "prefix_index \<Rightarrow> cache_domain \<Rightarrow> token list \<Rightarrow> page_pool \<Rightarrow> cache_policy option \<Rightarrow> bool
    \<Rightarrow> prefix_index \<times> prefix_lookup_result \<times> handle list \<times> pin_ticket" where
  "lookup_inner ix domain tokens pool policy pin =
     (let walk = walk ix domain tokens pool None
      in if w_matched_tokens walk = 0 then (ix, Miss NoMatch, [], [])
         else if w_resumable_tokens walk = 0 then (ix, Miss NoCheckpoint, [], [])
         else if (case policy of
                    None \<Rightarrow> False
                  | Some p \<Rightarrow> \<not> allow_partial p \<and> w_resumable_tokens walk < w_matched_tokens walk)
         then (ix, Miss IncompatiblePolicy, [], [])
         else let (ix, ticket) = (if pin then pin_path ix domain (w_path walk) else (ix, []));
                  resumable = w_resumable_tokens walk;
                  handles = filter (\<lambda>h. h_token_offset h + PAGE_TOKENS \<le> resumable) (w_pages walk)
              in (ix, Hit \<lparr>matched_tokens = w_matched_tokens walk, resident_kv_tokens = w_resident_kv_tokens walk,
                           resumable_tokens = w_resumable_tokens walk\<rparr>, handles, ticket))"

definition px_lookup ::
  "prefix_index \<Rightarrow> cache_domain \<Rightarrow> token list \<Rightarrow> page_pool \<Rightarrow> cache_policy option \<Rightarrow> prefix_index \<times> prefix_lookup_result" where
  "px_lookup ix domain tokens pool policy =
     (case lookup_inner ix domain tokens pool policy False of (ix, res, _, _) \<Rightarrow> (ix, res))"

definition lookup_with_pages ::
  "prefix_index \<Rightarrow> cache_domain \<Rightarrow> token list \<Rightarrow> page_pool \<Rightarrow> cache_policy option
    \<Rightarrow> prefix_index \<times> prefix_lookup_result \<times> handle list \<times> pin_ticket" where
  "lookup_with_pages ix domain tokens pool policy = lookup_inner ix domain tokens pool policy True"

definition inspect :: "prefix_index \<Rightarrow> cache_domain \<Rightarrow> token list \<Rightarrow> page_pool \<Rightarrow> inspect_result" where
  "inspect ix domain tokens pool =
     (let walk = walk ix domain tokens pool None
      in \<lparr>ir_matched_tokens = w_matched_tokens walk, ir_resident_kv_tokens = w_resident_kv_tokens walk,
          ir_resumable_tokens = w_resumable_tokens walk\<rparr>)"

definition lookup_checkpoint ::
  "prefix_index \<Rightarrow> cache_domain \<Rightarrow> token list \<Rightarrow> nat \<Rightarrow> page_pool \<Rightarrow> prefix_index \<times> (miss_reason + checkpoint_hit)" where
  "lookup_checkpoint ix domain tokens before pool =
     (let walk = walk ix domain tokens pool (Some before)
      in if w_matched_tokens walk = 0 then (ix, Err NoMatch)
         else case w_exact walk of
           None \<Rightarrow> (ix, Err NoCheckpoint)
         | Some cand \<Rightarrow>
             (let nodes = take (ec_ancestors cand) (w_path walk) @ [ec_holder cand];
                  bd = ec_boundary cand;
                  pages = filter (\<lambda>h. h_token_offset h + PAGE_TOKENS \<le> bd) (w_pages walk);
                  (ix, pin) = pin_path ix domain nodes
              in (ix, Ok \<lparr>hit_lookup = \<lparr>matched_tokens = w_matched_tokens walk,
                                        resident_kv_tokens = w_resident_kv_tokens walk, resumable_tokens = bd\<rparr>,
                          hit_checkpoint = ec_checkpoint cand, hit_pages = pages, hit_pin = pin\<rparr>)))"

definition matched_len :: "prefix_index \<Rightarrow> cache_domain \<Rightarrow> token list \<Rightarrow> nat" where
  "matched_len ix domain tokens =
     (case map_of (px_trees ix) domain of
        None \<Rightarrow> 0
      | Some tree \<Rightarrow> matched_loop (tree_fuel tree tokens) tree tokens (tree_root tree) 0)"

definition find_exact_checkpoint :: "prefix_index \<Rightarrow> cache_domain \<Rightarrow> token list \<Rightarrow> checkpoint_id option" where
  "find_exact_checkpoint ix domain tokens =
     (if tokens = [] then None
      else case map_of (px_trees ix) domain of
        None \<Rightarrow> None
      | Some tree \<Rightarrow> find_exact_loop (tree_fuel tree tokens) tree tokens (tree_root tree) 0)"

section \<open>Eviction\<close>

text \<open>\<^verbatim>\<open>.filter(|id| exact.remove(id))\<close>: the ids that were exact, in order, each taken out of the set.\<close>

fun retire_ids :: "checkpoint_id list \<Rightarrow> checkpoint_id set \<Rightarrow> checkpoint_id list \<times> checkpoint_id set" where
  "retire_ids [] exact = ([], exact)"
| "retire_ids (i # is) exact =
     (if i \<in> exact then (case retire_ids is (exact - {i}) of (r, e) \<Rightarrow> (i # r, e)) else retire_ids is exact)"

definition retire_node :: "prefix_index \<Rightarrow> radix_node \<Rightarrow> prefix_index" where
  "retire_node ix node =
     (case retire_ids (map cb_checkpoint (node_checkpoints node)) (px_exact_ids ix) of
        (ids, exact) \<Rightarrow> ix\<lparr>px_retired := px_retired ix @ ids, px_exact_ids := exact\<rparr>)"

text \<open>The release loop of one node: how many references the pool gave back.\<close>

fun release_pages :: "page_pool \<Rightarrow> page_handle list \<Rightarrow> page_pool \<times> nat" where
  "release_pages pool [] = (pool, 0)"
| "release_pages pool (ph # rest) =
     (case release_cache_ref pool (ph_phys ph) of
        (pool, res) \<Rightarrow> (case release_pages pool rest of (pool, n) \<Rightarrow> (pool, if is_ok res then n + 1 else n)))"

fun release_nodes :: "prefix_index \<Rightarrow> page_pool \<Rightarrow> radix_node list \<Rightarrow> prefix_index \<times> page_pool \<times> nat" where
  "release_nodes ix pool [] = (ix, pool, 0)"
| "release_nodes ix pool (node # rest) =
     (case release_pages pool (node_pages node) of
        (pool, n) \<Rightarrow> (case release_nodes (retire_node ix node) pool rest of (ix, pool, k) \<Rightarrow> (ix, pool, n + k)))"

definition px_nodes :: "prefix_index \<Rightarrow> radix_node list" where
  "px_nodes ix = concat (map (\<lambda>(_, t). map snd (tree_nodes t)) (px_trees ix))"

definition px_release_all :: "prefix_index \<Rightarrow> page_pool \<Rightarrow> prefix_index \<times> page_pool \<times> nat" where
  "px_release_all ix pool =
     (case release_nodes (ix\<lparr>px_trees := []\<rparr>) pool (px_nodes ix) of
        (ix, pool, released) \<Rightarrow> (ix\<lparr>px_total_nodes := 0, px_retained_bytes := 0\<rparr>, pool, released))"

definition page_bytes :: "page_pool \<Rightarrow> nat" where
  "page_bytes pool = k_page_bytes pool + v_page_bytes pool"

definition evictable :: "domain_tree \<Rightarrow> nat \<Rightarrow> radix_node \<Rightarrow> bool" where
  "evictable t nid node \<longleftrightarrow> nid \<noteq> tree_root t \<and> is_leaf_node node \<and> pin_count node = 0"

definition evict_leaf ::
  "prefix_index \<Rightarrow> cache_domain \<Rightarrow> nat \<Rightarrow> page_pool \<Rightarrow> nat list
    \<Rightarrow> prefix_index \<times> page_pool \<times> nat list \<times> (nat \<times> (nat \<times> nat) option) option" where
  "evict_leaf ix domain nid pool evicted_phys =
     (case map_of (px_trees ix) domain of
        None \<Rightarrow> (ix, pool, evicted_phys, None)
      | Some tree \<Rightarrow>
          (case node_at tree nid of
             None \<Rightarrow> (ix, pool, evicted_phys, None)
           | Some node \<Rightarrow>
               if \<not> evictable tree nid node then (ix, pool, evicted_phys, None)
               else
                 let tree = drop_node (unlink (node_parent node) (edge_tokens node) tree) nid;
                     ix = ix\<lparr>px_trees := AList.update domain tree (px_trees ix),
                             px_total_nodes := saturating_sub (px_total_nodes ix) 1\<rparr>;
                     ix = retire_node ix node;
                     freed = length (node_pages node) * page_bytes pool;
                     ix = ix\<lparr>px_retained_bytes := saturating_sub (px_retained_bytes ix) freed\<rparr>;
                     parent_candidate = Option.bind (node_parent node) (\<lambda>pid.
                       Option.bind (node_at tree pid) (\<lambda>parent.
                         if evictable tree pid parent then Some (pid, insert_seq parent) else None))
                 in (ix, fst (release_pages pool (node_pages node)), evicted_phys @ map ph_phys (node_pages node),
                     Some (freed, parent_candidate))))"

section \<open>The size of the index\<close>

text \<open>The loops that evict end because each round removes a node.\<close>

definition live_nodes :: "prefix_index \<Rightarrow> nat" where
  "live_nodes ix = sum_list (map (\<lambda>(_, t). card (tree_keys t)) (px_trees ix))"

lemma sum_list_update_alist:
  "map_of xs k = Some v \<Longrightarrow>
    sum_list (map (\<lambda>(_, t). f t) (AList.update k w xs)) + f v = sum_list (map (\<lambda>(_, t). f t) xs) + (f w :: nat)"
  by (induction xs) (auto simp: algebra_simps split: if_splits)

lemma evict_leaf_shrinks:
  assumes "evict_leaf ix domain nid pool ev = (ix', pool', ev', Some r)"
  shows "live_nodes ix' < live_nodes ix"
proof -
  obtain t n where t: "map_of (px_trees ix) domain = Some t" "node_at t nid = Some n"
    and ix': "px_trees ix' = AList.update domain (drop_node (unlink (node_parent n) (edge_tokens n) t) nid) (px_trees ix)"
    using assms by (auto simp: evict_leaf_def Let_def retire_node_def split: option.splits if_splits prod.splits)
  have "card (tree_keys t - {nid}) < card (tree_keys t)" by (rule card_Diff1_less) (use node_at_key [OF t(2)] in auto)
  then show ?thesis
    using sum_list_update_alist [OF t(1), of "\<lambda>t. card (tree_keys t)" "drop_node (unlink (node_parent n) (edge_tokens n) t) nid"]
    by (simp add: live_nodes_def ix')
qed

lemma evict_leaf_total: "evict_leaf ix domain nid pool ev = (ix', pool', ev', r) \<Longrightarrow> px_total_nodes ix' \<le> px_total_nodes ix"
  by (auto simp: evict_leaf_def Let_def retire_node_def split: option.splits if_splits prod.splits)

lemma evict_leaf_None: "evict_leaf ix domain nid pool ev = (ix', pool', ev', None) \<Longrightarrow> ix' = ix \<and> pool' = pool \<and> ev' = ev"
  by (auto simp: evict_leaf_def Let_def split: option.splits if_splits)

section \<open>Eviction in bulk\<close>

definition unpinned_leaves :: "prefix_index \<Rightarrow> (cache_domain \<times> nat \<times> nat) list" where
  "unpinned_leaves ix =
     concat (map (\<lambda>(domain, tree).
       map (\<lambda>(nid, node). (domain, nid, insert_seq node)) (filter (\<lambda>(nid, node). evictable tree nid node) (tree_nodes tree)))
       (px_trees ix))"

function evict_loop ::
  "prefix_index \<Rightarrow> page_pool \<Rightarrow> nat \<Rightarrow> (cache_domain \<times> nat \<times> nat) list \<Rightarrow> nat \<Rightarrow> nat list \<Rightarrow> prefix_index \<times> page_pool \<times> nat list" where
  "evict_loop ix pool max_bytes [] bytes_freed evicted = (ix, pool, evicted)"
| "evict_loop ix pool max_bytes ((domain, nid, seq) # rest) bytes_freed evicted =
     (if bytes_freed \<ge> max_bytes then (ix, pool, evicted)
      else case evict_leaf ix domain nid pool evicted of
        (ix, pool, evicted, None) \<Rightarrow> evict_loop ix pool max_bytes rest bytes_freed evicted
      | (ix, pool, evicted, Some (freed, parent)) \<Rightarrow>
          evict_loop ix pool max_bytes (rest @ (case parent of None \<Rightarrow> [] | Some (pid, seq) \<Rightarrow> [(domain, pid, seq)]))
            (bytes_freed + freed) evicted)"
  by pat_completeness auto
termination
  by (relation "measure (\<lambda>(ix, _, _, candidates, _). live_nodes ix + length candidates)")
    (auto split: option.split dest!: evict_leaf_shrinks evict_leaf_None [OF sym] dest: sym)

definition evict_unpinned_leaves :: "prefix_index \<Rightarrow> page_pool \<Rightarrow> nat \<Rightarrow> prefix_index \<times> page_pool \<times> nat list" where
  "evict_unpinned_leaves ix pool max_bytes =
     evict_loop ix pool max_bytes (sort_key (\<lambda>(_, _, seq). seq) (unpinned_leaves ix)) 0 []"

fun oldest_leaf :: "(cache_domain \<times> nat \<times> nat) list \<Rightarrow> (cache_domain \<times> nat \<times> nat) option \<Rightarrow> (cache_domain \<times> nat \<times> nat) option" where
  "oldest_leaf [] best = best"
| "oldest_leaf ((domain, nid, seq) # rest) best =
     oldest_leaf rest
       (case best of
          None \<Rightarrow> Some (domain, nid, seq)
        | Some (bdomain, bid, bseq) \<Rightarrow>
            if seq < bseq \<or> seq = bseq \<and> nid < bid then Some (domain, nid, seq) else Some (bdomain, bid, bseq))"

definition evict_oldest_unpinned_leaf :: "prefix_index \<Rightarrow> page_pool \<Rightarrow> prefix_index \<times> page_pool \<times> bool" where
  "evict_oldest_unpinned_leaf ix pool =
     (case oldest_leaf (unpinned_leaves ix) None of
        None \<Rightarrow> (ix, pool, False)
      | Some (domain, nid, _) \<Rightarrow> (case evict_leaf ix domain nid pool [] of (ix, pool, _, r) \<Rightarrow> (ix, pool, r \<noteq> None)))"

lemma evict_loop_total: "px_total_nodes (fst (evict_loop ix pool mb cands freed ev)) \<le> px_total_nodes ix"
proof (induction ix pool mb cands freed ev rule: evict_loop.induct)
  case (2 ix pool mb domain nid seq rest freed ev)
  obtain ix1 pool1 ev1 r where e: "evict_leaf ix domain nid pool ev = (ix1, pool1, ev1, r)" by (metis surj_pair)
  show ?case
  proof (cases r)
    case None
    then show ?thesis using 2(1) e evict_leaf_total [OF e] by fastforce
  next
    case (Some p)
    then show ?thesis using 2(2) e evict_leaf_total [OF e] by (cases p) fastforce
  qed
qed simp

lemma evict_unpinned_total: "evict_unpinned_leaves ix pool mb = (ix', pool', ev) \<Longrightarrow> px_total_nodes ix' \<le> px_total_nodes ix"
  unfolding evict_unpinned_leaves_def using evict_loop_total by (metis fst_conv)

function evict_for_capacity :: "prefix_index \<Rightarrow> page_pool \<Rightarrow> nat \<Rightarrow> prefix_index \<times> page_pool \<times> (insert_error + unit)" where
  "evict_for_capacity ix pool needed =
     (if px_total_nodes ix + needed \<le> px_max_cpu_nodes ix then (ix, pool, Ok ())
      else case evict_unpinned_leaves ix pool u64_max of
        (ix', pool', _) \<Rightarrow>
          if px_total_nodes ix' = px_total_nodes ix
          then (ix', pool', Err (CpuNodeBoundExceeded (px_total_nodes ix') (px_max_cpu_nodes ix')))
          else evict_for_capacity ix' pool' needed)"
  by pat_completeness auto
termination
  by (relation "measure (\<lambda>(ix, _). px_total_nodes ix)") (auto dest!: evict_unpinned_total [OF sym] le_neq_implies_less)

declare evict_for_capacity.simps [simp del]

section \<open>Publication\<close>

definition drop_new_tree :: "prefix_index \<Rightarrow> cache_domain \<Rightarrow> prefix_index" where
  "drop_new_tree ix domain =
     (case map_of (px_trees ix) domain of
        None \<Rightarrow> ix
      | Some t \<Rightarrow> ix\<lparr>px_trees := AList.delete domain (px_trees ix),
                      px_total_nodes := saturating_sub (px_total_nodes ix) (node_count t)\<rparr>)"

definition needed_pages :: "prefix_index \<Rightarrow> cache_domain \<Rightarrow> token list \<Rightarrow> handle list \<Rightarrow> bool \<Rightarrow> nat" where
  "needed_pages ix domain tokens handles credit_present =
     (if credit_present then length handles - min (matched_len ix domain tokens div PAGE_TOKENS) (length handles)
      else length handles)"

text \<open>The loop under the byte ceiling: evict until the publication fits, or until a pass removes nothing.\<close>

function ceiling_loop ::
  "prefix_index \<Rightarrow> cache_domain \<Rightarrow> token list \<Rightarrow> handle list \<Rightarrow> bool \<Rightarrow> page_pool \<Rightarrow> nat \<Rightarrow> prefix_index \<times> page_pool \<times> bool" where
  "ceiling_loop ix domain tokens handles credit_present pool max_bytes =
     (let projected = saturating_add64 (px_retained_bytes ix)
            (saturating_mul64 (needed_pages ix domain tokens handles credit_present) (page_bytes pool))
      in if projected \<le> max_bytes then (ix, pool, True)
         else case evict_unpinned_leaves ix pool (saturating_sub projected max_bytes) of
           (ix', pool', _) \<Rightarrow>
             if px_total_nodes ix' = px_total_nodes ix then (ix', pool', False)
             else ceiling_loop ix' domain tokens handles credit_present pool' max_bytes)"
  by pat_completeness auto
termination
  by (relation "measure (\<lambda>(ix, _). px_total_nodes ix)") (auto dest!: evict_unpinned_total [OF sym] le_neq_implies_less)

declare ceiling_loop.simps [simp del]

text \<open>Retry after evicting one leaf while the node bound binds. Each retry has removed a node, so as many rounds as there
  are nodes, and one more, are enough.\<close>

fun insert_retry ::
  "nat \<Rightarrow> prefix_index \<Rightarrow> cache_domain \<Rightarrow> token list \<Rightarrow> handle list \<Rightarrow> checkpoint_id option \<Rightarrow> page_pool
    \<Rightarrow> prefix_index \<times> page_pool \<times> (insert_error + checkpoint_id)" where
  "insert_retry 0 ix domain tokens handles checkpoint pool = (ix, pool, Err IndexPanics)"
| "insert_retry (Suc fuel) ix domain tokens handles checkpoint pool =
     (case map_of (px_trees ix) domain of
        None \<Rightarrow> (ix, pool, Err IndexPanics)
      | Some tree \<Rightarrow>
          (case insert_into_tree tree tokens handles checkpoint pool (px_max_cpu_nodes ix) (px_total_nodes ix) of
             (tree, pool, res) \<Rightarrow>
               (let ix = ix\<lparr>px_trees := AList.update domain tree (px_trees ix)\<rparr>
                in case res of
                     Inr (delta, pages_adopted, adopted) \<Rightarrow>
                       (ix\<lparr>px_total_nodes := px_total_nodes ix + delta,
                           px_retained_bytes := saturating_add64 (px_retained_bytes ix) (pages_adopted * page_bytes pool)\<rparr>,
                        pool, Ok adopted)
                   | Inl (CpuNodeBoundExceeded _ _) \<Rightarrow>
                       (case evict_oldest_unpinned_leaf ix pool of
                          (ix, pool, evicted) \<Rightarrow>
                            if evicted then insert_retry fuel ix domain tokens handles checkpoint pool
                            else (ix, pool, Err (CpuNodeBoundExceeded (px_total_nodes ix) (px_max_cpu_nodes ix))))
                   | Inl e \<Rightarrow> (ix, pool, Err e))))"

definition ensure_tree :: "prefix_index \<Rightarrow> cache_domain \<Rightarrow> prefix_index" where
  "ensure_tree ix domain =
     (if map_of (px_trees ix) domain = None
      then ix\<lparr>px_trees := AList.update domain tree_new (px_trees ix), px_total_nodes := px_total_nodes ix + node_count tree_new\<rparr>
      else ix)"

text \<open>A refusal also drops the tree that the call created.\<close>

definition refuse ::
  "prefix_index \<Rightarrow> cache_domain \<Rightarrow> bool \<Rightarrow> page_pool \<Rightarrow> insert_error \<Rightarrow> prefix_index \<times> page_pool \<times> (insert_error + checkpoint_id)" where
  "refuse ix domain is_new_tree pool e = (if is_new_tree then drop_new_tree ix domain else ix, pool, Err e)"

definition insert_validated ::
  "prefix_index \<Rightarrow> cache_domain \<Rightarrow> token list \<Rightarrow> handle list \<Rightarrow> checkpoint_id option \<Rightarrow> bool \<Rightarrow> page_pool
    \<Rightarrow> prefix_index \<times> page_pool \<times> (insert_error + checkpoint_id)" where
  "insert_validated ix domain tokens handles checkpoint credit_present pool =
     (let is_new_tree = (map_of (px_trees ix) domain = None);
          ix = ensure_tree ix domain;
          (ix, pool, ceiling) = (case px_max_retained_bytes ix of
             None \<Rightarrow> (ix, pool, None)
           | Some max_bytes \<Rightarrow>
               if max_bytes < page_bytes pool then (ix, pool, Some max_bytes)
               else case ceiling_loop ix domain tokens handles credit_present pool max_bytes of
                 (ix, pool, fits) \<Rightarrow> (ix, pool, if fits then None else Some max_bytes))
      in case ceiling of
           Some max_bytes \<Rightarrow> refuse ix domain is_new_tree pool (CacheByteBoundExceeded (px_retained_bytes ix) max_bytes)
         | None \<Rightarrow>
             (case insert_retry (Suc (live_nodes ix)) ix domain tokens handles checkpoint pool of
                (ix, pool, Inr adopted) \<Rightarrow> (ix, pool, Ok adopted)
              | (ix, pool, Inl e) \<Rightarrow> refuse ix domain is_new_tree pool e))"

fun validate_aligned :: "page_pool \<Rightarrow> handle list \<Rightarrow> insert_error + unit" where
  "validate_aligned pool [] = Ok ()"
| "validate_aligned pool (h # rest) =
     (if h_token_offset h mod PAGE_TOKENS \<noteq> 0 then Err MisalignedHandle
      else case validate_handle pool (h_handle h) of
        Inl e \<Rightarrow> Err (InvalidHandle (PoolRefused e))
      | Inr _ \<Rightarrow> validate_aligned pool rest)"

definition px_insert ::
  "prefix_index \<Rightarrow> cache_domain \<Rightarrow> token list \<Rightarrow> handle list \<Rightarrow> checkpoint_id option \<Rightarrow> page_pool
    \<Rightarrow> prefix_index \<times> page_pool \<times> (insert_error + unit)" where
  "px_insert ix domain tokens handles checkpoint pool =
     (case validate_aligned pool handles of
        Inl e \<Rightarrow> (ix, pool, Err e)
      | Inr _ \<Rightarrow>
          if length tokens \<noteq> length handles * PAGE_TOKENS then (ix, pool, Err MisalignedHandle)
          else case insert_validated ix domain tokens handles checkpoint False pool of
            (ix, pool, Inl e) \<Rightarrow> (ix, pool, Err e)
          | (ix, pool, Inr _) \<Rightarrow> (ix, pool, Ok ()))"

definition publish_sealed_pages ::
  "prefix_index \<Rightarrow> cache_domain \<Rightarrow> token list \<Rightarrow> handle list \<Rightarrow> checkpoint_id option \<Rightarrow> page_pool
    \<Rightarrow> prefix_index \<times> page_pool \<times> (insert_error + unit)" where
  "publish_sealed_pages ix domain tokens handles checkpoint pool =
     (if length tokens mod PAGE_TOKENS \<noteq> 0 then (ix, pool, Err (PartialLastPage (length tokens)))
      else if length handles \<noteq> length tokens div PAGE_TOKENS then (ix, pool, Err MisalignedHandle)
      else px_insert ix domain tokens handles checkpoint pool)"

fun validate_in_order :: "page_pool \<Rightarrow> nat \<Rightarrow> handle list \<Rightarrow> insert_error + unit" where
  "validate_in_order pool i [] = Ok ()"
| "validate_in_order pool i (h # rest) =
     (if h_token_offset h \<noteq> i * PAGE_TOKENS then Err MisalignedHandle
      else case validate_handle pool (h_handle h) of
        Inl e \<Rightarrow> Err (InvalidHandle (PoolRefused e))
      | Inr _ \<Rightarrow> validate_in_order pool (i + 1) rest)"

definition publish_checkpoint ::
  "prefix_index \<Rightarrow> cache_domain \<Rightarrow> token list \<Rightarrow> handle list \<Rightarrow> checkpoint_id \<Rightarrow> page_pool
    \<Rightarrow> prefix_index \<times> page_pool \<times> (insert_error + checkpoint_id)" where
  "publish_checkpoint ix domain tokens full_pages checkpoint pool =
     (if checkpoint_is_none checkpoint then (ix, pool, Err (InvalidHandle ZeroCheckpoint))
      else if tokens = [] \<or> length full_pages \<noteq> length tokens div PAGE_TOKENS then (ix, pool, Err MisalignedHandle)
      else case validate_in_order pool 0 full_pages of
        Inl e \<Rightarrow> (ix, pool, Err e)
      | Inr _ \<Rightarrow>
          (case find_exact_checkpoint ix domain tokens of
             Some existing \<Rightarrow> (ix, pool, Ok existing)
           | None \<Rightarrow>
               (case insert_validated ix domain tokens full_pages (Some checkpoint) True pool of
                  (ix, pool, Inl e) \<Rightarrow> (ix, pool, Err e)
                | (ix, pool, Inr adopted) \<Rightarrow>
                    if checkpoint_is_none adopted then (ix, pool, Err (InvalidHandle NotAttached))
                    else (ix\<lparr>px_exact_ids := insert adopted (px_exact_ids ix)\<rparr>, pool, Ok adopted))))"

definition px_split :: "prefix_index \<Rightarrow> cache_domain \<Rightarrow> token \<Rightarrow> nat \<Rightarrow> prefix_index \<times> (insert_error + unit)" where
  "px_split ix domain first_token split_tokens =
     (case map_of (px_trees ix) domain of
        None \<Rightarrow> (ix, Err (InvalidHandle DomainNotFound))
      | Some tree \<Rightarrow>
          (case Option.bind (node_at tree (tree_root tree)) (\<lambda>n. child_of n first_token) of
             None \<Rightarrow> (ix, Err (InvalidHandle ChildNotFound))
           | Some child_id \<Rightarrow>
               (case split_edge tree (tree_root tree) child_id split_tokens (px_max_cpu_nodes ix) (px_total_nodes ix) of
                  (tree, res) \<Rightarrow>
                    (let ix = ix\<lparr>px_trees := AList.update domain tree (px_trees ix)\<rparr>
                     in case res of
                          Inl e \<Rightarrow> (ix, Err e)
                        | Inr delta \<Rightarrow> (ix\<lparr>px_total_nodes := px_total_nodes ix + delta\<rparr>, Ok ())))))"

section \<open>Forgetting checkpoints\<close>

definition holds_checkpoint :: "checkpoint_id \<Rightarrow> radix_node \<Rightarrow> bool" where
  "holds_checkpoint i node \<longleftrightarrow> list_ex (\<lambda>cb. cb_checkpoint cb = i) (node_checkpoints node)"

definition find_holder :: "prefix_index \<Rightarrow> checkpoint_id \<Rightarrow> (cache_domain \<times> nat) option" where
  "find_holder ix i =
     map_option (\<lambda>(domain, nid, _). (domain, nid))
       (find (\<lambda>(_, _, node). holds_checkpoint i node)
         (concat (map (\<lambda>(domain, tree). map (\<lambda>(nid, node). (domain, nid, node)) (tree_nodes tree)) (px_trees ix))))"

text \<open>Remove nodes that carry nothing, from a node towards the root; also how many went.\<close>

function prune_loop :: "domain_tree \<Rightarrow> nat \<Rightarrow> domain_tree \<times> nat" where
  "prune_loop tree current =
     (if current = tree_root tree then (tree, 0)
      else case node_at tree current of
        None \<Rightarrow> (tree, 0)
      | Some node \<Rightarrow>
          if node_children node \<noteq> [] \<or> node_pages node \<noteq> [] \<or> node_checkpoints node \<noteq> [] \<or> pin_count node \<noteq> 0
          then (tree, 0)
          else let tree' = drop_node (unlink (node_parent node) (edge_tokens node) tree) current
               in case node_parent node of
                    None \<Rightarrow> (tree', 1)
                  | Some pid \<Rightarrow> (case prune_loop tree' pid of (t, n) \<Rightarrow> (t, n + 1)))"
  by pat_completeness auto
termination
  by (relation "measure (\<lambda>(t, _). card (tree_keys t))") (auto intro!: card_Diff1_less dest: node_at_key)

declare prune_loop.simps [simp del]

definition forget_checkpoint :: "prefix_index \<Rightarrow> checkpoint_id \<Rightarrow> prefix_index" where
  "forget_checkpoint ix i =
     (if checkpoint_is_none i then ix
      else case find_holder ix i of
        None \<Rightarrow> ix
      | Some (domain, nid) \<Rightarrow>
          (case map_of (px_trees ix) domain of
             None \<Rightarrow> ix
           | Some tree \<Rightarrow>
               (let tree = modify_node nid (\<lambda>n. n\<lparr>node_checkpoints := filter (\<lambda>cb. cb_checkpoint cb \<noteq> i) (node_checkpoints n)\<rparr>) tree;
                    ix = (if i \<in> px_exact_ids ix
                          then ix\<lparr>px_exact_ids := px_exact_ids ix - {i}, px_retired := px_retired ix @ [i]\<rparr> else ix);
                    (tree, pruned) = prune_loop tree nid
                in ix\<lparr>px_trees := AList.update domain tree (px_trees ix),
                       px_total_nodes := saturating_sub (px_total_nodes ix) pruned\<rparr>)))"

definition take_retired_checkpoints :: "prefix_index \<Rightarrow> prefix_index \<times> checkpoint_id list" where
  "take_retired_checkpoints ix = (ix\<lparr>px_retired := []\<rparr>, px_retired ix)"

definition checkpoint_count :: "prefix_index \<Rightarrow> nat" where
  "checkpoint_count ix = sum_list (map (\<lambda>n. length (node_checkpoints n)) (px_nodes ix))"

end
