(* ===== verification/Prefix_Radix.thy ===== *)
theory Prefix_Radix
  imports Prefix_Tree
begin

text \<open>
  Well-formed radix trees. A tree is described by the token string that leads to each node; the parent and
  child pointers agree with these strings, an edge stays inside one page, and a node holds a page handle
  exactly when its edge ends at a page boundary. Splitting, joining, extending and pruning keep this, and say what
  becomes of the pages and checkpoints stored in the tree.
\<close>

section \<open>The invariant\<close>

lemma PAGE_TOKENS_nonzero [simp]: "0 < PAGE_TOKENS" "PAGE_TOKENS \<noteq> 0"
  by (simp_all add: PAGE_TOKENS_def)

text \<open>A node whose edge starts after \<open>base\<close> tokens.\<close>

definition node_ok :: "nat \<Rightarrow> radix_node \<Rightarrow> bool" where
  "node_ok base n \<longleftrightarrow>
     edge_tokens n \<noteq> [] \<and> first_page_skip n = base mod PAGE_TOKENS
     \<and> base mod PAGE_TOKENS + length (edge_tokens n) \<le> PAGE_TOKENS
     \<and> length (node_pages n) = (if base mod PAGE_TOKENS + length (edge_tokens n) = PAGE_TOKENS then 1 else 0)
     \<and> (\<forall>cb \<in> set (node_checkpoints n). 0 < cb_token_offset cb \<and> cb_token_offset cb \<le> length (edge_tokens n))
     \<and> sorted_wrt (<) (map cb_token_offset (node_checkpoints n))"

definition is_child :: "(nat \<Rightarrow> radix_node option) \<Rightarrow> nat \<Rightarrow> nat \<Rightarrow> token \<Rightarrow> nat \<Rightarrow> bool" where
  "is_child N r i tok c \<longleftrightarrow> c \<noteq> r \<and> (\<exists>m. N c = Some m \<and> node_parent m = Some i \<and> hd (edge_tokens m) = tok)"

definition has_parent :: "(nat \<Rightarrow> radix_node option) \<Rightarrow> (nat \<Rightarrow> token list) \<Rightarrow> nat \<Rightarrow> radix_node \<Rightarrow> bool" where
  "has_parent N K c m \<longleftrightarrow>
     (\<exists>p n. node_parent m = Some p \<and> N p = Some n \<and> child_of n (hd (edge_tokens m)) = Some c
        \<and> K c = K p @ edge_tokens m \<and> node_ok (length (K p)) m)"

definition root_ok :: "radix_node \<Rightarrow> bool" where
  "root_ok n \<longleftrightarrow> edge_tokens n = [] \<and> node_pages n = [] \<and> node_parent n = None"

definition radix_map :: "(nat \<Rightarrow> radix_node option) \<Rightarrow> nat \<Rightarrow> (nat \<Rightarrow> token list) \<Rightarrow> bool" where
  "radix_map N r K \<longleftrightarrow>
     K r = [] \<and> (\<exists>n. N r = Some n \<and> root_ok n)
     \<and> (\<forall>i n tok c. N i = Some n \<longrightarrow> child_of n tok = Some c \<longrightarrow> is_child N r i tok c)
     \<and> (\<forall>c m. N c = Some m \<longrightarrow> c \<noteq> r \<longrightarrow> has_parent N K c m)"

definition radix :: "domain_tree \<Rightarrow> (nat \<Rightarrow> token list) \<Rightarrow> bool" where
  "radix t K \<longleftrightarrow>
     distinct (map fst (tree_nodes t)) \<and> (\<forall>i n. node_at t i = Some n \<longrightarrow> i < next_node_id t)
     \<and> radix_map (map_of (tree_nodes t)) (tree_root t) K"

lemma radix_mapD:
  assumes "radix_map N r K"
  shows "K r = []" "\<exists>n. N r = Some n \<and> root_ok n"
    "N i = Some n \<Longrightarrow> child_of n tok = Some c \<Longrightarrow> is_child N r i tok c"
    "N c = Some m \<Longrightarrow> c \<noteq> r \<Longrightarrow> has_parent N K c m"
  using assms unfolding radix_map_def by blast+

text \<open>A child, with its string.\<close>

lemma radix_child:
  assumes "radix_map N r K" "N i = Some n" "child_of n tok = Some c"
  obtains m where "N c = Some m" "node_parent m = Some i" "hd (edge_tokens m) = tok" "c \<noteq> r"
    "K c = K i @ edge_tokens m" "node_ok (length (K i)) m" "edge_tokens m \<noteq> []"
proof -
  obtain m where m: "N c = Some m" "node_parent m = Some i" "hd (edge_tokens m) = tok" "c \<noteq> r"
    using radix_mapD(3) [OF assms] by (auto simp: is_child_def)
  moreover have "K c = K i @ edge_tokens m" "node_ok (length (K i)) m"
    using radix_mapD(4) [OF assms(1) m(1,4)] m(2) by (auto simp: has_parent_def)
  ultimately show thesis using that by (auto simp: node_ok_def)
qed

lemma radix_not_self_child:
  assumes "radix_map N r K" "N i = Some n" "child_of n tok = Some c"
  shows "c \<noteq> i"
  by (rule radix_child [OF assms]) auto

section \<open>Splitting and joining an edge\<close>

lemma split_radix:
  assumes R: "radix_map N r K" and p: "N p = Some pn" and c: "N c = Some cn" "child_of pn (hd (edge_tokens cn)) = Some c"
    and k: "0 < k" "k < length (edge_tokens cn)" and s: "N s = None"
    and sn: "node_parent sn = Some p" "edge_tokens sn = take k (edge_tokens cn)" "node_ok (length (K p)) sn"
      "node_children sn = [(edge_tokens cn ! k, c)]"
    and cn': "node_parent cn' = Some s" "edge_tokens cn' = drop k (edge_tokens cn)" "node_ok (length (K p) + k) cn'"
      "node_children cn' = node_children cn"
    and pn': "pn' = add_child (hd (edge_tokens cn)) s pn"
  shows "radix_map (N(s \<mapsto> sn, c \<mapsto> cn', p \<mapsto> pn')) r (K(s := K p @ take k (edge_tokens cn)))"
proof -
  let ?N = "N(s \<mapsto> sn, c \<mapsto> cn', p \<mapsto> pn')" and ?K = "K(s := K p @ take k (edge_tokens cn))"
  let ?e = "edge_tokens cn"
  obtain m where "m = cn" "c \<noteq> r" "node_parent cn = Some p" "K c = K p @ ?e" "?e \<noteq> []"
    by (rule radix_child [OF R p c(2)]) (use c in auto)
  note cp = this(2-5)
  have ne: "c \<noteq> p" "s \<noteq> p" "s \<noteq> c" "s \<noteq> r"
    using radix_not_self_child [OF R p c(2)] p c(1) s radix_mapD(2) [OF R] by auto
  have hd: "hd (take k ?e) = hd ?e" "hd (drop k ?e) = ?e ! k" using k by (simp_all add: hd_drop_conv_nth)
  have same: "\<exists>m'. ?N d = Some m' \<and> node_parent m' = node_parent m \<and> edge_tokens m' = edge_tokens m"
    if "N d = Some m" "d \<noteq> c" for d m
    using that p s by (auto simp: pn')
  have child: "is_child ?N r i tok d" if i: "?N i = Some n" "child_of n tok = Some d" for i n tok d
  proof -
    consider "i = s" | "i = p" | "i = c" | "i \<notin> {s, p, c}" by blast
    then show ?thesis
    proof cases
      case 1
      then show ?thesis using i ne sn(4) cp(1) cn' hd by (auto simp: is_child_def split: if_splits)
    next
      case 2
      show ?thesis
      proof (cases "tok = hd ?e")
        case True
        then have "d = s" using i 2 by (auto simp: pn' update_conv')
        then show ?thesis using True ne sn hd 2 by (auto simp: is_child_def)
      next
        case False
        then have d: "child_of pn tok = Some d" using i 2 by (auto simp: pn' update_conv')
        obtain m where m: "N d = Some m" "node_parent m = Some p" "hd (edge_tokens m) = tok" "d \<noteq> r"
          by (rule radix_child [OF R p d])
        then have "d \<noteq> c" using False c(1) by auto
        then show ?thesis using same [OF m(1)] m 2 by (auto simp: is_child_def)
      qed
    next
      case 3
      then have d: "child_of cn tok = Some d" using i ne cn'(4) by simp
      obtain m where m: "N d = Some m" "node_parent m = Some c" "hd (edge_tokens m) = tok" "d \<noteq> r"
        by (rule radix_child [OF R c(1) d])
      moreover have "d \<noteq> c" by (rule radix_not_self_child [OF R c(1) d])
      ultimately show ?thesis using same [of d m] 3 by (auto simp: is_child_def)
    next
      case 4
      then have n: "N i = Some n" using i by simp
      obtain m where m: "N d = Some m" "node_parent m = Some i" "hd (edge_tokens m) = tok" "d \<noteq> r"
        by (rule radix_child [OF R n i(2)])
      moreover have "d \<noteq> c" using m(1,2) c(1) cp(2) 4 by auto
      ultimately show ?thesis using same [of d m] by (auto simp: is_child_def)
    qed
  qed
  have parent: "has_parent ?N ?K d m" if d: "?N d = Some m" "d \<noteq> r" for d m
  proof -
    consider "d = s" | "d = c" | "d \<notin> {s, c}" by blast
    then show ?thesis
    proof cases
      case 1
      then show ?thesis using d ne sn hd by (auto simp: has_parent_def pn' update_conv')
    next
      case 2
      then show ?thesis using d ne cn' hd k cp(3) sn(4) by (auto simp: has_parent_def)
    next
      case 3
      then obtain m0 where m0: "N d = Some m0" "node_parent m = node_parent m0" "edge_tokens m = edge_tokens m0"
        "\<And>b. node_ok b m = node_ok b m0"
        using d p by (cases "d = p") (auto simp: pn' node_ok_def)
      obtain q n where q: "node_parent m0 = Some q" "N q = Some n" "child_of n (hd (edge_tokens m0)) = Some d"
        "K d = K q @ edge_tokens m0" "node_ok (length (K q)) m0"
        using radix_mapD(4) [OF R m0(1) d(2)] by (auto simp: has_parent_def)
      have "q \<noteq> s" using q(2) s by auto
      moreover have "\<exists>n'. ?N q = Some n' \<and> child_of n' (hd (edge_tokens m0)) = Some d"
      proof (cases "q = p")
        case True
        then have "hd (edge_tokens m0) \<noteq> hd ?e" using q(2,3) p c(2) 3 by auto
        then show ?thesis using q(2,3) p True by (auto simp: pn' update_conv')
      next
        case False
        then show ?thesis using q(2,3) c(1) cn'(4) ne(3) \<open>q \<noteq> s\<close> by (cases "q = c") auto
      qed
      ultimately show ?thesis using q 3 m0 by (auto simp: has_parent_def)
    qed
  qed
  have "?K r = []" "\<exists>n. ?N r = Some n \<and> root_ok n"
    using radix_mapD(1,2) [OF R] ne cp(1) p by (auto simp: pn' root_ok_def)
  then show ?thesis unfolding radix_map_def using child parent by blast
qed

section \<open>Adding and removing a leaf\<close>

lemma extend_radix:
  assumes R: "radix_map N r K" and p: "N p = Some pn" "child_of pn (hd e) = None" and s: "N s = None"
    and sn: "node_parent sn = Some p" "edge_tokens sn = e" "node_ok (length (K p)) sn" "node_children sn = []"
  shows "radix_map (N(s \<mapsto> sn, p \<mapsto> add_child (hd e) s pn)) r (K(s := K p @ e))"
proof -
  let ?N = "N(s \<mapsto> sn, p \<mapsto> add_child (hd e) s pn)" and ?K = "K(s := K p @ e)"
  have ne: "s \<noteq> p" "s \<noteq> r" using p(1) s radix_mapD(2) [OF R] by auto
  have same: "\<exists>m'. ?N d = Some m' \<and> node_parent m' = node_parent m \<and> edge_tokens m' = edge_tokens m" if "N d = Some m" for d m
    using that p s by auto
  have child: "is_child ?N r i tok d" if i: "?N i = Some n" "child_of n tok = Some d" for i n tok d
  proof (cases "i = p \<and> tok = hd e")
    case True
    then have "d = s" using i by (auto simp: update_conv')
    then show ?thesis using True ne sn by (auto simp: is_child_def)
  next
    case False
    obtain n0 where n0: "N i = Some n0" "child_of n0 tok = Some d"
      using i False p(1) sn(4) by (cases "i = s"; cases "i = p") (auto simp: update_conv' split: if_splits)
    obtain m where m: "N d = Some m" "node_parent m = Some i" "hd (edge_tokens m) = tok" "d \<noteq> r"
      by (rule radix_child [OF R n0])
    then show ?thesis using same [OF m(1)] by (auto simp: is_child_def)
  qed
  have parent: "has_parent ?N ?K d m" if d: "?N d = Some m" "d \<noteq> r" for d m
  proof (cases "d = s")
    case True
    then show ?thesis using d ne sn by (auto simp: has_parent_def update_conv')
  next
    case False
    then obtain m0 where m0: "N d = Some m0" "node_parent m = node_parent m0" "edge_tokens m = edge_tokens m0"
      "\<And>b. node_ok b m = node_ok b m0"
      using d p(1) by (cases "d = p") (auto simp: node_ok_def)
    obtain q n where q: "node_parent m0 = Some q" "N q = Some n" "child_of n (hd (edge_tokens m0)) = Some d"
      "K d = K q @ edge_tokens m0" "node_ok (length (K q)) m0"
      using radix_mapD(4) [OF R m0(1) d(2)] by (auto simp: has_parent_def)
    have "q \<noteq> s" using q(2) s by auto
    moreover have "\<exists>n'. ?N q = Some n' \<and> child_of n' (hd (edge_tokens m0)) = Some d"
      using q(2,3) p \<open>q \<noteq> s\<close> by (cases "q = p") (auto simp: update_conv')
    ultimately show ?thesis using q False m0 by (auto simp: has_parent_def)
  qed
  have "?K r = []" "\<exists>n. ?N r = Some n \<and> root_ok n"
    using radix_mapD(1,2) [OF R] ne p by (auto simp: root_ok_def)
  then show ?thesis unfolding radix_map_def using child parent by blast
qed

lemma remove_radix:
  assumes R: "radix_map N r K" and c: "N c = Some cn" "c \<noteq> r" "node_children cn = []"
    and p: "node_parent cn = Some p" "N p = Some pn"
  shows "radix_map ((N(p \<mapsto> remove_child (hd (edge_tokens cn)) pn))(c := None)) r K"
proof -
  let ?N = "(N(p \<mapsto> remove_child (hd (edge_tokens cn)) pn))(c := None)"
  have link: "child_of pn (hd (edge_tokens cn)) = Some c"
    using radix_mapD(4) [OF R c(1,2)] p by (auto simp: has_parent_def)
  have pc: "p \<noteq> c" using radix_not_self_child [OF R p(2) link] by simp
  have same: "\<exists>m'. ?N d = Some m' \<and> node_parent m' = node_parent m \<and> edge_tokens m' = edge_tokens m" if "N d = Some m" "d \<noteq> c" for d m
    using that p by auto
  have child: "is_child ?N r i tok d" if i: "?N i = Some n" "child_of n tok = Some d" for i n tok d
  proof -
    obtain n0 where n0: "N i = Some n0" "child_of n0 tok = Some d" "i = p \<longrightarrow> tok \<noteq> hd (edge_tokens cn)"
      using i p(2) by (cases "i = p") (auto simp: delete_conv' split: if_splits)
    obtain m where m: "N d = Some m" "node_parent m = Some i" "hd (edge_tokens m) = tok" "d \<noteq> r"
      by (rule radix_child [OF R n0(1,2)])
    have "d \<noteq> c" using m c(1) p(1) n0(3) by auto
    then show ?thesis using same [OF m(1)] m by (auto simp: is_child_def)
  qed
  have parent: "has_parent ?N K d m" if d: "?N d = Some m" "d \<noteq> r" for d m
  proof -
    have dc: "d \<noteq> c" using d by auto
    then obtain m0 where m0: "N d = Some m0" "node_parent m = node_parent m0" "edge_tokens m = edge_tokens m0"
      "\<And>b. node_ok b m = node_ok b m0"
      using d p(2) by (cases "d = p") (auto simp: node_ok_def)
    obtain q n where q: "node_parent m0 = Some q" "N q = Some n" "child_of n (hd (edge_tokens m0)) = Some d"
      "K d = K q @ edge_tokens m0" "node_ok (length (K q)) m0"
      using radix_mapD(4) [OF R m0(1) d(2)] by (auto simp: has_parent_def)
    have "q \<noteq> c" using q(2,3) c(1,3) by auto
    moreover have "hd (edge_tokens m0) \<noteq> hd (edge_tokens cn)" if "q = p" using q(2,3) p(2) link dc that by auto
    ultimately have "\<exists>n'. ?N q = Some n' \<and> child_of n' (hd (edge_tokens m0)) = Some d"
      using q(2,3) p(2) by (cases "q = p") (auto simp: delete_conv')
    then show ?thesis using q m0 by (auto simp: has_parent_def)
  qed
  have "K r = []" "\<exists>n. ?N r = Some n \<and> root_ok n"
    using radix_mapD(1,2) [OF R] c(2) p by (auto simp: root_ok_def)
  then show ?thesis unfolding radix_map_def using child parent by blast
qed

text \<open>Changing the checkpoints or the pins of a node.\<close>

lemma change_radix:
  assumes R: "radix_map N r K" and i: "N i = Some n"
    and n': "node_parent n' = node_parent n" "edge_tokens n' = edge_tokens n" "node_children n' = node_children n"
      "node_pages n' = node_pages n" "\<And>b. i \<noteq> r \<Longrightarrow> node_ok b n \<Longrightarrow> node_ok b n'"
  shows "radix_map (N(i \<mapsto> n')) r K"
proof -
  let ?N = "N(i \<mapsto> n')"
  have child: "is_child ?N r j tok d" if j: "?N j = Some m" "child_of m tok = Some d" for j m tok d
  proof -
    obtain m0 where m0: "N j = Some m0" "child_of m0 tok = Some d" using j i n'(3) by (cases "j = i") auto
    then show ?thesis using radix_mapD(3) [OF R m0] i n'(1,2) by (auto simp: is_child_def)
  qed
  have parent: "has_parent ?N K d m" if d: "?N d = Some m" "d \<noteq> r" for d m
  proof -
    obtain m0 where m0: "N d = Some m0" "node_parent m = node_parent m0" "edge_tokens m = edge_tokens m0"
      "\<And>b. node_ok b m0 \<Longrightarrow> node_ok b m"
      using d i n' by (cases "d = i") auto
    show ?thesis using radix_mapD(4) [OF R m0(1) d(2)] m0(2-4) i n'(3) by (auto simp: has_parent_def)
  qed
  have "\<exists>n. ?N r = Some n \<and> root_ok n"
    using radix_mapD(2) [OF R] i n' by (auto simp: root_ok_def)
  then show ?thesis unfolding radix_map_def using radix_mapD(1) [OF R] child parent by blast
qed

section \<open>What a tree stores\<close>

text \<open>The pages and the checkpoints, each with the token string up to its end.\<close>

definition stored ::
  "(token list \<Rightarrow> radix_node \<Rightarrow> 'a set) \<Rightarrow> (nat \<Rightarrow> radix_node option) \<Rightarrow> nat \<Rightarrow> (nat \<Rightarrow> token list) \<Rightarrow> 'a set" where
  "stored f N r K = \<Union> {f (K i) n | i n. N i = Some n \<and> i \<noteq> r}"

definition pages_at :: "token list \<Rightarrow> radix_node \<Rightarrow> (token list \<times> page_handle) set" where
  "pages_at key n = (\<lambda>ph. (key, ph)) ` set (node_pages n)"

definition mark_at :: "token list \<Rightarrow> radix_node \<Rightarrow> checkpoint_boundary \<Rightarrow> token list \<times> checkpoint_id" where
  "mark_at key n cb = (take (length key - length (edge_tokens n) + cb_token_offset cb) key, cb_checkpoint cb)"

definition marks_at :: "token list \<Rightarrow> radix_node \<Rightarrow> (token list \<times> checkpoint_id) set" where
  "marks_at key n = mark_at key n ` set (node_checkpoints n)"

lemma stored_put: "stored f (N(i \<mapsto> n)) r K = (if i = r then {} else f (K i) n) \<union> stored f (N(i := None)) r K"
  by (auto simp: stored_def split: if_splits)

lemma stored_drop: "N i = Some n \<Longrightarrow> stored f N r K = (if i = r then {} else f (K i) n) \<union> stored f (N(i := None)) r K"
  using stored_put [of f N i n r K] by (simp add: fun_upd_idem)

lemma stored_cong: "(\<And>i n. N i = Some n \<Longrightarrow> K' i = K i) \<Longrightarrow> stored f N r K' = stored f N r K"
  unfolding stored_def by (rule arg_cong [of _ _ Union]) force

lemma stored_mem: "x \<in> stored f N r K \<longleftrightarrow> (\<exists>i n. N i = Some n \<and> i \<noteq> r \<and> x \<in> f (K i) n)"
  by (auto simp: stored_def)

text \<open>What the links of a node are is not stored.\<close>

definition link_free :: "(token list \<Rightarrow> radix_node \<Rightarrow> 'a set) \<Rightarrow> bool" where
  "link_free f \<longleftrightarrow> (\<forall>key n ch. f key (n\<lparr>node_children := ch\<rparr>) = f key n)"

lemma link_free_at: "link_free pages_at" "link_free marks_at"
  by (auto simp: link_free_def pages_at_def marks_at_def mark_at_def)

section \<open>The halves of a split\<close>

lemma node_ok_split_count: "node_ok b n \<Longrightarrow> k < length (edge_tokens n) \<Longrightarrow> (k + first_page_skip n) div PAGE_TOKENS = 0"
  by (simp add: node_ok_def)

lemma node_ok_marker:
  assumes "node_ok b n" "0 < k" "k < length (edge_tokens n)"
  shows "node_ok b (split_marker n p c k 0)"
  using assms by (auto simp: node_ok_def split_marker_def node_new_def sorted_wrt_map sorted_wrt_filter)

lemma mod_add_small: "b mod m + k < (m :: nat) \<Longrightarrow> (b + k) mod m = b mod m + k"
  by (metis mod_add_left_eq mod_less)

lemma node_ok_rest:
  assumes "node_ok b n" "0 < k" "k < length (edge_tokens n)"
  shows "node_ok (b + k) (split_rest n s k 0)"
proof -
  have m: "(b + k) mod PAGE_TOKENS = b mod PAGE_TOKENS + k"
    by (rule mod_add_small) (use assms in \<open>auto simp: node_ok_def\<close>)
  have "sorted_wrt (<) (map (\<lambda>cb. cb_token_offset cb - k) (filter (\<lambda>cb. k < cb_token_offset cb) cbs))"
    if "sorted_wrt (<) (map cb_token_offset cbs)" for cbs :: "checkpoint_boundary list"
    using that by (induction cbs) (auto simp: diff_less_mono)
  then show ?thesis using assms m by (auto simp: node_ok_def split_rest_def comp_def)
qed

lemma sort_key_strict: "sorted_wrt (<) (map f xs) \<Longrightarrow> sort_key f xs = xs"
  by (rule sort_key_id_if_sorted) (simp add: strict_sorted_iff)

lemma filter_split_sorted:
  "sorted_wrt (<) (map f xs) \<Longrightarrow> filter (\<lambda>x. f x \<le> (k :: nat)) xs @ filter (\<lambda>x. k < f x) xs = xs"
proof (induction xs)
  case (Cons x xs)
  have "filter (\<lambda>x. f x \<le> k) xs = []" if "k < f x" using Cons.prems that by (force simp: filter_empty_conv)
  then show ?case using Cons by (cases "f x \<le> k") (auto simp: not_le)
qed simp

lemma joined_split:
  assumes "node_ok b n" "k < length (edge_tokens n)" "node_parent n = Some p"
  shows "joined (split_marker n p c k 0) (split_rest n s k 0) p = n"
proof -
  have "map (\<lambda>cb. cb\<lparr>cb_token_offset := cb_token_offset cb - k + k\<rparr>) (filter (\<lambda>cb. k < cb_token_offset cb) (node_checkpoints n))
      = filter (\<lambda>cb. k < cb_token_offset cb) (node_checkpoints n)"
    by (rule map_idI) auto
  moreover have "sort_key cb_token_offset (node_checkpoints n) = node_checkpoints n"
    using assms(1) by (simp add: node_ok_def sort_key_strict)
  ultimately show ?thesis
    using assms filter_split_sorted [of cb_token_offset "node_checkpoints n" k]
    by (simp add: joined_def split_marker_def split_rest_def node_new_def node_ok_def comp_def min_absorb2)
qed

text \<open>Sums over the nodes of a tree.\<close>

definition tree_sum :: "(radix_node \<Rightarrow> 'a :: comm_monoid_add) \<Rightarrow> domain_tree \<Rightarrow> 'a" where
  "tree_sum f t = sum_list (map (\<lambda>(_, n). f n) (tree_nodes t))"

lemma sum_update_new:
  "map_of xs k = None \<Longrightarrow> sum_list (map (\<lambda>(_, n). f n) (AList.update k v xs)) = sum_list (map (\<lambda>(_, n). f n) xs) + (f v :: 'a :: comm_monoid_add)"
  by (induction xs) (auto simp: ac_simps split: if_splits)

lemma sum_update_old:
  "map_of xs k = Some w \<Longrightarrow>
    sum_list (map (\<lambda>(_, n). f n) (AList.update k v xs)) + f w = sum_list (map (\<lambda>(_, n). f n) xs) + (f v :: 'a :: comm_monoid_add)"
  by (induction xs) (auto simp: ac_simps split: if_splits)

lemma sum_delete_old:
  "distinct (map fst xs) \<Longrightarrow> map_of xs k = Some w \<Longrightarrow>
    sum_list (map (\<lambda>(_, n). f n) (AList.delete k xs)) + f w = (sum_list (map (\<lambda>(_, n). f n) xs) :: 'a :: comm_monoid_add)"
proof (induction xs)
  case (Cons x xs)
  obtain a b where x: "x = (a, b)" by fastforce
  have "AList.delete a xs = xs" if "k = a"
    using Cons.prems(1) that by (auto simp: x AList.delete_eq filter_id_conv intro: rev_image_eqI)
  then show ?case using Cons by (cases "k = a") (auto simp: x ac_simps)
qed simp

lemma tree_sum_new: "node_at t i = None \<Longrightarrow> tree_sum f (put_node t i n) = tree_sum f t + f n"
  by (simp add: tree_sum_def sum_update_new)

lemma tree_sum_put: "node_at t i = Some m \<Longrightarrow> f n = f m \<Longrightarrow> tree_sum (f :: _ \<Rightarrow> 'a :: cancel_comm_monoid_add) (put_node t i n) = tree_sum f t"
  using sum_update_old [of "tree_nodes t" i m f n] by (simp add: tree_sum_def)

lemma tree_sum_drop:
  "distinct (map fst (tree_nodes t)) \<Longrightarrow> node_at t i = Some m \<Longrightarrow> tree_sum f (drop_node t i) + f m = tree_sum f t"
  by (simp add: tree_sum_def sum_delete_old)

lemma tree_sum_bumped [simp]: "tree_sum f (t\<lparr>next_node_id := a\<rparr>) = tree_sum f t" "tree_sum f (t\<lparr>next_insert_seq := a\<rparr>) = tree_sum f t"
  by (simp_all add: tree_sum_def)

definition node_slots :: "radix_node \<Rightarrow> nat multiset" where
  "node_slots n = mset (map ph_phys (node_pages n))"

section \<open>Splitting an edge of a tree\<close>

lemma radixD:
  assumes "radix t K"
  shows "distinct (map fst (tree_nodes t))" "node_at t i = Some n \<Longrightarrow> i < next_node_id t"
    "radix_map (map_of (tree_nodes t)) (tree_root t) K"
  using assms unfolding radix_def by blast+

lemma radix_fresh: "radix t K \<Longrightarrow> node_at t (next_node_id t) = None"
  using radixD(2) [of t K "next_node_id t"] by (cases "node_at t (next_node_id t)") auto

definition split_tree :: "domain_tree \<Rightarrow> nat \<Rightarrow> radix_node \<Rightarrow> nat \<Rightarrow> radix_node \<Rightarrow> nat \<Rightarrow> domain_tree" where
  "split_tree t p pn c cn k =
     (let s = next_node_id t
      in put_node (put_node (put_node (t\<lparr>next_node_id := s + 1\<rparr>) s (split_marker cn p c k 0)) c (split_rest cn s k 0))
           p (add_child (hd (edge_tokens cn)) s pn))"

lemma split_edge_eq:
  assumes R: "radix t K" and p: "node_at t p = Some pn" "child_of pn tok = Some c" and c: "node_at t c = Some cn"
    and k: "k < length (edge_tokens cn)"
  shows "split_edge t p c k maxn tot =
    (if tot + 1 > maxn then (t, Err (CpuNodeBoundExceeded tot maxn)) else (split_tree t p pn c cn k, Ok 1))"
proof -
  obtain m where "node_at t c = Some m" "node_ok (length (K p)) m" by (rule radix_child [OF radixD(3) [OF R] p])
  then have z: "(k + first_page_skip cn) div PAGE_TOKENS = 0" using node_ok_split_count k c by auto
  have "p \<noteq> c" "p \<noteq> next_node_id t"
    using radix_not_self_child [OF radixD(3) [OF R] p] radixD(2) [OF R p(1)] by auto
  then show ?thesis
    using p c k unfolding split_edge_def by (simp add: z fresh_node_id_def Let_def split_tree_def update_conv')
qed

lemma split_tree_map:
  "map_of (tree_nodes (split_tree t p pn c cn k)) =
     (map_of (tree_nodes t))(next_node_id t \<mapsto> split_marker cn p c k 0, c \<mapsto> split_rest cn (next_node_id t) k 0,
       p \<mapsto> add_child (hd (edge_tokens cn)) (next_node_id t) pn)"
  by (simp add: split_tree_def Let_def update_conv')

lemma split_tree_radix:
  assumes R: "radix t K" and p: "node_at t p = Some pn" "child_of pn tok = Some c" and c: "node_at t c = Some cn"
    and k: "0 < k" "k < length (edge_tokens cn)"
  shows "radix (split_tree t p pn c cn k) (K(next_node_id t := K p @ take k (edge_tokens cn)))"
proof -
  obtain m where m: "node_at t c = Some m" "node_ok (length (K p)) m" "hd (edge_tokens m) = tok"
    by (rule radix_child [OF radixD(3) [OF R] p])
  then have cn: "node_ok (length (K p)) cn" "hd (edge_tokens cn) = tok" using c by auto
  have "radix_map (map_of (tree_nodes (split_tree t p pn c cn k))) (tree_root t) (K(next_node_id t := K p @ take k (edge_tokens cn)))"
    unfolding split_tree_map
    by (rule split_radix [OF radixD(3) [OF R] p(1) c])
      (use p(2) k cn radix_fresh [OF R] node_ok_marker node_ok_rest in \<open>auto simp: split_marker_def split_rest_def node_new_def\<close>)
  moreover have "i < next_node_id t + 1" if "node_at (split_tree t p pn c cn k) i = Some n" for i n
    using that radixD(2) [OF R] p(1) c unfolding split_tree_map by (fastforce split: if_splits)
  ultimately show ?thesis
    using radixD(1) [OF R] unfolding radix_def by (simp add: split_tree_def Let_def distinct_update)
qed

lemma split_tree_stored_gen:
  assumes R: "radix t K" and p: "node_at t p = Some pn" "child_of pn tok = Some c" and c: "node_at t c = Some cn"
    and f: "link_free f" "f (K p @ take k (edge_tokens cn)) (split_marker cn p c k 0) \<union> f (K c) (split_rest cn (next_node_id t) k 0) = f (K c) cn"
  shows "stored f (map_of (tree_nodes (split_tree t p pn c cn k))) (tree_root t) (K(next_node_id t := K p @ take k (edge_tokens cn)))
    = stored f (map_of (tree_nodes t)) (tree_root t) K"
proof -
  let ?s = "next_node_id t" and ?N = "map_of (tree_nodes t)" and ?r = "tree_root t"
  let ?K = "K(?s := K p @ take k (edge_tokens cn))" and ?B = "(map_of (tree_nodes t))(?s := None, c := None, p := None)"
  have ne: "p \<noteq> c" "?s \<noteq> p" "?s \<noteq> c" "?s \<noteq> ?r" "c \<noteq> ?r"
    using radix_not_self_child [OF radixD(3) [OF R] p] radixD(2) [OF R p(1)] radixD(2) [OF R c] radix_fresh [OF R]
      radix_mapD(2) [OF radixD(3) [OF R]] radix_mapD(3) [OF radixD(3) [OF R] p] by (auto simp: is_child_def)
  have K0: "stored f ?B ?r ?K = stored f ?B ?r K" by (rule stored_cong) (auto split: if_splits)
  have "stored f (map_of (tree_nodes (split_tree t p pn c cn k))) ?r ?K
      = (if p = ?r then {} else f (K p) pn) \<union> (f (K c) (split_rest cn ?s k 0) \<union> (f (K p @ take k (edge_tokens cn)) (split_marker cn p c k 0) \<union> stored f ?B ?r K))"
  proof -
    let ?M = "?N(p := None)" and ?m = "split_marker cn p c k 0" and ?c = "split_rest cn ?s k 0"
    have "(?N(?s \<mapsto> ?m, c \<mapsto> ?c))(p := None) = (?M(?s \<mapsto> ?m))(c \<mapsto> ?c)" "(?M(?s \<mapsto> ?m))(c := None) = (?M(c := None))(?s \<mapsto> ?m)"
      "?M(c := None, ?s := None) = ?B"
      using ne by (auto simp: fun_eq_iff)
    note M = this
    have "stored f (map_of (tree_nodes (split_tree t p pn c cn k))) ?r ?K
        = (if p = ?r then {} else f (?K p) pn) \<union> stored f ((?M(?s \<mapsto> ?m))(c \<mapsto> ?c)) ?r ?K"
      unfolding split_tree_map by (rule trans [OF stored_put]) (simp only: M(1) f(1) [unfolded link_free_def, rule_format])
    also have "stored f ((?M(?s \<mapsto> ?m))(c \<mapsto> ?c)) ?r ?K = f (?K c) ?c \<union> stored f ((?M(c := None))(?s \<mapsto> ?m)) ?r ?K"
      by (rule trans [OF stored_put]) (simp only: M(2) ne if_False)
    also have "stored f ((?M(c := None))(?s \<mapsto> ?m)) ?r ?K = f (?K ?s) ?m \<union> stored f ?B ?r ?K"
      by (rule trans [OF stored_put]) (simp only: M(3) ne if_False)
    finally have eq: "stored f (map_of (tree_nodes (split_tree t p pn c cn k))) ?r ?K
        = (if p = ?r then {} else f (?K p) pn) \<union> (f (?K c) ?c \<union> (f (?K ?s) ?m \<union> stored f ?B ?r ?K))" .
    have "?K p = K p" "?K c = K c" "?K ?s = K p @ take k (edge_tokens cn)" using ne by auto
    then show ?thesis using eq K0 by (simp only:)
  qed
  moreover have "stored f ?N ?r K = (if p = ?r then {} else f (K p) pn) \<union> (f (K c) cn \<union> stored f ?B ?r K)"
  proof -
    have "?N(p := None, c := None) = ?B" using ne radix_fresh [OF R] by (auto simp: fun_eq_iff)
    then show ?thesis
      using ne p(1) c stored_drop [of ?N p pn f ?r K] stored_drop [of "?N(p := None)" c cn f ?r K] by simp
  qed
  ultimately show ?thesis using f(2) by auto
qed

lemma split_tree_stored:
  assumes R: "radix t K" and p: "node_at t p = Some pn" "child_of pn tok = Some c" and c: "node_at t c = Some cn"
    and k: "0 < k" "k < length (edge_tokens cn)"
  defines "N' \<equiv> map_of (tree_nodes (split_tree t p pn c cn k))" and "K' \<equiv> K(next_node_id t := K p @ take k (edge_tokens cn))"
  shows "stored pages_at N' (tree_root t) K' = stored pages_at (map_of (tree_nodes t)) (tree_root t) K"
    "stored marks_at N' (tree_root t) K' = stored marks_at (map_of (tree_nodes t)) (tree_root t) K"
proof -
  let ?e = "edge_tokens cn"
  obtain m where "node_at t c = Some m" "K c = K p @ edge_tokens m" by (rule radix_child [OF radixD(3) [OF R] p])
  then have Kc: "K c = K p @ ?e" using c by auto
  show "stored pages_at N' (tree_root t) K' = stored pages_at (map_of (tree_nodes t)) (tree_root t) K"
    unfolding N'_def K'_def
    by (rule split_tree_stored_gen [OF R p c link_free_at(1)]) (simp add: pages_at_def split_marker_def split_rest_def node_new_def)
  have "mark_at (K p @ take k ?e) (split_marker cn p c k 0) cb = mark_at (K c) cn cb" if "cb_token_offset cb \<le> k" for cb
    using that k by (simp add: mark_at_def split_marker_def node_new_def Kc min_absorb2)
  then have 1: "marks_at (K p @ take k ?e) (split_marker cn p c k 0) = mark_at (K c) cn ` {cb \<in> set (node_checkpoints cn). cb_token_offset cb \<le> k}"
    unfolding marks_at_def by (intro image_cong) (simp_all add: split_marker_def)
  have "mark_at (K c) (split_rest cn (next_node_id t) k 0) (cb\<lparr>cb_token_offset := cb_token_offset cb - k\<rparr>) = mark_at (K c) cn cb"
    if "k < cb_token_offset cb" for cb
    using that k by (simp add: mark_at_def split_rest_def Kc)
  moreover have "set (node_checkpoints (split_rest cn (next_node_id t) k 0))
      = (\<lambda>cb. cb\<lparr>cb_token_offset := cb_token_offset cb - k\<rparr>) ` {cb \<in> set (node_checkpoints cn). k < cb_token_offset cb}"
    by (simp add: split_rest_def)
  ultimately have 2: "marks_at (K c) (split_rest cn (next_node_id t) k 0) = mark_at (K c) cn ` {cb \<in> set (node_checkpoints cn). k < cb_token_offset cb}"
    unfolding marks_at_def by (auto simp: image_image intro!: image_cong)
  show "stored marks_at N' (tree_root t) K' = stored marks_at (map_of (tree_nodes t)) (tree_root t) K"
    unfolding N'_def K'_def
    by (rule split_tree_stored_gen [OF R p c link_free_at(2)], unfold 1 2, unfold marks_at_def image_Un [symmetric])
      (rule arg_cong [of _ _ "image (mark_at (K c) cn)"], auto)
qed

end
