(* ===== verification/Prefix_Refs.thy ===== *)
theory Prefix_Refs
  imports Page_Pool_Inv
begin

text \<open>
  Cache references as the prefix index uses them. The index holds a multiset \<open>S\<close> of references in a pool in which
  others hold \<open>O\<close>; taking and dropping a reference moves \<open>S\<close> by one page and leaves the rest alone. A handle that
  is valid stays valid while the index holds its page, and otherwise becomes free for good.
\<close>

abbreviation cache_refs :: "page_pool \<Rightarrow> nat \<Rightarrow> nat" where
  "cache_refs p q \<equiv> pm_cache_refs (meta p q)"

abbreviation handle_ok :: "page_pool \<Rightarrow> page_handle \<Rightarrow> bool" where
  "handle_ok p h \<equiv> is_ok (validate_handle p h)"

definition owns :: "page_pool \<Rightarrow> nat multiset \<Rightarrow> (nat \<Rightarrow> nat) \<Rightarrow> nat multiset \<Rightarrow> page_pool \<Rightarrow> bool" where
  "owns p0 M others S p \<longleftrightarrow>
     pool_inv p M \<and> pool_frame UNIV p0 p \<and> (\<forall>q \<in># S. q < pp_n_pages p)
     \<and> (\<forall>q < pp_n_pages p. cache_refs p q = others q + count S q)"

text \<open>What the calls of the index do to handles: valid ones stay valid or lose their page, and a free page stays free.\<close>

definition ages :: "page_pool \<Rightarrow> page_pool \<Rightarrow> bool" where
  "ages p p' \<longleftrightarrow>
     (\<forall>q < pp_n_pages p. pm_state (meta p q) = Free \<longrightarrow> pm_state (meta p' q) = Free)
     \<and> (\<forall>h. handle_ok p h \<longrightarrow> handle_ok p' h \<or> pm_state (meta p' (ph_phys h)) = Free)"

lemma handle_ok_iff:
  "handle_ok p h \<longleftrightarrow> ph_epoch h = pp_epoch p \<and> ph_phys h < pp_n_pages p
     \<and> pm_generation (meta p (ph_phys h)) = ph_generation h \<and> pm_state (meta p (ph_phys h)) \<noteq> Free"
  by (auto simp: validate_handle_def check_phys_def Let_def is_ok_def)

lemma ages_refl [simp]: "ages p p"
  by (simp add: ages_def)

lemma ages_trans: "ages p p' \<Longrightarrow> ages p' p'' \<Longrightarrow> pp_n_pages p' = pp_n_pages p \<Longrightarrow> ages p p''"
  unfolding ages_def by (metis handle_ok_iff)

text \<open>A handle that was valid once is valid or its page is free.\<close>

definition usable :: "page_pool \<Rightarrow> page_handle \<Rightarrow> bool" where
  "usable p h \<longleftrightarrow> handle_ok p h \<or> ph_phys h < pp_n_pages p \<and> pm_state (meta p (ph_phys h)) = Free"

lemma ages_usable: "ages p p' \<Longrightarrow> pp_n_pages p' = pp_n_pages p \<Longrightarrow> usable p h \<Longrightarrow> usable p' h"
  unfolding ages_def usable_def by (metis handle_ok_iff)

lemma owns_geometry:
  assumes "owns p0 M others S p"
  shows "pp_n_pages p = pp_n_pages p0" "pp_epoch p = pp_epoch p0" "k_page_bytes p = k_page_bytes p0" "v_page_bytes p = v_page_bytes p0"
  using assms by (auto simp: owns_def pool_frame_def k_page_bytes_def v_page_bytes_def)

lemma pool_frame_UNIV_trans: "pool_frame UNIV p0 p \<Longrightarrow> pool_frame S p p' \<Longrightarrow> pool_frame UNIV p0 p'"
  by (simp add: pool_frame_def)

lemma handle_ok_other: "pool_frame {q} p p' \<Longrightarrow> ph_phys h \<noteq> q \<Longrightarrow> handle_ok p' h \<longleftrightarrow> handle_ok p h"
  by (simp add: handle_ok_iff pool_frame_def)

lemma add_cache_ref_meta:
  assumes "pool_inv p M" "add_cache_ref p q = (p', Ok ())"
  shows "q < pp_n_pages p" "pm_state (meta p q) \<noteq> Free" "cache_refs p' q = cache_refs p q + 1"
    "pm_generation (meta p' q) = pm_generation (meta p q)" "pm_state (meta p' q) \<noteq> Free"
  using assms(2) pool_inv_length [OF assms(1)]
  by (auto simp: add_cache_ref_def check_phys_def Let_def checked_add32_def split: if_splits)

lemma owns_add:
  assumes o: "owns p0 M others S p" and a: "add_cache_ref p q = (p', Ok ())"
  shows "owns p0 M others (add_mset q S) p'" "handle_ok p h \<Longrightarrow> handle_ok p' h" "pm_state (meta p q) \<noteq> Free" "ages p p'"
proof -
  have inv: "pool_inv p M" using o by (simp add: owns_def)
  note m = add_cache_ref_meta [OF inv a]
  have f: "pool_inv p' M" "pool_frame {q} p p'" using add_cache_ref_inv [OF inv a] by auto
  then have others: "meta p' x = meta p x" if "x \<noteq> q" for x using that by (simp add: pool_frame_def)
  show "owns p0 M others (add_mset q S) p'"
    using o f m(1,3) others pool_frame_UNIV_trans [OF _ f(2)] by (auto simp: owns_def pool_frame_def)
  show ok: "handle_ok p' h" if "handle_ok p h" for h
    using that m(4,5) handle_ok_other [OF f(2), of h] f(2) by (cases "ph_phys h = q") (auto simp: handle_ok_iff pool_frame_def)
  show "pm_state (meta p q) \<noteq> Free" by (rule m(2))
  show "ages p p'" unfolding ages_def using ok others m(2) by (metis handle_ok_iff)
qed

lemma add_cache_ref_Err: "add_cache_ref p q = (p', Err e) \<Longrightarrow> p' = p"
  by (auto simp: add_cache_ref_def Let_def split: sum.splits if_splits option.splits)

lemma release_cache_ref_meta:
  assumes "pool_inv p M" "release_cache_ref p q = (p', r)" "q < pp_n_pages p" "0 < cache_refs p q"
  shows "r = Ok ()" "cache_refs p' q = cache_refs p q - 1" "pm_state (meta p q) \<noteq> Free"
    "1 < cache_refs p q \<Longrightarrow> pm_generation (meta p' q) = pm_generation (meta p q) \<and> pm_state (meta p' q) \<noteq> Free"
    "pm_state (meta p' q) = Free \<or> pm_generation (meta p' q) = pm_generation (meta p q)"
  using assms pool_inv_length [OF assms(1)] pool_inv_page_ok [OF assms(1,3)]
  by (auto simp: release_cache_ref_def Let_def free_page_def park_page_def page_ok_defs split: if_splits)

lemma owns_release:
  assumes o: "owns p0 M others (add_mset q S) p" and a: "release_cache_ref p q = (p', r)"
  shows "r = Ok ()" "owns p0 M others S p'" "handle_ok p h \<Longrightarrow> ph_phys h \<in># S \<Longrightarrow> handle_ok p' h" "ages p p'"
proof -
  have inv: "pool_inv p M" and q: "q < pp_n_pages p" and c: "cache_refs p q = others q + count S q + 1"
    using o by (auto simp: owns_def)
  have pos: "0 < cache_refs p q" using c by simp
  note m = release_cache_ref_meta [OF inv a q pos]
  have f: "pool_inv p' M" "pool_frame {q} p p'" using release_cache_ref_inv [OF inv a] by auto
  then have rest: "meta p' x = meta p x" if "x \<noteq> q" for x using that by (simp add: pool_frame_def)
  show "r = Ok ()" by (rule m(1))
  show "owns p0 M others S p'"
  proof -
    have "cache_refs p' x = others x + count S x" if "x < pp_n_pages p" for x
      using o that rest [of x] m(2) c by (cases "x = q") (auto simp: owns_def)
    then show ?thesis using o f pool_frame_UNIV_trans [OF _ f(2)] by (auto simp: owns_def pool_frame_def)
  qed
  show "handle_ok p' h" if "handle_ok p h" "ph_phys h \<in># S"
  proof (cases "ph_phys h = q")
    case True
    then have "1 < cache_refs p q" using c that(2) by simp
    then show ?thesis using m(4) that(1) True f(2) by (auto simp: handle_ok_iff pool_frame_def)
  next
    case False
    then show ?thesis using handle_ok_other [OF f(2)] that(1) by simp
  qed
  have "handle_ok p' h \<or> pm_state (meta p' (ph_phys h)) = Free" if "handle_ok p h" for h
  proof (cases "ph_phys h = q")
    case True
    then show ?thesis using m(5) that f(2) by (auto simp: handle_ok_iff pool_frame_def)
  next
    case False
    then show ?thesis using handle_ok_other [OF f(2)] that by simp
  qed
  then show "ages p p'" unfolding ages_def using rest m(3) by metis
qed

end
