(* ===== verification/Prefix_Chain.thy ===== *)
theory Prefix_Chain
  imports Prefix_Radix Prefix_Refs
begin

text \<open>
  Extending a radix tree by a chain of nodes. A chain that is completed adds the published pages and the checkpoint at
  the end of the key and takes one cache reference per page; one that is refused leaves the nodes and the
  references as they were.
\<close>

section \<open>One link\<close>

lemma chain_span_props:
  assumes "tokens \<noteq> []" "skip < PAGE_TOKENS"
  shows "0 < chain_span skip tokens" "chain_span skip tokens \<le> length tokens" "skip + chain_span skip tokens \<le> PAGE_TOKENS"
    "chain_span skip tokens < length tokens \<Longrightarrow> skip + chain_span skip tokens = PAGE_TOKENS"
  using assms by (auto simp: chain_span_def)

lemma chain_node_simps:
  "edge_tokens (chain_node seq cp skip tokens ph ck) = take (chain_span skip tokens) tokens"
  "node_parent (chain_node seq cp skip tokens ph ck) = Some cp" "node_children (chain_node seq cp skip tokens ph ck) = []"
  "node_pages (chain_node seq cp skip tokens ph ck) = (case ph of None \<Rightarrow> [] | Some ph \<Rightarrow> [ph])"
  "first_page_skip (chain_node seq cp skip tokens ph ck) = skip" "pin_count (chain_node seq cp skip tokens ph ck) = 0"
  by (simp_all add: chain_node_def node_new_def Let_def)

lemma chain_node_ok:
  assumes "tokens \<noteq> []" "skip = base mod PAGE_TOKENS" "(skip + length tokens) div PAGE_TOKENS \<le> length handles"
  shows "node_ok base (chain_node seq cp skip tokens (chain_page skip tokens handles) ck)"
proof -
  have sk: "skip < PAGE_TOKENS" by (simp add: assms(2))
  note sp = chain_span_props [OF assms(1) sk]
  have "handles \<noteq> []" if "skip + chain_span skip tokens = PAGE_TOKENS"
  proof -
    have "PAGE_TOKENS \<le> skip + length tokens" using that sp(2) by simp
    then have "0 < (skip + length tokens) div PAGE_TOKENS" by (simp add: div_greater_zero_iff)
    then show ?thesis using assms(3) by auto
  qed
  then have "length (case chain_page skip tokens handles of None \<Rightarrow> [] | Some ph \<Rightarrow> [ph])
      = (if skip + chain_span skip tokens = PAGE_TOKENS then 1 else 0)"
    by (auto simp: chain_page_def vec_get_def)
  then show ?thesis
    using sp assms(1,2) by (auto simp: node_ok_def chain_node_simps chain_node_def node_new_def Let_def split: option.split)
qed

lemma chain_step:
  assumes R: "radix t K" and p: "node_at t cp = Some pn" "child_of pn (hd tokens) = None" and tk: "tokens \<noteq> []"
    and sk: "skip = length (K cp) mod PAGE_TOKENS" "(skip + length tokens) div PAGE_TOKENS \<le> length handles"
    and l: "link_node (bumped t) cp (next_node_id t) (chain_node (next_insert_seq t) cp skip tokens (chain_page skip tokens handles) ck) = Some t1"
  defines "nid \<equiv> next_node_id t" and "node \<equiv> chain_node (next_insert_seq t) cp skip tokens (chain_page skip tokens handles) ck"
    and "K1 \<equiv> K(next_node_id t := K cp @ take (chain_span skip tokens) tokens)"
  shows "radix t1 K1" "map_of (tree_nodes t1) = (map_of (tree_nodes t))(nid \<mapsto> node, cp \<mapsto> add_child (hd tokens) nid pn)"
    "nid \<noteq> cp" "tree_root t1 = tree_root t" "next_node_id t1 = nid + 1"
    "\<And>f :: _ \<Rightarrow> 'a :: cancel_comm_monoid_add. f (add_child (hd tokens) nid pn) = f pn \<Longrightarrow> tree_sum f t1 = tree_sum f t + f node"
proof -
  have nid: "node_at t nid = None" unfolding nid_def by (rule radix_fresh [OF R])
  then show ne: "nid \<noteq> cp" using p(1) by auto
  have sp: "0 < chain_span skip tokens" by (rule chain_span_props [OF tk]) (simp add: sk(1))
  then have hd: "hd (take (chain_span skip tokens) tokens) = hd tokens" by simp
  have t1: "t1 = put_node (put_node (bumped t) nid node) cp (add_child (hd tokens) nid pn)"
    using l p(1) ne sp unfolding link_node_Some nid_def node_def by (auto simp: update_conv' chain_node_simps hd)
  show map: "map_of (tree_nodes t1) = (map_of (tree_nodes t))(nid \<mapsto> node, cp \<mapsto> add_child (hd tokens) nid pn)"
    by (simp add: t1 update_conv')
  show "tree_root t1 = tree_root t" "next_node_id t1 = nid + 1" by (simp_all add: t1 nid_def)
  have "radix_map (map_of (tree_nodes t1)) (tree_root t) K1"
    unfolding map K1_def nid_def [symmetric] hd [symmetric]
    by (rule extend_radix [OF radixD(3) [OF R] p(1) _ nid])
      (use p(2) hd chain_node_ok [OF tk sk] in \<open>simp_all add: node_def chain_node_simps\<close>)
  moreover have "i < next_node_id t1" if "node_at t1 i = Some n" for i n
    using that radixD(2) [OF R] p(1) unfolding map by (fastforce simp: t1 nid_def split: if_splits)
  ultimately show "radix t1 K1"
    using radixD(1) [OF R] unfolding radix_def by (simp add: t1 distinct_update)
  show "tree_sum f t1 = tree_sum f t + f node" if "f (add_child (hd tokens) nid pn) = f pn" for f :: "_ \<Rightarrow> 'a :: cancel_comm_monoid_add"
  proof -
    have "tree_sum f t1 = tree_sum f (put_node (bumped t) nid node)"
      unfolding t1 by (rule tree_sum_put [of _ _ pn]) (use p(1) ne that in \<open>auto simp: update_conv'\<close>)
    also have "\<dots> = tree_sum f (bumped t) + f node" by (rule tree_sum_new) (simp add: nid)
    finally show ?thesis by simp
  qed
qed

lemma stored_extend:
  assumes "N s = None" "N p = Some pn" "s \<noteq> r" "\<And>key. f key pn' = f key pn"
  shows "stored f (N(s \<mapsto> sn, p \<mapsto> pn')) r (K(s := x)) = f x sn \<union> stored f N r K"
proof (intro set_eqI)
  fix y
  have ne: "s \<noteq> p" using assms(1,2) by auto
  have "(\<exists>i n. (N(s \<mapsto> sn, p \<mapsto> pn')) i = Some n \<and> i \<noteq> r \<and> y \<in> f ((K(s := x)) i) n)
    \<longleftrightarrow> y \<in> f x sn \<or> (\<exists>i n. N i = Some n \<and> i \<noteq> r \<and> y \<in> f (K i) n)" (is "?l \<longleftrightarrow> ?r")
  proof
    assume ?l
    then obtain i n where "(N(s \<mapsto> sn, p \<mapsto> pn')) i = Some n" "i \<noteq> r" "y \<in> f ((K(s := x)) i) n" by blast
    then show ?r using assms ne by (cases "i = s"; cases "i = p") auto
  next
    assume ?r
    then show ?l
    proof
      assume "y \<in> f x sn"
      then show ?l using ne assms(3) by (intro exI [of _ s] exI [of _ sn]) simp
    next
      assume "\<exists>i n. N i = Some n \<and> i \<noteq> r \<and> y \<in> f (K i) n"
      then obtain i n where i: "N i = Some n" "i \<noteq> r" "y \<in> f (K i) n" by blast
      then have "i \<noteq> s" using assms(1) by auto
      then show ?l using i assms(2,4) by (intro exI [of _ i] exI [of _ "if i = p then pn' else n"]) auto
    qed
  qed
  then show "y \<in> stored f (N(s \<mapsto> sn, p \<mapsto> pn')) r (K(s := x)) \<longleftrightarrow> y \<in> f x sn \<union> stored f N r K"
    by (simp add: stored_mem)
qed

section \<open>Rolling back\<close>

definition undo :: "(nat \<Rightarrow> radix_node option) \<Rightarrow> nat \<Rightarrow> created_node list \<Rightarrow> nat \<Rightarrow> radix_node option" where
  "undo N parent created i =
     (if i \<in> fst ` set created then None
      else case created of
        [] \<Rightarrow> N i
      | (_, ft, _) # _ \<Rightarrow> if i = parent then map_option (remove_child ft) (N i) else N i)"

lemma drop_nodes_map: "map_of (tree_nodes (fold (\<lambda>(i, _, _) t. drop_node t i) cs t)) = (\<lambda>i. if i \<in> fst ` set cs then None else node_at t i)"
  by (induction cs arbitrary: t) (auto simp: delete_conv' fun_eq_iff)

lemma modify_node_map: "map_of (tree_nodes (modify_node i f t)) = (\<lambda>j. if j = i then map_option f (node_at t j) else node_at t j)"
  by (auto simp: modify_node_def update_conv' fun_eq_iff split: option.split)

lemma rollback_map: "map_of (tree_nodes (fst (rollback_chain t parent created pool))) = undo (map_of (tree_nodes t)) parent created"
  by (rule ext, cases created) (simp_all add: rollback_chain_def Let_def drop_nodes_map modify_node_map undo_def delete_conv' split: prod.split)

lemma drop_nodes_frame:
  "tree_root (fold (\<lambda>(i, _, _) t. drop_node t i) cs t) = tree_root t" "next_node_id (fold (\<lambda>(i, _, _) t. drop_node t i) cs t) = next_node_id t"
  "distinct (map fst (tree_nodes t)) \<Longrightarrow> distinct (map fst (tree_nodes (fold (\<lambda>(i, _, _) t. drop_node t i) cs t)))"
  by (induction cs arbitrary: t) (auto simp: distinct_delete)

lemma modify_node_frame:
  "tree_root (modify_node i f t) = tree_root t" "next_node_id (modify_node i f t) = next_node_id t"
  "distinct (map fst (tree_nodes t)) \<Longrightarrow> distinct (map fst (tree_nodes (modify_node i f t)))"
  by (auto simp: modify_node_def distinct_update split: option.split)

lemma rollback_frame:
  "tree_root (fst (rollback_chain t parent created pool)) = tree_root t"
  "next_node_id (fst (rollback_chain t parent created pool)) = next_node_id t"
  "distinct (map fst (tree_nodes t)) \<Longrightarrow> distinct (map fst (tree_nodes (fst (rollback_chain t parent created pool))))"
  by (auto simp: rollback_chain_def Let_def drop_nodes_frame modify_node_frame split: list.split)

lemma delete_update_absent: "map_of xs k = None \<Longrightarrow> AList.delete k (AList.update k v xs) = xs"
  by (induction xs) (auto split: if_splits)

lemma undo_link:
  assumes "N nid = None" "N cp = Some pn" "parent \<notin> fst ` set created" "nid \<noteq> parent"
    and "created = [] \<Longrightarrow> cp = parent \<and> child_of pn ft = None" "created \<noteq> [] \<Longrightarrow> cp \<in> fst ` set created"
  shows "undo (N(nid \<mapsto> node, cp \<mapsto> add_child ft nid pn)) parent (created @ [(nid, ft, ph)]) = undo N parent created"
proof (cases created)
  case Nil
  then have "remove_child ft (add_child ft nid pn) = pn" using assms(5) by (simp add: delete_update_absent)
  then show ?thesis using assms Nil by (auto simp: undo_def fun_eq_iff)
next
  case (Cons c cs)
  then have "cp \<noteq> parent" "cp \<in> fst ` set created" using assms(3,6) by auto
  then show ?thesis using assms(1,4) Cons by (auto simp: undo_def fun_eq_iff split: prod.splits)
qed

section \<open>References of a chain\<close>

definition ref_of :: "page_handle option \<Rightarrow> nat multiset" where
  "ref_of ph = (case ph of None \<Rightarrow> {#} | Some h \<Rightarrow> {#ph_phys h#})"

definition created_refs :: "created_node list \<Rightarrow> nat multiset" where
  "created_refs created = sum_list (map (\<lambda>(_, _, ph). ref_of ph) created)"

lemma take_ref_Ok:
  assumes "take_ref pool ph = (pool', Ok ())" "owns p0 M others S pool"
  shows "owns p0 M others (S + ref_of ph) pool'" "handle_ok pool h \<Longrightarrow> handle_ok pool' h" "ages pool pool'"
    "ph = Some h \<Longrightarrow> pm_state (meta pool (ph_phys h)) \<noteq> Free"
proof -
  have "ph = None \<and> pool' = pool \<or> (\<exists>h. ph = Some h \<and> add_cache_ref pool (ph_phys h) = (pool', Ok ()))"
    using assms(1) by (auto simp: take_ref_def split: option.splits prod.splits sum.splits)
  then show "owns p0 M others (S + ref_of ph) pool'" "handle_ok pool h \<Longrightarrow> handle_ok pool' h" "ages pool pool'"
    "ph = Some h \<Longrightarrow> pm_state (meta pool (ph_phys h)) \<noteq> Free"
    using owns_add [OF assms(2)] assms(2) by (auto simp: ref_of_def)
qed

lemma take_ref_Err: "take_ref pool ph = (pool', Err e) \<Longrightarrow> pool' = pool \<and> e \<noteq> IndexPanics \<and> e \<noteq> CpuNodeBoundExceeded a b"
  by (auto simp: take_ref_def dest: add_cache_ref_Err split: option.splits prod.splits sum.splits)

lemma owns_refold:
  assumes "owns p0 M others (S + sum_list (map (\<lambda>(_, _, ph). ref_of ph) cs)) pool"
  defines "pool' \<equiv> fold (\<lambda>(_, _, ph) p. case ph of None \<Rightarrow> p | Some ph \<Rightarrow> fst (release_cache_ref p (ph_phys ph))) cs pool"
  shows "owns p0 M others S pool' \<and> ages pool pool' \<and> (\<forall>h. handle_ok pool h \<longrightarrow> ph_phys h \<in># S \<longrightarrow> handle_ok pool' h)"
  using assms(1) unfolding pool'_def
proof (induction cs arbitrary: pool)
  case (Cons c cs)
  obtain i ft ph where c: "c = (i, ft, ph)" by (cases c)
  show ?case
  proof (cases ph)
    case None
    then show ?thesis using Cons by (simp add: c ref_of_def)
  next
    case (Some h)
    obtain p1 r where r: "release_cache_ref pool (ph_phys h) = (p1, r)" by fastforce
    have o: "owns p0 M others (add_mset (ph_phys h) (S + sum_list (map (\<lambda>(_, _, ph). ref_of ph) cs))) pool"
      using Cons.prems by (simp add: c Some ref_of_def)
    note rel = owns_release [OF o r]
    note ih = Cons.IH [OF rel(2)]
    have "pp_n_pages p1 = pp_n_pages pool" using owns_geometry(1) [OF rel(2)] owns_geometry(1) [OF o] by simp
    then show ?thesis using ih rel(3,4) ages_trans [OF rel(4)] by (simp add: c Some r)
  qed
qed simp

lemma rollback_refs:
  assumes "owns p0 M others (S + created_refs created) pool" "rollback_chain t parent created pool = (t', pool')"
  shows "owns p0 M others S pool'" "ages pool pool'" "handle_ok pool h \<Longrightarrow> ph_phys h \<in># S \<Longrightarrow> handle_ok pool' h"
proof -
  have "created_refs created = sum_list (map (\<lambda>(_, _, ph). ref_of ph) (rev created))"
    by (simp add: created_refs_def sum_list_rev flip: rev_map)
  then show "owns p0 M others S pool'" "ages pool pool'" "handle_ok pool h \<Longrightarrow> ph_phys h \<in># S \<Longrightarrow> handle_ok pool' h"
    using owns_refold [of p0 M others S "rev created" pool] assms by (auto simp: rollback_chain_def Let_def)
qed

text \<open>After a full page the next round starts at a page boundary, with one handle less.\<close>

lemma chain_next:
  assumes tk: "tokens \<noteq> []" "drop (chain_span skip tokens) tokens \<noteq> []" and sk: "skip = L mod PAGE_TOKENS"
    and h: "(skip + length tokens) div PAGE_TOKENS \<le> length handles"
  shows "skip + chain_span skip tokens = PAGE_TOKENS" "(L + chain_span skip tokens) mod PAGE_TOKENS = 0"
    "(L + chain_span skip tokens) div PAGE_TOKENS = L div PAGE_TOKENS + 1"
    "length (drop (chain_span skip tokens) tokens) div PAGE_TOKENS \<le> length (drop 1 handles)"
proof -
  have "skip < PAGE_TOKENS" by (simp add: sk)
  then show full: "skip + chain_span skip tokens = PAGE_TOKENS"
    using chain_span_props(4) [OF tk(1), of skip] tk(2) by simp
  have "L + chain_span skip tokens = PAGE_TOKENS * (L div PAGE_TOKENS) + (skip + chain_span skip tokens)" by (simp add: sk)
  also have "\<dots> = PAGE_TOKENS * (L div PAGE_TOKENS + 1)" by (simp add: full)
  finally have eq: "L + chain_span skip tokens = PAGE_TOKENS * (L div PAGE_TOKENS + 1)" .
  show "(L + chain_span skip tokens) mod PAGE_TOKENS = 0" "(L + chain_span skip tokens) div PAGE_TOKENS = L div PAGE_TOKENS + 1"
    unfolding eq by simp_all
  have "skip + length tokens = PAGE_TOKENS + length (drop (chain_span skip tokens) tokens)"
    using full tk(2) by simp
  then have "(skip + length tokens) div PAGE_TOKENS = length (drop (chain_span skip tokens) tokens) div PAGE_TOKENS + 1"
    by (simp only: div_add_self1 PAGE_TOKENS_nonzero not_False_eq_True)
  then show "length (drop (chain_span skip tokens) tokens) div PAGE_TOKENS \<le> length (drop 1 handles)" using h by simp
qed

lemma created_refs_snoc: "created_refs (created @ [(nid, ft, ph)]) = created_refs created + ref_of ph"
  by (simp add: created_refs_def)

section \<open>A refused chain\<close>

lemma chain_loop_refused:
  assumes "chain_loop t parent cp tokens handles skip ck pool maxn tot created adopted = (t', pool', Err e)"
    and "radix t K" "node_at t cp = Some pn" "tokens \<noteq> [] \<Longrightarrow> child_of pn (hd tokens) = None"
    and "skip = length (K cp) mod PAGE_TOKENS" "(skip + length tokens) div PAGE_TOKENS \<le> length handles"
    and "owns p0 M others (S + created_refs created) pool"
    and "node_at t parent \<noteq> None" "parent \<notin> fst ` set created" "created = [] \<Longrightarrow> cp = parent" "created \<noteq> [] \<Longrightarrow> cp \<in> fst ` set created"
  shows "e \<noteq> IndexPanics \<and> map_of (tree_nodes t') = undo (map_of (tree_nodes t)) parent created \<and> tree_root t' = tree_root t
    \<and> next_node_id t \<le> next_node_id t' \<and> distinct (map fst (tree_nodes t'))
    \<and> owns p0 M others S pool' \<and> ages pool pool' \<and> (\<forall>h. handle_ok pool h \<longrightarrow> ph_phys h \<in># S \<longrightarrow> handle_ok pool' h)"
  using assms
proof (induction "length tokens" arbitrary: t K cp pn tokens handles skip pool tot created adopted rule: less_induct)
  case less
  note R = less.prems(2)
  have undone: "?case" if "(t', pool') = rollback_chain (bumped t) parent created pool" "e \<noteq> IndexPanics"
  proof -
    have t': "t' = fst (rollback_chain (bumped t) parent created pool)" using that(1) by (metis fst_conv)
    show ?thesis
      using rollback_refs [OF less.prems(7) that(1) [symmetric]] that(2) radixD(1) [OF R]
      unfolding t' rollback_map rollback_frame by (auto intro: rollback_frame(3))
  qed
  from less.prems(1) show ?case
  proof (cases rule: chain_loop_cases)
    case panic
    have "0 < chain_span skip tokens" by (rule chain_span_props [OF panic(1)]) (simp add: less.prems(5))
    then show ?thesis using panic(2) less.prems(3) by (auto simp: link_node_def Let_def update_conv' split: if_splits)
  next
    case bound
    then show ?thesis using undone by simp
  next
    case (refused e' pool1)
    then show ?thesis using undone take_ref_Err [OF refused(2)] by simp
  next
    case (step pool1 t1)
    let ?nid = "next_node_id t" and ?ph = "chain_page skip tokens handles"
    note st = chain_step [OF R less.prems(3) less.prems(4) [OF step(1)] step(1) less.prems(5,6) step(5)]
    note tr = take_ref_Ok [OF step(4) less.prems(7)]
    let ?K = "K(?nid := K cp @ take (chain_span skip tokens) tokens)"
    have rest: "drop (chain_span skip tokens) tokens \<noteq> []" using step(6) by (auto simp: chain_loop.simps)
    note nx = chain_next [OF step(1) rest less.prems(5,6)]
    have K: "?K ?nid = K cp @ take (chain_span skip tokens) tokens" by simp
    have len: "length (?K ?nid) = length (K cp) + chain_span skip tokens"
      unfolding K using rest by simp
    have par: "node_at t1 parent \<noteq> None" "?nid \<noteq> parent" using less.prems(8) st(2) radix_fresh [OF R] by auto
    have leaf: "child_of (chain_node seq cp skip tokens ph ck) tok = None" for seq ph tok
      unfolding chain_node_simps by simp
    have node: "node_at t1 ?nid = Some (chain_node (next_insert_seq t) cp skip tokens ?ph ck)" using st(2,3) by simp
    have ih: "e \<noteq> IndexPanics \<and> map_of (tree_nodes t') = undo (map_of (tree_nodes t1)) parent (created @ [(?nid, hd tokens, ?ph)])
        \<and> tree_root t' = tree_root t1 \<and> next_node_id t1 \<le> next_node_id t' \<and> distinct (map fst (tree_nodes t'))
        \<and> owns p0 M others S pool' \<and> ages pool1 pool' \<and> (\<forall>h. handle_ok pool1 h \<longrightarrow> ph_phys h \<in># S \<longrightarrow> handle_ok pool' h)"
      by (rule less.hyps [OF drop_chain_span [OF step(1,2)] step(6) st(1) node leaf])
        (use tr(1) nx len par less.prems(9) in \<open>simp_all add: created_refs_snoc add.assoc\<close>)
    have "undo (map_of (tree_nodes t1)) parent (created @ [(?nid, hd tokens, ?ph)]) = undo (map_of (tree_nodes t)) parent created"
      unfolding st(2) by (rule undo_link) (use radix_fresh [OF R] less.prems(3,9,10,11) less.prems(4) [OF step(1)] par in auto)
    moreover have "pp_n_pages pool1 = pp_n_pages pool" using owns_geometry(1) [OF tr(1)] owns_geometry(1) [OF less.prems(7)] by simp
    ultimately show ?thesis using ih st(4,5) tr(2,3) ages_trans [OF tr(3)] by auto
  qed simp
qed

section \<open>A completed chain\<close>

text \<open>Nodes stay in the tree, with their strings, pins and pages.\<close>

definition keeps :: "domain_tree \<Rightarrow> (nat \<Rightarrow> token list) \<Rightarrow> domain_tree \<Rightarrow> (nat \<Rightarrow> token list) \<Rightarrow> bool" where
  "keeps t K t' K' \<longleftrightarrow>
     tree_root t' = tree_root t \<and> next_node_id t \<le> next_node_id t'
     \<and> (\<forall>i n. node_at t i = Some n \<longrightarrow> K' i = K i \<and> (\<exists>n'. node_at t' i = Some n' \<and> pin_count n' = pin_count n \<and> node_pages n' = node_pages n))"

lemma keeps_refl [simp]: "keeps t K t K"
  by (simp add: keeps_def)

lemma keeps_trans: "keeps t K t' K' \<Longrightarrow> keeps t' K' t'' K'' \<Longrightarrow> keeps t K t'' K''"
  unfolding keeps_def by (metis order_trans)

text \<open>The pages a publication of \<open>key\<close> may store, when its handles start with the one of page \<open>b\<close>.\<close>

definition published :: "nat \<Rightarrow> token list \<Rightarrow> handle list \<Rightarrow> (token list \<times> page_handle) set" where
  "published b key hs =
     {(take ((b + j + 1) * PAGE_TOKENS) key, h_handle (hs ! j)) | j. j < length hs \<and> (b + j + 1) * PAGE_TOKENS \<le> length key}"

lemma published_drop: "published (b + 1) key (drop 1 hs) \<subseteq> published b key hs"
proof
  fix x assume "x \<in> published (b + 1) key (drop 1 hs)"
  then obtain j where j: "x = (take ((b + 1 + j + 1) * PAGE_TOKENS) key, h_handle (drop 1 hs ! j))"
    "j < length (drop 1 hs)" "(b + 1 + j + 1) * PAGE_TOKENS \<le> length key" by (auto simp: published_def)
  then have "x = (take ((b + (j + 1) + 1) * PAGE_TOKENS) key, h_handle (hs ! (j + 1)))" "j + 1 < length hs"
    "(b + (j + 1) + 1) * PAGE_TOKENS \<le> length key" by (simp_all add: add.commute add.left_commute)
  then show "x \<in> published b key hs" unfolding published_def by blast
qed

definition requested_mark :: "token list \<Rightarrow> checkpoint_id option \<Rightarrow> (token list \<times> checkpoint_id) set" where
  "requested_mark key ck = (if requested_id ck = CHECKPOINT_NONE then {} else {(key, requested_id ck)})"

abbreviation tree_pages :: "domain_tree \<Rightarrow> (nat \<Rightarrow> token list) \<Rightarrow> (token list \<times> page_handle) set" where
  "tree_pages t K \<equiv> stored pages_at (map_of (tree_nodes t)) (tree_root t) K"

abbreviation tree_marks :: "domain_tree \<Rightarrow> (nat \<Rightarrow> token list) \<Rightarrow> (token list \<times> checkpoint_id) set" where
  "tree_marks t K \<equiv> stored marks_at (map_of (tree_nodes t)) (tree_root t) K"

lemma chain_step_keeps:
  assumes "map_of (tree_nodes t1) = (map_of (tree_nodes t))(nid \<mapsto> node, cp \<mapsto> add_child ft nid pn)"
    "tree_root t1 = tree_root t" "next_node_id t \<le> next_node_id t1" "node_at t nid = None" "node_at t cp = Some pn"
  shows "keeps t K t1 (K(nid := x))"
  unfolding keeps_def
proof (intro conjI allI impI)
  fix i n assume i: "node_at t i = Some n"
  then have "i \<noteq> nid" using assms(4) by auto
  then show "(K(nid := x)) i = K i" by simp
  show "\<exists>n'. node_at t1 i = Some n' \<and> pin_count n' = pin_count n \<and> node_pages n' = node_pages n"
    using i assms(1,5) \<open>i \<noteq> nid\<close> by (cases "i = cp") auto
qed (use assms in auto)

lemma chain_node_stored:
  fixes seq cp :: nat and hs :: "handle list" and ck :: "checkpoint_id option"
  assumes "tokens \<noteq> []" "skip = L mod PAGE_TOKENS" "L = length base" "key = base @ tokens"
  defines "node \<equiv> chain_node seq cp skip tokens (chain_page skip tokens hs) ck"
    and "at \<equiv> base @ take (chain_span skip tokens) tokens"
  shows "pages_at at node \<subseteq> published (L div PAGE_TOKENS) key hs"
    "marks_at at node = (if drop (chain_span skip tokens) tokens = [] then requested_mark key ck else {})"
    "node_slots node = ref_of (chain_page skip tokens hs)"
proof -
  have sk: "skip < PAGE_TOKENS" by (simp add: assms(2))
  note sp = chain_span_props [OF assms(1) sk]
  show "node_slots node = ref_of (chain_page skip tokens hs)"
    by (simp add: node_def node_slots_def chain_node_simps ref_of_def split: option.split)
  show "pages_at at node \<subseteq> published (L div PAGE_TOKENS) key hs"
  proof
    fix x assume "x \<in> pages_at at node"
    then obtain h where h: "chain_page skip tokens hs = Some h" "x = (at, h)"
      by (cases "chain_page skip tokens hs") (auto simp: pages_at_def node_def chain_node_simps)
    then have full: "skip + chain_span skip tokens = PAGE_TOKENS" "hs \<noteq> []" "h = h_handle (hs ! 0)"
      by (auto simp: chain_page_def vec_get_def split: if_splits)
    have "(L div PAGE_TOKENS + 0 + 1) * PAGE_TOKENS = L + chain_span skip tokens"
      using full(1) div_mult_mod_eq [of L PAGE_TOKENS] unfolding assms(2) [symmetric] add_mult_distrib by linarith
    moreover from this have "at = take ((L div PAGE_TOKENS + 0 + 1) * PAGE_TOKENS) key"
      by (simp only: at_def assms(3,4) take_append) simp
    ultimately show "x \<in> published (L div PAGE_TOKENS) key hs"
      using h(2) full(2,3) sp(2) assms(3,4) unfolding published_def by force
  qed
  have "length at - chain_span skip tokens + chain_span skip tokens = length at" using sp(2) by (simp add: at_def)
  then show "marks_at at node = (if drop (chain_span skip tokens) tokens = [] then requested_mark key ck else {})"
    using sp(2) assms(4)
    by (auto simp: marks_at_def mark_at_def node_def chain_node_def node_new_def Let_def requested_mark_def requested_id_def
        CHECKPOINT_NONE_def checkpoint_is_some_def at_def split: option.split)
qed

text \<open>What a tree gains: references, nodes, pages and marks.\<close>

definition grows ::
  "domain_tree \<Rightarrow> (nat \<Rightarrow> token list) \<Rightarrow> domain_tree \<Rightarrow> (nat \<Rightarrow> token list) \<Rightarrow> nat multiset \<Rightarrow> nat
    \<Rightarrow> (token list \<times> page_handle) set \<Rightarrow> (token list \<times> checkpoint_id) set \<Rightarrow> bool" where
  "grows t K t' K' X n P Q \<longleftrightarrow>
     radix t' K' \<and> keeps t K t' K' \<and> tree_sum node_slots t' = tree_sum node_slots t + X
     \<and> tree_sum (\<lambda>_. 1 :: nat) t' = tree_sum (\<lambda>_. 1) t + n
     \<and> tree_pages t' K' = tree_pages t K \<union> P \<and> tree_marks t' K' = tree_marks t K \<union> Q"

lemma grows_refl: "radix t K \<Longrightarrow> grows t K t K {#} 0 {} {}"
  by (simp add: grows_def)

lemma grows_trans:
  "grows t K t1 K1 X1 n1 P1 Q1 \<Longrightarrow> grows t1 K1 t2 K2 X2 n2 P2 Q2 \<Longrightarrow> grows t K t2 K2 (X1 + X2) (n1 + n2) (P1 \<union> P2) (Q1 \<union> Q2)"
  unfolding grows_def by (auto intro: keeps_trans simp: ac_simps)

lemma chain_step_grows:
  assumes R: "radix t K" and p: "node_at t cp = Some pn" "child_of pn (hd tokens) = None" and tk: "tokens \<noteq> []"
    and sk: "skip = length (K cp) mod PAGE_TOKENS" "(skip + length tokens) div PAGE_TOKENS \<le> length handles"
    and l: "link_node (bumped t) cp (next_node_id t) (chain_node (next_insert_seq t) cp skip tokens (chain_page skip tokens handles) ck) = Some t1"
  defines "at \<equiv> K cp @ take (chain_span skip tokens) tokens"
    and "node \<equiv> chain_node (next_insert_seq t) cp skip tokens (chain_page skip tokens handles) ck"
  shows "grows t K t1 (K(next_node_id t := at)) (ref_of (chain_page skip tokens handles)) 1 (pages_at at node) (marks_at at node)"
proof -
  let ?nid = "next_node_id t"
  note st = chain_step [OF assms(1-7)]
  have root: "?nid \<noteq> tree_root t" using radix_mapD(2) [OF radixD(3) [OF R]] radix_fresh [OF R] by auto
  have sum: "tree_sum node_slots t1 = tree_sum node_slots t + ref_of (chain_page skip tokens handles)"
    using st(6) [of node_slots] chain_node_stored(3) [OF tk sk(1) refl refl, of "next_insert_seq t" cp handles ck] by (simp add: node_slots_def)
  have one: "tree_sum (\<lambda>_. 1 :: nat) t1 = tree_sum (\<lambda>_. 1) t + 1" using st(6) [of "\<lambda>_. 1 :: nat"] by simp
  have sto: "stored f (map_of (tree_nodes t1)) (tree_root t1) (K(?nid := at)) = stored f (map_of (tree_nodes t)) (tree_root t) K \<union> f at node"
    if "link_free f" for f :: "token list \<Rightarrow> radix_node \<Rightarrow> 'a set"
    using stored_extend [of "map_of (tree_nodes t)" ?nid cp pn "tree_root t" f "add_child (hd tokens) ?nid pn" node K at]
      radix_fresh [OF R] p(1) root that unfolding st(2,4) node_def by (auto simp: link_free_def)
  show ?thesis
    unfolding grows_def using st(1) sum one sto [OF link_free_at(1)] sto [OF link_free_at(2)]
      chain_step_keeps [OF st(2,4) _ radix_fresh [OF R] p(1), of K at] st(5) by (simp add: at_def)
qed

text \<open>The outcome of a chain from \<open>pool\<close> to \<open>pool'\<close>, when the index held \<open>S\<close> before.\<close>

definition refs_grow ::
  "page_pool \<Rightarrow> nat multiset \<Rightarrow> (nat \<Rightarrow> nat) \<Rightarrow> nat multiset \<Rightarrow> page_pool \<Rightarrow> page_pool \<Rightarrow> (token list \<times> page_handle) set \<Rightarrow> bool" where
  "refs_grow p0 M others S pool pool' P \<longleftrightarrow>
     owns p0 M others S pool' \<and> ages pool pool' \<and> (\<forall>h. handle_ok pool h \<longrightarrow> handle_ok pool' h) \<and> (\<forall>x \<in> P. handle_ok pool' (snd x))"

lemma chain_page_ok:
  assumes "x \<in> pages_at at (chain_node seq cp skip tokens (chain_page skip tokens handles) ck)"
    and "\<forall>h \<in> set handles. usable pool (h_handle h)"
    and "\<And>h. chain_page skip tokens handles = Some h \<Longrightarrow> pm_state (meta pool (ph_phys h)) \<noteq> Free"
  shows "handle_ok pool (snd x)"
proof -
  obtain h where h: "chain_page skip tokens handles = Some h" "snd x = h"
    using assms(1) by (cases "chain_page skip tokens handles") (auto simp: pages_at_def chain_node_simps)
  then have "handles \<noteq> []" "h = h_handle (handles ! 0)" by (auto simp: chain_page_def vec_get_def split: if_splits)
  then have "h \<in> h_handle ` set handles" by simp
  then show ?thesis using assms(2) assms(3) [OF h(1)] h(2) by (auto simp: usable_def)
qed

lemma chain_loop_completed:
  assumes "chain_loop t parent cp tokens handles skip ck pool maxn tot created adopted = (t', pool', Ok (d, a))"
    and "radix t K" "node_at t cp = Some pn" "tokens \<noteq> [] \<Longrightarrow> child_of pn (hd tokens) = None"
    and "tokens \<noteq> [] \<Longrightarrow> skip = length (K cp) mod PAGE_TOKENS \<and> (skip + length tokens) div PAGE_TOKENS \<le> length handles"
    and "owns p0 M others S pool" "\<forall>h \<in> set handles. usable pool (h_handle h)"
  shows "\<exists>K' X n P. grows t K t' K' X n P (if tokens = [] then {} else requested_mark (K cp @ tokens) ck)
    \<and> P \<subseteq> (if tokens = [] then {} else published (length (K cp) div PAGE_TOKENS) (K cp @ tokens) handles)
    \<and> refs_grow p0 M others (S + X) pool pool' P \<and> d = length created + n \<and> a = adopted + size X \<and> (n = 0 \<or> tot + n \<le> maxn)
    \<and> (\<exists>e. node_at t' e \<noteq> None \<and> K' e = K cp @ tokens)"
  using assms
proof (induction "length tokens" arbitrary: t K cp pn tokens handles skip pool tot created adopted S rule: less_induct)
  case less
  note R = less.prems(2)
  from less.prems(1) show ?case
  proof (cases rule: chain_loop_cases)
    case finished
    then show ?thesis
      using grows_refl [OF R] less.prems(3,6)
      by (intro exI [of _ K] exI [of _ "{#}"] exI [of _ 0] exI [of _ "{}"]) (auto simp: refs_grow_def)
  next
    case (step pool1 t1)
    let ?nid = "next_node_id t" and ?ph = "chain_page skip tokens handles" and ?sp = "chain_span skip tokens"
    let ?at = "K cp @ take ?sp tokens" and ?node = "chain_node (next_insert_seq t) cp skip tokens ?ph ck"
    have sk: "skip = length (K cp) mod PAGE_TOKENS" "(skip + length tokens) div PAGE_TOKENS \<le> length handles"
      using less.prems(5) step(1) by auto
    note as = R less.prems(3) less.prems(4) [OF step(1)] step(1) sk step(5)
    note st = chain_step [OF as] and gr = chain_step_grows [OF as] and sto = chain_node_stored [OF step(1) sk(1) refl refl]
    note tr = take_ref_Ok [OF step(4) less.prems(6)]
    have n1: "pp_n_pages pool1 = pp_n_pages pool" using owns_geometry(1) [OF tr(1)] owns_geometry(1) [OF less.prems(6)] by simp
    have node: "node_at t1 ?nid = Some ?node" using st(2,3) by simp
    have leaf: "child_of ?node tok = None" for tok unfolding chain_node_simps by simp
    have key: "(K(?nid := ?at)) ?nid @ drop ?sp tokens = K cp @ tokens" by simp
    have nx: "0 = length ((K(?nid := ?at)) ?nid) mod PAGE_TOKENS \<and> (0 + length (drop ?sp tokens)) div PAGE_TOKENS \<le> length (drop 1 handles)"
      "length ((K(?nid := ?at)) ?nid) div PAGE_TOKENS = length (K cp) div PAGE_TOKENS + 1" if "drop ?sp tokens \<noteq> []"
      using chain_next [OF step(1) that sk] that by (simp_all add: min_absorb2)
    have us: "\<forall>h \<in> set (drop 1 handles). usable pool1 (h_handle h)"
      using less.prems(7) ages_usable [OF tr(3) n1] by (auto dest: in_set_dropD)
    obtain K' X n P where ih: "grows t1 (K(?nid := ?at)) t' K' X n P (if drop ?sp tokens = [] then {} else requested_mark (K cp @ tokens) ck)"
      "P \<subseteq> (if drop ?sp tokens = [] then {} else published (length ((K(?nid := ?at)) ?nid) div PAGE_TOKENS) (K cp @ tokens) (drop 1 handles))"
      "refs_grow p0 M others (S + ref_of ?ph + X) pool1 pool' P" "d = length (created @ [(?nid, hd tokens, ?ph)]) + n"
      "a = (if ?ph = None then adopted else adopted + 1) + size X" "n = 0 \<or> tot + 1 + n \<le> maxn"
      "\<exists>e. node_at t' e \<noteq> None \<and> K' e = K cp @ tokens"
      using less.hyps [OF drop_chain_span [OF step(1,2)] step(6) st(1) node leaf nx(1) tr(1) us] unfolding key by metis
    let ?own = "pages_at ?at ?node" and ?pub = "published (length (K cp) div PAGE_TOKENS) (K cp @ tokens) handles"
    have P: "?own \<union> P \<subseteq> ?pub"
      using ih(2) sto(1) nx(2) published_drop by (fastforce split: if_splits)
    have Q: "marks_at ?at ?node \<union> (if drop ?sp tokens = [] then {} else requested_mark (K cp @ tokens) ck) = requested_mark (K cp @ tokens) ck"
      unfolding sto(2) by simp
    have own: "handle_ok pool (snd x)" if "x \<in> ?own" for x
      by (rule chain_page_ok [OF that less.prems(7) tr(4)])
    have G: "grows t K t' K' (ref_of ?ph + X) (1 + n) (?own \<union> P) (requested_mark (K cp @ tokens) ck)"
      using grows_trans [OF gr ih(1)] unfolding Q .
    have F: "refs_grow p0 M others (S + (ref_of ?ph + X)) pool pool' (?own \<union> P)"
      using ih(3) own tr(2) ages_trans [OF tr(3) _ n1] by (auto simp: refs_grow_def add.assoc)
    have a: "a = adopted + size (ref_of ?ph + X)" using ih(5) by (simp add: ref_of_def split: option.splits)
    show ?thesis
      using G F P ih(4,6,7) a step(1,3) by (intro exI [of _ K'] exI [of _ "ref_of ?ph + X"] exI [of _ "1 + n"] exI [of _ "?own \<union> P"]) auto
  qed simp_all
qed

end
