(* ===== verification/Prefix_Insert.thy ===== *)
theory Prefix_Insert
  imports Prefix_Chain
begin

text \<open>
  Publishing a key in one tree. A publication that succeeds leaves a tree that holds the old pages and checkpoints, the
  pages of the key beyond its deepest resident prefix, and the requested checkpoint at its end; one that is refused
  leaves every node and reference as it was, the split of an edge included.
\<close>

section \<open>Splits and checkpoints as growth\<close>

lemma split_tree_grows:
  assumes R: "radix t K" and p: "node_at t p = Some pn" "child_of pn tok = Some c" and c: "node_at t c = Some cn"
    and k: "0 < k" "k < length (edge_tokens cn)"
  shows "grows t K (split_tree t p pn c cn k) (K(next_node_id t := K p @ take k (edge_tokens cn))) {#} 1 {} {}"
proof -
  let ?s = "next_node_id t" and ?t = "split_tree t p pn c cn k"
  have ne: "p \<noteq> c" "?s \<noteq> p" "?s \<noteq> c" "node_at t ?s = None"
    using radix_not_self_child [OF radixD(3) [OF R] p] radixD(2) [OF R p(1)] radixD(2) [OF R c] radix_fresh [OF R] by auto
  have frame: "tree_root ?t = tree_root t" "next_node_id ?t = ?s + 1" by (simp_all add: split_tree_def Let_def)
  have keep: "keeps t K ?t (K(?s := K p @ take k (edge_tokens cn)))"
    unfolding keeps_def frame split_tree_map using ne p(1) c by (auto simp: split_rest_def)
  have sum: "tree_sum f ?t = tree_sum f t + f (split_marker cn p c k 0)"
    if "\<And>n ch. f (n\<lparr>node_children := ch\<rparr>) = f n" "f (split_rest cn ?s k 0) = f cn" for f :: "_ \<Rightarrow> 'a :: cancel_comm_monoid_add"
  proof -
    let ?t1 = "put_node (t\<lparr>next_node_id := ?s + 1\<rparr>) ?s (split_marker cn p c k 0)" and ?c = "split_rest cn ?s k 0"
    have "tree_sum f ?t = tree_sum f (put_node ?t1 c ?c)"
      unfolding split_tree_def Let_def by (rule tree_sum_put [of _ _ pn]) (use ne p(1) that(1) in \<open>auto simp: update_conv'\<close>)
    also have "\<dots> = tree_sum f ?t1" by (rule tree_sum_put [of _ _ cn]) (use ne c that(2) in \<open>auto simp: update_conv'\<close>)
    also have "\<dots> = tree_sum f (t\<lparr>next_node_id := ?s + 1\<rparr>) + f (split_marker cn p c k 0)"
      by (rule tree_sum_new) (simp add: ne)
    finally show ?thesis by simp
  qed
  have "tree_sum node_slots ?t = tree_sum node_slots t + {#}"
    using sum [of node_slots] by (simp add: node_slots_def split_rest_def split_marker_def node_new_def)
  moreover have "tree_sum (\<lambda>_. 1 :: nat) ?t = tree_sum (\<lambda>_. 1) t + 1" by (rule sum) simp_all
  ultimately show ?thesis
    using keep split_tree_radix [OF assms] split_tree_stored [OF assms] frame(1) by (simp add: grows_def)
qed

lemma find_sorted_None:
  "find (\<lambda>x. f x = (k :: nat)) xs = None \<Longrightarrow> sorted_wrt (<) (map f xs) \<Longrightarrow> f y = k \<Longrightarrow> sorted_wrt (<) (map f (sort_key f (xs @ [y])))"
proof -
  assume a: "find (\<lambda>x. f x = k) xs = None" "sorted_wrt (<) (map f xs)" "f y = k"
  then have "k \<notin> f ` set xs" by (auto simp: find_None_iff)
  moreover have "distinct (map f xs)" using a(2) by (simp add: strict_sorted_iff)
  ultimately have "distinct (map f (sort_key f (xs @ [y])))"
    using a(3) by (auto simp: distinct_map)
  then show ?thesis by (simp add: strict_sorted_iff)
qed

lemma attach_checkpoint_node:
  assumes "attach_checkpoint n off ck = (n', adopted)"
  shows "node_parent n' = node_parent n" "edge_tokens n' = edge_tokens n" "node_children n' = node_children n"
    "node_pages n' = node_pages n" "pin_count n' = pin_count n" "insert_seq n' = insert_seq n"
    "0 < off \<Longrightarrow> off \<le> length (edge_tokens n) \<Longrightarrow> node_ok b n \<Longrightarrow> node_ok b n'"
    "set (node_checkpoints n) \<subseteq> set (node_checkpoints n')"
    "set (node_checkpoints n') \<subseteq> insert \<lparr>cb_token_offset = off, cb_checkpoint = ck\<rparr> (set (node_checkpoints n))"
    "\<lparr>cb_token_offset = off, cb_checkpoint = adopted\<rparr> \<in> set (node_checkpoints n')"
proof -
  have same: "\<lparr>cb_token_offset = cb_token_offset cb, cb_checkpoint = cb_checkpoint cb\<rparr> = cb" for cb :: checkpoint_boundary by simp
  let ?add = "node_checkpoints n @ [\<lparr>cb_token_offset = off, cb_checkpoint = ck\<rparr>]"
  have sorted: "sorted_wrt (<) (map cb_token_offset (sort_key cb_token_offset ?add))"
    if "find (\<lambda>cb. cb_token_offset cb = off) (node_checkpoints n) = None" "sorted_wrt (<) (map cb_token_offset (node_checkpoints n))"
    by (rule find_sorted_None [OF that]) simp
  have "(\<exists>cb \<in> set (node_checkpoints n). cb_token_offset cb = off \<and> n' = n \<and> adopted = cb_checkpoint cb)
    \<or> find (\<lambda>cb. cb_token_offset cb = off) (node_checkpoints n) = None \<and> adopted = ck
      \<and> n' = n\<lparr>node_checkpoints := sort_key cb_token_offset ?add\<rparr>"
    using assms by (auto simp: attach_checkpoint_def find_Some_iff split: option.splits)
  then show "node_parent n' = node_parent n" "edge_tokens n' = edge_tokens n" "node_children n' = node_children n"
    "node_pages n' = node_pages n" "pin_count n' = pin_count n" "insert_seq n' = insert_seq n"
    "0 < off \<Longrightarrow> off \<le> length (edge_tokens n) \<Longrightarrow> node_ok b n \<Longrightarrow> node_ok b n'"
    "set (node_checkpoints n) \<subseteq> set (node_checkpoints n')"
    "set (node_checkpoints n') \<subseteq> insert \<lparr>cb_token_offset = off, cb_checkpoint = ck\<rparr> (set (node_checkpoints n))"
    "\<lparr>cb_token_offset = off, cb_checkpoint = adopted\<rparr> \<in> set (node_checkpoints n')"
    using sorted by (auto simp: node_ok_def same)
qed

lemma radix_key:
  assumes "radix t K" "node_at t i = Some n"
  shows "K i = [] \<longleftrightarrow> i = tree_root t" "i \<noteq> tree_root t \<Longrightarrow> length (edge_tokens n) \<le> length (K i) \<and> edge_tokens n \<noteq> []"
proof -
  have "K i \<noteq> [] \<and> length (edge_tokens n) \<le> length (K i) \<and> edge_tokens n \<noteq> []" if "i \<noteq> tree_root t"
    using radix_mapD(4) [OF radixD(3) [OF assms(1)] assms(2) that] by (auto simp: has_parent_def node_ok_def)
  then show "K i = [] \<longleftrightarrow> i = tree_root t" "i \<noteq> tree_root t \<Longrightarrow> length (edge_tokens n) \<le> length (K i) \<and> edge_tokens n \<noteq> []"
    using radix_mapD(1) [OF radixD(3) [OF assms(1)]] by auto
qed

text \<open>Changing the marks of one node.\<close>

lemma change_grows:
  assumes R: "radix t K" and i: "node_at t i = Some n"
    and n': "node_parent n' = node_parent n" "edge_tokens n' = edge_tokens n" "node_children n' = node_children n"
      "node_pages n' = node_pages n" "pin_count n' = pin_count n" "\<And>b. i \<noteq> tree_root t \<Longrightarrow> node_ok b n \<Longrightarrow> node_ok b n'"
    and m: "marks_at (K i) n \<subseteq> marks_at (K i) n'"
  shows "grows t K (put_node t i n') K {#} 0 {} (if i = tree_root t then {} else marks_at (K i) n' - marks_at (K i) n)"
proof -
  let ?t = "put_node t i n'"
  have map: "map_of (tree_nodes ?t) = (map_of (tree_nodes t))(i \<mapsto> n')" by (simp add: update_conv')
  have "radix ?t K"
    using change_radix [OF radixD(3) [OF R] i n'(1-4,6)] radixD(1,2) [OF R] i unfolding radix_def map
    by (auto simp: distinct_update split: if_splits)
  moreover have "keeps t K ?t K" unfolding keeps_def map using i n'(4,5) by auto
  moreover have "tree_sum node_slots ?t = tree_sum node_slots t" by (rule tree_sum_put [OF i]) (simp add: node_slots_def n'(4))
  moreover have "tree_sum (\<lambda>_. 1 :: nat) ?t = tree_sum (\<lambda>_. 1) t" by (rule tree_sum_put [OF i]) simp
  moreover have "tree_pages ?t K = tree_pages t K"
    unfolding map using stored_drop [of "map_of (tree_nodes t)" i n pages_at "tree_root t" K] i
    by (simp add: stored_put pages_at_def n'(4))
  moreover have "tree_marks ?t K = tree_marks t K \<union> (if i = tree_root t then {} else marks_at (K i) n' - marks_at (K i) n)"
    unfolding map using stored_drop [of "map_of (tree_nodes t)" i n marks_at "tree_root t" K] i m
    by (auto simp: stored_put)
  ultimately show ?thesis by (simp add: grows_def)
qed

lemma attach_requested_grows:
  assumes R: "radix t K" and n: "node_at t nid = Some n" "K nid = tokens"
    and a: "attach_requested t nid ck missing = (t', res)"
  shows "\<exists>id Q. res = Ok id \<and> grows t K t' K {#} 0 {} Q \<and> Q \<subseteq> requested_mark tokens ck
    \<and> (if requested_id ck = CHECKPOINT_NONE then id = CHECKPOINT_NONE else tokens \<noteq> [] \<longrightarrow> (tokens, id) \<in> tree_marks t' K)"
proof (cases "requested_id ck = CHECKPOINT_NONE")
  case True
  then show ?thesis using a grows_refl [OF R] by (auto simp: attach_requested_def)
next
  case False
  let ?off = "if nid = tree_root t then 0 else length (edge_tokens n)"
  obtain n' id where at: "attach_checkpoint n ?off (requested_id ck) = (n', id)" by fastforce
  note nd = attach_checkpoint_node [OF at]
  have t': "t' = put_node t nid n'" "res = Ok id" using a n(1) at False by (auto simp: attach_requested_def)
  note key = radix_key [OF R n(1)]
  have mark: "mark_at (K nid) n' = mark_at (K nid) n" by (simp add: mark_at_def nd(2) fun_eq_iff)
  have full: "mark_at (K nid) n \<lparr>cb_token_offset = ?off, cb_checkpoint = c\<rparr> = (tokens, c)" if "nid \<noteq> tree_root t" for c
    using key that n(2) by (simp add: mark_at_def)
  have sub: "marks_at (K nid) n \<subseteq> marks_at (K nid) n'" unfolding marks_at_def mark using nd(8) by (rule image_mono)
  have G: "grows t K t' K {#} 0 {} (if nid = tree_root t then {} else marks_at (K nid) n' - marks_at (K nid) n)"
    unfolding t' by (rule change_grows [OF R n(1) nd(1-5) nd(7) sub]) (use key in auto)
  have "(tokens, id) \<in> marks_at (K nid) n'" if "nid \<noteq> tree_root t"
    unfolding marks_at_def mark using nd(10) full [OF that, of id] by (metis image_eqI)
  then have "(tokens, id) \<in> tree_marks t' K" if "nid \<noteq> tree_root t"
    using that unfolding t' by (simp add: update_conv' stored_put)
  moreover have "marks_at (K nid) n' - marks_at (K nid) n \<subseteq> requested_mark tokens ck" if "nid \<noteq> tree_root t"
    using nd(9) full [OF that, of "requested_id ck"] False unfolding marks_at_def mark requested_mark_def by auto
  ultimately show ?thesis using G t'(2) False key(1) n(2) by auto
qed

section \<open>Outcomes\<close>

text \<open>The same nodes, whatever became of the counters.\<close>

definition same_nodes :: "domain_tree \<Rightarrow> domain_tree \<Rightarrow> bool" where
  "same_nodes t t' \<longleftrightarrow>
     map_of (tree_nodes t') = map_of (tree_nodes t) \<and> tree_root t' = tree_root t \<and> next_node_id t \<le> next_node_id t'
     \<and> distinct (map fst (tree_nodes t'))"

lemma same_nodes_radix: "same_nodes t t' \<Longrightarrow> radix t K \<Longrightarrow> radix t' K"
  unfolding same_nodes_def radix_def by (metis order_less_le_trans)

lemma same_nodes_sum: 
  assumes "same_nodes t t'" "radix t K"
  shows "tree_sum f t' = (tree_sum f t :: 'a :: comm_monoid_add)"
proof -
  have d: "distinct (map fst (tree_nodes t))" "distinct (map fst (tree_nodes t'))"
    using assms radixD(1) by (auto simp: same_nodes_def)
  have "set (tree_nodes t') = set (tree_nodes t)"
    using assms(1) map_of_inject_set [OF d] by (simp add: same_nodes_def)
  then have "mset (tree_nodes t') = mset (tree_nodes t)"
    using d by (simp add: set_eq_iff_mset_eq_distinct [symmetric] distinct_map)
  then show ?thesis unfolding tree_sum_def by (metis mset_map sum_mset_sum_list)
qed

definition refs_kept :: "page_pool \<Rightarrow> nat multiset \<Rightarrow> (nat \<Rightarrow> nat) \<Rightarrow> nat multiset \<Rightarrow> page_pool \<Rightarrow> page_pool \<Rightarrow> bool" where
  "refs_kept p0 M others S pool pool' \<longleftrightarrow>
     owns p0 M others S pool' \<and> ages pool pool' \<and> (\<forall>h. handle_ok pool h \<longrightarrow> ph_phys h \<in># S \<longrightarrow> handle_ok pool' h)"

lemma refs_kept_refl: "owns p0 M others S pool \<Longrightarrow> refs_kept p0 M others S pool pool"
  by (simp add: refs_kept_def)

text \<open>\<open>inserted\<close>: the tree has grown by the pages \<open>P\<close> of the key, which took the references \<open>X\<close>, and by \<open>d\<close> nodes; the
  checkpoint \<open>cid\<close> is at the end of the key when one was asked for.\<close>

definition inserted ::
  "page_pool \<Rightarrow> nat multiset \<Rightarrow> (nat \<Rightarrow> nat) \<Rightarrow> nat multiset \<Rightarrow> domain_tree \<Rightarrow> (nat \<Rightarrow> token list) \<Rightarrow> token list \<Rightarrow> handle list
    \<Rightarrow> checkpoint_id option \<Rightarrow> page_pool \<Rightarrow> nat \<Rightarrow> nat \<Rightarrow> domain_tree \<Rightarrow> page_pool \<Rightarrow> nat \<Rightarrow> nat \<Rightarrow> checkpoint_id \<Rightarrow> bool" where
  "inserted p0 M others S t K tokens handles ck pool maxn tot t' pool' d a cid \<longleftrightarrow>
     (\<exists>K' X P Q. grows t K t' K' X d P Q \<and> P \<subseteq> published 0 tokens handles \<and> Q \<subseteq> requested_mark tokens ck
        \<and> refs_grow p0 M others (S + X) pool pool' P \<and> a = size X \<and> (d = 0 \<or> tot + d \<le> maxn)
        \<and> (if requested_id ck = CHECKPOINT_NONE then cid = CHECKPOINT_NONE else tokens \<noteq> [] \<longrightarrow> (tokens, cid) \<in> tree_marks t' K')
        \<and> (\<exists>e. node_at t' e \<noteq> None \<and> K' e = tokens))"

definition insert_outcome ::
  "page_pool \<Rightarrow> nat multiset \<Rightarrow> (nat \<Rightarrow> nat) \<Rightarrow> nat multiset \<Rightarrow> domain_tree \<Rightarrow> (nat \<Rightarrow> token list) \<Rightarrow> token list \<Rightarrow> handle list
    \<Rightarrow> checkpoint_id option \<Rightarrow> page_pool \<Rightarrow> nat \<Rightarrow> nat \<Rightarrow> domain_tree \<times> page_pool \<times> (insert_error + nat \<times> nat \<times> checkpoint_id) \<Rightarrow> bool" where
  "insert_outcome p0 M others S t K tokens handles ck pool maxn tot out \<longleftrightarrow>
     (case out of
        (t', pool', Inl e) \<Rightarrow> e \<noteq> IndexPanics \<and> same_nodes t t' \<and> refs_kept p0 M others S pool pool'
      | (t', pool', Inr (d, a, cid)) \<Rightarrow> inserted p0 M others S t K tokens handles ck pool maxn tot t' pool' d a cid)"

section \<open>The chain below a node\<close>

lemma published_from: "published (qp div PAGE_TOKENS) key (handles_from qp hs) \<subseteq> published 0 key hs"
proof
  fix x assume "x \<in> published (qp div PAGE_TOKENS) key (handles_from qp hs)"
  then obtain j where j: "x = (take ((qp div PAGE_TOKENS + j + 1) * PAGE_TOKENS) key, h_handle (handles_from qp hs ! j))"
    "j < length (handles_from qp hs)" "(qp div PAGE_TOKENS + j + 1) * PAGE_TOKENS \<le> length key"
    unfolding published_def by blast
  then have "x = (take ((0 + (qp div PAGE_TOKENS + j) + 1) * PAGE_TOKENS) key, h_handle (hs ! (qp div PAGE_TOKENS + j)))"
    "qp div PAGE_TOKENS + j < length hs" by (auto simp: min_def split: if_splits)
  then show "x \<in> published 0 key hs" using j(3) unfolding published_def by force
qed

lemma handles_enough:
  assumes "qp \<le> length tokens" "length tokens div PAGE_TOKENS \<le> length hs"
  shows "(qp mod PAGE_TOKENS + length (drop qp tokens)) div PAGE_TOKENS \<le> length (handles_from qp hs)"
proof -
  have "length tokens = qp mod PAGE_TOKENS + length (drop qp tokens) + qp div PAGE_TOKENS * PAGE_TOKENS"
    using assms(1) div_mult_mod_eq [of qp PAGE_TOKENS] unfolding length_drop by linarith
  then have "length tokens div PAGE_TOKENS = qp div PAGE_TOKENS + (qp mod PAGE_TOKENS + length (drop qp tokens)) div PAGE_TOKENS"
    by (metis div_mult_self1 PAGE_TOKENS_nonzero(2))
  then show ?thesis using assms(2) by auto
qed

lemma create_chain_outcome:
  assumes R: "radix t K" and p: "node_at t cp = Some pn" "K cp = take qp tokens" "child_of pn (tokens ! qp) = None"
    and q: "qp < length tokens" "length tokens div PAGE_TOKENS \<le> length handles"
    and o: "owns p0 M others S pool" "\<forall>h \<in> set handles. usable pool (h_handle h)"
    and c: "create_chain t cp (drop qp tokens) (handles_from qp handles) (qp mod PAGE_TOKENS) ck pool maxn tot = (t', pool', r)"
  shows "case r of Inl e \<Rightarrow> e \<noteq> IndexPanics \<and> same_nodes t t' \<and> refs_kept p0 M others S pool pool'
    | Inr (d, a) \<Rightarrow> inserted p0 M others S t K tokens handles ck pool maxn tot t' pool' d a (requested_id ck)"
proof -
  have len: "length (K cp) = qp" using p(2) q(1) by simp
  have key: "K cp @ drop qp tokens = tokens" by (simp add: p(2))
  have leaf: "child_of pn (hd (drop qp tokens)) = None" using p(3) q(1) by (simp add: hd_drop_conv_nth)
  have ne: "drop qp tokens \<noteq> []" using q(1) by simp
  have sk: "qp mod PAGE_TOKENS = length (K cp) mod PAGE_TOKENS" by (simp add: len)
  have en: "(qp mod PAGE_TOKENS + length (drop qp tokens)) div PAGE_TOKENS \<le> length (handles_from qp handles)"
    by (rule handles_enough) (use q in auto)
  show ?thesis
  proof (cases r)
    case (Inl e)
    have "owns p0 M others (S + created_refs []) pool" using o(1) by (simp add: created_refs_def)
    note ref = chain_loop_refused [OF c [unfolded create_chain_def Inl] R p(1) leaf sk en this]
    show ?thesis
      using ref p(1) Inl by (auto simp: undo_def same_nodes_def refs_kept_def fun_eq_iff)
  next
    case (Inr da)
    obtain d a where da: "da = (d, a)" by fastforce
    have us: "\<forall>h \<in> set (handles_from qp handles). usable pool (h_handle h)" using o(2) by (auto dest: in_set_dropD)
    have pre: "drop qp tokens \<noteq> [] \<Longrightarrow> qp mod PAGE_TOKENS = length (K cp) mod PAGE_TOKENS
        \<and> (qp mod PAGE_TOKENS + length (drop qp tokens)) div PAGE_TOKENS \<le> length (handles_from qp handles)" using sk en by simp
    obtain K' X n P where X: "grows t K t' K' X n P (requested_mark tokens ck)" "P \<subseteq> published (qp div PAGE_TOKENS) tokens (handles_from qp handles)"
      "refs_grow p0 M others (S + X) pool pool' P" "d = n" "a = size X" "n = 0 \<or> tot + n \<le> maxn" "\<exists>e. node_at t' e \<noteq> None \<and> K' e = tokens"
      using chain_loop_completed [OF c [unfolded create_chain_def Inr da] R p(1) leaf pre o(1) us] unfolding key len if_not_P [OF ne] list.size(3) add_0 by blast
    have "(tokens, requested_id ck) \<in> tree_marks t' K'" if "requested_id ck \<noteq> CHECKPOINT_NONE"
      using X(1) that by (auto simp: grows_def requested_mark_def)
    then show ?thesis
      using X order_trans [OF X(2) published_from] unfolding Inr da inserted_def sum.case prod.case
      by (intro exI [of _ K'] exI [of _ X] exI [of _ P] exI [of _ "requested_mark tokens ck"]) auto
  qed
qed

section \<open>Undoing a split\<close>

lemma update_same: "map_of xs k = Some v \<Longrightarrow> AList.update k v xs = xs"
  by (induction xs) (auto split: if_splits)

lemma update_update: "AList.update k v (AList.update k w xs) = AList.update k v xs"
  by (induction xs) auto

lemma unsplit_same_nodes:
  assumes R: "radix t K" and p: "node_at t p = Some pn" "child_of pn tok = Some c" and c: "node_at t c = Some cn"
    and k: "0 < k" "k < length (edge_tokens cn)" and s: "same_nodes (split_tree t p pn c cn k) t'"
  shows "same_nodes t (unsplit_edge t' p (next_node_id t) c)"
proof -
  let ?s = "next_node_id t" and ?e = "edge_tokens cn"
  obtain m where m: "node_at t c = Some m" "node_ok (length (K p)) m" "hd (edge_tokens m) = tok" "node_parent m = Some p"
    by (rule radix_child [OF radixD(3) [OF R] p])
  then have cn: "node_ok (length (K p)) cn" "hd ?e = tok" "node_parent cn = Some p" using c by auto
  have ne: "p \<noteq> c" "?s \<noteq> p" "?s \<noteq> c" "node_at t ?s = None"
    using radix_not_self_child [OF radixD(3) [OF R] p] radixD(2) [OF R p(1)] radixD(2) [OF R c] radix_fresh [OF R] by auto
  have map: "map_of (tree_nodes t') = (map_of (tree_nodes t))(?s \<mapsto> split_marker cn p c k 0, c \<mapsto> split_rest cn ?s k 0, p \<mapsto> add_child (hd ?e) ?s pn)"
    and fr: "tree_root t' = tree_root t" "?s + 1 \<le> next_node_id t'" "distinct (map fst (tree_nodes t'))"
    using s unfolding same_nodes_def split_tree_map by (auto simp: split_tree_def Let_def)
  obtain rest where edge: "edge_tokens (split_marker cn p c k 0) = hd ?e # rest"
    using k by (cases ?e; cases k) (auto simp: split_marker_def node_new_def)
  have restored: "add_child (hd ?e) c (add_child (hd ?e) ?s pn) = pn"
    using p(2) cn(2) by (simp add: update_same update_update)
  let ?u = "put_node (drop_node t' ?s) c cn"
  have eq: "unsplit_edge t' p ?s c = modify_node p (add_child (hd ?e) c) ?u"
    using ne joined_split [OF cn(1) k(2) cn(3)]
    by (simp add: unsplit_edge_def map Let_def delete_conv' edge)
  have "map_of (tree_nodes (unsplit_edge t' p ?s c)) = map_of (tree_nodes t)"
    unfolding eq modify_node_map using ne p(1) c restored by (auto simp: update_conv' delete_conv' map fun_eq_iff)
  then show ?thesis
    unfolding same_nodes_def eq modify_node_frame using fr by (auto intro!: modify_node_frame(3) distinct_update distinct_delete)
qed

section \<open>The descent\<close>

text \<open>One step down from a node whose string is a prefix of the key.\<close>

lemma descend:
  assumes R: "radix t K" and n: "node_at t cur = Some n" "K cur = take qp tokens" "qp < length tokens"
    and c: "child_of n (tokens ! qp) = Some c" "node_at t c = Some cn"
  defines "m \<equiv> edge_match (edge_tokens cn) (drop qp tokens)"
  shows "0 < m" "m \<le> length (edge_tokens cn)" "qp + m \<le> length tokens" "K cur @ take m (edge_tokens cn) = take (qp + m) tokens"
    "m = length (edge_tokens cn) \<Longrightarrow> K c = take (qp + m) tokens"
    "m < length (edge_tokens cn) \<Longrightarrow> qp + m < length tokens \<Longrightarrow> edge_tokens cn ! m \<noteq> tokens ! (qp + m)"
proof -
  obtain x where x: "node_at t c = Some x" "hd (edge_tokens x) = tokens ! qp" "K c = K cur @ edge_tokens x" "edge_tokens x \<noteq> []"
    by (rule radix_child [OF radixD(3) [OF R] n(1) c(1)])
  then have cn: "hd (edge_tokens cn) = tokens ! qp" "K c = K cur @ edge_tokens cn" "edge_tokens cn \<noteq> []" using c(2) by auto
  let ?e = "edge_tokens cn" and ?d = "drop qp tokens"
  have "take 1 ?e = take 1 ?d"
    using cn n(3) by (cases ?e) (auto simp: Cons_nth_drop_Suc [symmetric])
  then have "1 \<le> m" unfolding m_def edge_match_def using cn(3) n(3) by (intro common_len_max) (auto simp: Suc_le_eq)
  then show "0 < m" by simp
  show le: "m \<le> length ?e" "qp + m \<le> length tokens"
    using common_len_le [of ?e ?d] n(3) by (auto simp: m_def edge_match_def)
  show key: "K cur @ take m ?e = take (qp + m) tokens"
    using common_len_take [of ?e ?d] by (simp add: m_def edge_match_def n(2) take_add)
  show "K c = take (qp + m) tokens" if "m = length ?e" using key cn(2) that by simp
  show "?e ! m \<noteq> tokens ! (qp + m)" if "m < length ?e" "qp + m < length tokens"
    using common_len_differ [of ?e ?d] that by (simp add: m_def edge_match_def)
qed

lemma inserted_after_split:
  assumes G: "grows t K t1 K1 {#} 1 {} {}" and m: "tot + 1 \<le> maxn"
    and i: "inserted p0 M others S t1 K1 tokens handles ck pool maxn (tot + 1) t' pool' d a cid"
  shows "inserted p0 M others S t K tokens handles ck pool maxn tot t' pool' (1 + d) a cid"
proof -
  obtain K' X P Q where X: "grows t1 K1 t' K' X d P Q" "P \<subseteq> published 0 tokens handles" "Q \<subseteq> requested_mark tokens ck"
    "refs_grow p0 M others (S + X) pool pool' P" "a = size X" "d = 0 \<or> tot + 1 + d \<le> maxn"
    "if requested_id ck = CHECKPOINT_NONE then cid = CHECKPOINT_NONE else tokens \<noteq> [] \<longrightarrow> (tokens, cid) \<in> tree_marks t' K'"
    "\<exists>e. node_at t' e \<noteq> None \<and> K' e = tokens"
    using i unfolding inserted_def by blast
  then show ?thesis
    using grows_trans [OF G X(1)] m unfolding inserted_def
    by (intro exI [of _ K'] exI [of _ X] exI [of _ P] exI [of _ Q]) auto
qed

lemma attach_inserted:
  assumes R: "radix t K" and n: "node_at t nid = Some n" "K nid = tokens" and o: "owns p0 M others S pool"
    and a: "attach_requested t nid ck missing = (t', res)"
  shows "\<exists>cid. res = Ok cid \<and> inserted p0 M others S t K tokens handles ck pool maxn tot t' pool 0 0 cid"
proof -
  obtain cid Q where Q: "res = Ok cid" "grows t K t' K {#} 0 {} Q" "Q \<subseteq> requested_mark tokens ck"
    "if requested_id ck = CHECKPOINT_NONE then cid = CHECKPOINT_NONE else tokens \<noteq> [] \<longrightarrow> (tokens, cid) \<in> tree_marks t' K"
    using attach_requested_grows [OF R n a] by blast
  moreover have "node_at t' nid \<noteq> None" using Q(2) n(1) by (fastforce simp: grows_def keeps_def)
  moreover have "refs_grow p0 M others (S + {#}) pool pool {}" using o by (simp add: refs_grow_def)
  ultimately have "inserted p0 M others S t K tokens handles ck pool maxn tot t' pool 0 0 cid"
    unfolding inserted_def using n(2) by (intro exI [of _ K] exI [of _ "{#}"] exI [of _ "{}"] exI [of _ Q]) auto
  then show ?thesis using Q(1) by blast
qed

text \<open>The branch of the descent that splits an edge.\<close>

lemma split_branch:
  assumes R: "radix t K" and n: "node_at t cur = Some n" "K cur = take qp tokens" "qp < length tokens"
    and c: "child_of n (tokens ! qp) = Some c" "node_at t c = Some cn"
    and m: "m = edge_match (edge_tokens cn) (drop qp tokens)" "m < length (edge_tokens cn)" and t: "tot + 1 \<le> maxn"
    and h: "length tokens div PAGE_TOKENS \<le> length handles"
    and o: "owns p0 M others S pool" "\<forall>h \<in> set handles. usable pool (h_handle h)"
  defines "t1 \<equiv> split_tree t cur n c cn m" and "s \<equiv> next_node_id t"
  shows "Option.bind (node_at t1 cur) (\<lambda>p. child_of p (tokens ! qp)) = Some s"
    "length tokens \<le> qp + m \<Longrightarrow> attach_requested t1 s ck IndexPanics = (t2, r) \<Longrightarrow>
      \<exists>cid. r = Ok cid \<and> inserted p0 M others S t K tokens handles ck pool maxn tot t2 pool 1 0 cid"
    "qp + m < length tokens \<Longrightarrow>
      create_chain t1 s (drop (qp + m) tokens) (handles_from (qp + m) handles) ((qp + m) mod PAGE_TOKENS) ck pool maxn (tot + 1) = (t3, pool3, r3) \<Longrightarrow>
      (case r3 of Inl e \<Rightarrow> e \<noteq> IndexPanics \<and> same_nodes t (unsplit_edge t3 cur s c) \<and> refs_kept p0 M others S pool pool3
       | Inr (d, a) \<Rightarrow> inserted p0 M others S t K tokens handles ck pool maxn tot t3 pool3 (1 + d) a (requested_id ck))"
proof -
  note de = descend [OF R n c, folded m(1)]
  let ?K = "K(s := K cur @ take m (edge_tokens cn))"
  note g = split_tree_grows [OF R n(1) c de(1) m(2), folded t1_def s_def]
  have hd: "hd (edge_tokens cn) = tokens ! qp"
    using radix_mapD(3) [OF radixD(3) [OF R] n(1) c(1)] c(2) by (simp add: is_child_def)
  have R1: "radix t1 ?K" using g by (simp add: grows_def)
  have ne: "s \<noteq> cur" "s \<noteq> c" "cur \<noteq> c"
    using radixD(2) [OF R n(1)] radixD(2) [OF R c(2)] radix_not_self_child [OF radixD(3) [OF R] n(1) c(1)] by (auto simp: s_def)
  show "Option.bind (node_at t1 cur) (\<lambda>p. child_of p (tokens ! qp)) = Some s"
    using hd by (simp add: t1_def split_tree_map s_def update_conv')
  have mk: "node_at t1 s = Some (split_marker cn cur c m 0)" using ne by (simp add: t1_def split_tree_map s_def)
  have key: "?K s = take (qp + m) tokens" using de(4) by simp
  show "\<exists>cid. r = Ok cid \<and> inserted p0 M others S t K tokens handles ck pool maxn tot t2 pool 1 0 cid"
    if "length tokens \<le> qp + m" "attach_requested t1 s ck IndexPanics = (t2, r)"
  proof -
    have "?K s = tokens" using key that(1) by simp
    then show ?thesis using attach_inserted [OF R1 mk _ o(1) that(2)] inserted_after_split [OF g t] by fastforce
  qed
  show "case r3 of Inl e \<Rightarrow> e \<noteq> IndexPanics \<and> same_nodes t (unsplit_edge t3 cur s c) \<and> refs_kept p0 M others S pool pool3
       | Inr (d, a) \<Rightarrow> inserted p0 M others S t K tokens handles ck pool maxn tot t3 pool3 (1 + d) a (requested_id ck)"
    if "qp + m < length tokens"
      "create_chain t1 s (drop (qp + m) tokens) (handles_from (qp + m) handles) ((qp + m) mod PAGE_TOKENS) ck pool maxn (tot + 1) = (t3, pool3, r3)"
  proof -
    have "child_of (split_marker cn cur c m 0) (tokens ! (qp + m)) = None"
      using de(6) [OF m(2) that(1)] by (simp add: split_marker_def)
    note cc = create_chain_outcome [OF R1 mk key this that(1) h o that(2)]
    show ?thesis
    proof (cases r3)
      case (Inl e)
      then show ?thesis using cc unsplit_same_nodes [OF R n(1) c de(1) m(2), of t3] by (simp add: t1_def s_def)
    next
      case (Inr da)
      then show ?thesis using cc inserted_after_split [OF g t] by (cases da) auto
    qed
  qed
qed

lemma insert_loop_outcome:
  assumes "radix t K" "node_at t cur = Some n" "K cur = take qp tokens" "qp \<le> length tokens" "length tokens < fuel + qp"
    and h: "length tokens div PAGE_TOKENS \<le> length handles"
    and o: "owns p0 M others S pool" "\<forall>h \<in> set handles. usable pool (h_handle h)"
  shows "insert_outcome p0 M others S t K tokens handles ck pool maxn tot (insert_loop fuel t tokens handles ck pool maxn tot cur qp)"
  using assms(1-5)
proof (induction fuel arbitrary: cur qp n)
  case (Suc fuel)
  note R = Suc.prems(1) and n = Suc.prems(2,3)
  have kept: "same_nodes t t" "refs_kept p0 M others S pool pool"
    using radixD(1) [OF R] refs_kept_refl [OF o(1)] by (simp_all add: same_nodes_def)
  show ?case
  proof (cases "qp < length tokens")
    case False
    then have key: "K cur = tokens" "qp = length tokens" using n(2) Suc.prems(4) by auto
    obtain t2 r where a: "attach_requested t cur ck (InvalidHandle NodeMissing) = (t2, r)" by fastforce
    show ?thesis
      using attach_inserted [OF R n(1) key(1) o(1) a, of handles maxn tot] False a by (auto simp: insert_outcome_def)
  next
    case q: True
    show ?thesis
    proof (cases "child_of n (tokens ! qp)")
      case None
      obtain t2 p2 r where c: "create_chain t cur (drop qp tokens) (handles_from qp handles) (qp mod PAGE_TOKENS) ck pool maxn tot = (t2, p2, r)"
        by (metis surj_pair)
      show ?thesis
        using create_chain_outcome [OF R n None q h o c] q n(1) None c by (auto simp: insert_outcome_def split: sum.splits)
    next
      case (Some c)
      obtain cn where cn: "node_at t c = Some cn" by (rule radix_child [OF radixD(3) [OF R] n(1) Some])
      let ?m = "edge_match (edge_tokens cn) (drop qp tokens)"
      note de = descend [OF R n q Some cn]
      show ?thesis
      proof (cases "?m = length (edge_tokens cn)")
        case True
        have "insert_outcome p0 M others S t K tokens handles ck pool maxn tot (insert_loop fuel t tokens handles ck pool maxn tot c (qp + ?m))"
          by (rule Suc.IH [OF R cn de(5) [OF True] de(3)]) (use de(1) Suc.prems(5) in simp)
        then show ?thesis using q n(1) Some cn True by (simp add: Let_def)
      next
        case False
        then have m: "?m < length (edge_tokens cn)" using de(2) by simp
        note sp = split_edge_eq [OF R n(1) Some cn m, of maxn tot]
        show ?thesis
        proof (cases "tot + 1 \<le> maxn")
          case True
          note br = split_branch [OF R n q Some cn refl m True h o]
          let ?t1 = "split_tree t cur n c cn ?m" and ?s = "next_node_id t"
          obtain t2 r2 where a: "attach_requested ?t1 ?s ck IndexPanics = (t2, r2)" by fastforce
          obtain t3 p3 r3 where cc: "create_chain ?t1 ?s (drop (qp + ?m) tokens) (handles_from (qp + ?m) handles) ((qp + ?m) mod PAGE_TOKENS) ck pool maxn (tot + 1) = (t3, p3, r3)"
            by (metis surj_pair)
          show ?thesis
          proof (cases "length tokens \<le> qp + ?m")
            case True
            then show ?thesis using br(1) br(2) [OF True a] q n(1) Some cn m sp \<open>tot + 1 \<le> maxn\<close> a by (auto simp: Let_def insert_outcome_def)
          next
            case False
            then show ?thesis
              using br(1) br(3) [OF _ cc] q n(1) Some cn m sp \<open>tot + 1 \<le> maxn\<close> cc
              by (auto simp: Let_def insert_outcome_def split: sum.splits)
          qed
        next
          case False
          then show ?thesis using q n(1) Some cn m sp kept by (simp add: Let_def insert_outcome_def)
        qed
      qed
    qed
  qed
qed simp

lemma insert_into_tree_outcome:
  assumes "radix t K" "length tokens div PAGE_TOKENS \<le> length handles"
    and "owns p0 M others S pool" "\<forall>h \<in> set handles. usable pool (h_handle h)"
  shows "insert_outcome p0 M others S t K tokens handles ck pool maxn tot (insert_into_tree t tokens handles ck pool maxn tot)"
proof -
  obtain n where n: "node_at t (tree_root t) = Some n" "K (tree_root t) = []"
    using radix_mapD(1,2) [OF radixD(3) [OF assms(1)]] by blast
  show ?thesis
    unfolding insert_into_tree_def by (rule insert_loop_outcome [OF assms(1) n(1) _ _ _ assms(2-4)]) (simp_all add: n(2) tree_fuel_def)
qed

end
