(* ===== verification/Prefix_Books.thy ===== *)
theory Prefix_Books
  imports Prefix_Index Prefix_Insert
begin

text \<open>
  The books of the prefix index. Every operation moves its trees: nodes, pages and checkpoints come and go, the
  nodes that a ticket pins stay. The invariant says that the index holds one cache reference per stored
  handle, that its counters are the sums over its trees, that what it stores was published, and that the tickets in
  flight are counted on the nodes they pin.
\<close>

section \<open>Moves of one tree\<close>

definition pins_survive :: "domain_tree \<Rightarrow> domain_tree \<Rightarrow> bool" where
  "pins_survive t t' \<longleftrightarrow>
     (\<forall>i n. node_at t i = Some n \<longrightarrow> 0 < pin_count n
        \<longrightarrow> (\<exists>n'. node_at t' i = Some n' \<and> pin_count n' = pin_count n \<and> node_pages n' = node_pages n))"

text \<open>References \<open>A\<close>, \<open>n\<close> nodes, pages \<open>P\<close> and marks \<open>Q\<close> may come; references \<open>B\<close> and \<open>m\<close> nodes go.\<close>

definition moves ::
  "domain_tree \<Rightarrow> (nat \<Rightarrow> token list) \<Rightarrow> domain_tree \<Rightarrow> (nat \<Rightarrow> token list) \<Rightarrow> nat multiset \<Rightarrow> nat multiset \<Rightarrow> nat \<Rightarrow> nat
    \<Rightarrow> (token list \<times> page_handle) set \<Rightarrow> (token list \<times> checkpoint_id) set \<Rightarrow> bool" where
  "moves t K t' K' A B n m P Q \<longleftrightarrow>
     radix t' K' \<and> pins_survive t t' \<and> tree_sum node_slots t' + B = tree_sum node_slots t + A
     \<and> tree_sum (\<lambda>_. 1 :: nat) t' + m = tree_sum (\<lambda>_. 1) t + n
     \<and> tree_pages t' K' \<subseteq> tree_pages t K \<union> P \<and> tree_marks t' K' \<subseteq> tree_marks t K \<union> Q"

lemma pins_survive_trans: "pins_survive t t1 \<Longrightarrow> pins_survive t1 t2 \<Longrightarrow> pins_survive t t2"
  unfolding pins_survive_def by metis

lemma moves_refl: "radix t K \<Longrightarrow> moves t K t K {#} {#} 0 0 {} {}"
  by (simp add: moves_def pins_survive_def)

lemma moves_trans:
  assumes "moves t K t1 K1 A1 B1 n1 m1 P1 Q1" "moves t1 K1 t2 K2 A2 B2 n2 m2 P2 Q2"
  shows "moves t K t2 K2 (A1 + A2) (B1 + B2) (n1 + n2) (m1 + m2) (P1 \<union> P2) (Q1 \<union> Q2)"
proof -
  let ?s = "tree_sum node_slots" and ?c = "tree_sum (\<lambda>_. 1 :: nat)"
  have "?s t2 + (B1 + B2) = (?s t2 + B2) + B1" by (simp add: ac_simps)
  also have "\<dots> = (?s t1 + B1) + A2" using assms(2) by (simp add: moves_def ac_simps)
  also have "\<dots> = ?s t + (A1 + A2)" using assms(1) by (simp add: moves_def ac_simps)
  finally have "?s t2 + (B1 + B2) = ?s t + (A1 + A2)" .
  moreover have "?c t2 + (m1 + m2) = ?c t + (n1 + n2)" using assms unfolding moves_def by linarith
  ultimately show ?thesis
    using assms pins_survive_trans [of t t1 t2] unfolding moves_def by blast
qed

lemma grows_moves: "grows t K t' K' X n P Q \<Longrightarrow> moves t K t' K' X {#} n 0 P Q"
  unfolding grows_def moves_def keeps_def pins_survive_def by auto

lemma same_nodes_moves: "radix t K \<Longrightarrow> same_nodes t t' \<Longrightarrow> moves t K t' K {#} {#} 0 0 {} {}"
  using same_nodes_radix [of t t' K] same_nodes_sum [of t t' K node_slots] same_nodes_sum [of t t' K "\<lambda>_. 1 :: nat"]
  by (auto simp: moves_def pins_survive_def same_nodes_def)

lemma stored_mono:
  assumes "link_free f" "\<And>i n'. N' i = Some n' \<Longrightarrow> \<exists>n ch. N i = Some n \<and> n' = n\<lparr>node_children := ch\<rparr>"
  shows "stored f N' r K \<subseteq> stored f N r K"
proof
  fix x assume "x \<in> stored f N' r K"
  then obtain i n' where i: "N' i = Some n'" "i \<noteq> r" "x \<in> f (K i) n'" by (auto simp: stored_mem)
  obtain n ch where "N i = Some n" "n' = n\<lparr>node_children := ch\<rparr>" using assms(2) [OF i(1)] by blast
  then show "x \<in> stored f N r K" using i assms(1) by (auto simp: stored_mem link_free_def)
qed

lemma radix_parent:
  assumes "radix t K" "node_at t c = Some cn" "c \<noteq> tree_root t"
  obtains p pn where "node_parent cn = Some p" "node_at t p = Some pn" "edge_tokens cn \<noteq> []" "p \<noteq> c"
proof -
  obtain p pn where p: "node_parent cn = Some p" "node_at t p = Some pn" "child_of pn (hd (edge_tokens cn)) = Some c"
    "node_ok (length (K p)) cn"
    using radix_mapD(4) [OF radixD(3) [OF assms(1)] assms(2,3)] unfolding has_parent_def by blast
  then show thesis
    using that [OF p(1,2)] radix_not_self_child [OF radixD(3) [OF assms(1)] p(2,3)] by (auto simp: node_ok_def)
qed

lemma same_children: "\<exists>ch. (n :: radix_node) = n\<lparr>node_children := ch\<rparr>"
  by (rule exI [of _ "node_children n"]) simp

lemma remove_moves:
  assumes R: "radix t K" and c: "node_at t c = Some cn" "c \<noteq> tree_root t" "node_children cn = []" "pin_count cn = 0"
  shows "moves t K (drop_node (unlink (node_parent cn) (edge_tokens cn) t) c) K {#} (node_slots cn) 0 1 {} {}"
proof -
  obtain p pn where p: "node_parent cn = Some p" "node_at t p = Some pn" "edge_tokens cn \<noteq> []" "p \<noteq> c"
    by (rule radix_parent [OF R c(1,2)])
  let ?ft = "hd (edge_tokens cn)"
  let ?u = "put_node t p (remove_child ?ft pn)"
  have un: "unlink (node_parent cn) (edge_tokens cn) t = ?u"
    using p by (simp add: unlink_def modify_node_def split: list.split)
  let ?t = "drop_node ?u c"
  have map: "map_of (tree_nodes ?t) = (map_of (tree_nodes t))(p \<mapsto> remove_child ?ft pn, c := None)"
    by (simp add: update_conv' delete_conv')
  have link: "\<exists>m ch. node_at t i = Some m \<and> n' = m\<lparr>node_children := ch\<rparr>" if "node_at ?t i = Some n'" for i n'
    using that [unfolded map] p(2) by (cases "i = p") (auto simp: same_children split: if_splits)
  have "radix ?t K"
    using remove_radix [OF radixD(3) [OF R] c(1-3) p(1,2)] radixD(1,2) [OF R] p(2) unfolding radix_def map
    by (auto simp: distinct_update distinct_delete split: if_splits)
  moreover have "tree_sum f ?t + f cn = tree_sum f t" if "f (remove_child ?ft pn) = f pn" for f :: "_ \<Rightarrow> 'a :: cancel_comm_monoid_add"
  proof -
    have "tree_sum f ?t + f cn = tree_sum f ?u"
      by (rule tree_sum_drop) (use radixD(1) [OF R] c(1) p(4) in \<open>auto simp: distinct_update update_conv'\<close>)
    also have "\<dots> = tree_sum f t" by (rule tree_sum_put [OF p(2) that])
    finally show ?thesis .
  qed
  note sum = this
  have "tree_sum node_slots ?t + node_slots cn = tree_sum node_slots t" by (rule sum) (simp add: node_slots_def)
  moreover have "tree_sum (\<lambda>_. 1 :: nat) ?t + 1 = tree_sum (\<lambda>_. 1) t" by (rule sum) simp
  moreover have "pins_survive t ?t" unfolding pins_survive_def map using c(1,4) p(2) by auto
  ultimately show ?thesis
    using stored_mono [of pages_at "map_of (tree_nodes ?t)" "map_of (tree_nodes t)", OF link_free_at(1) link, of "tree_root t" K]
      stored_mono [of marks_at "map_of (tree_nodes ?t)" "map_of (tree_nodes t)", OF link_free_at(2) link, of "tree_root t" K]
    unfolding moves_def un by simp
qed

lemma prune_moves: "radix t K \<Longrightarrow> prune_loop t i = (t', n) \<Longrightarrow> moves t K t' K {#} {#} 0 n {} {}"
proof (induction t i arbitrary: t' n rule: prune_loop.induct)
  case (1 t i)
  note e = "1.prems"(2) [unfolded prune_loop.simps [of t i]]
  show ?case
  proof (cases "i = tree_root t \<or> node_at t i = None")
    case True
    then show ?thesis using e moves_refl [OF "1.prems"(1)] by (auto split: if_splits)
  next
    case False
    then obtain m where m: "i \<noteq> tree_root t" "node_at t i = Some m" by auto
    show ?thesis
    proof (cases "node_children m = [] \<and> node_pages m = [] \<and> node_checkpoints m = [] \<and> pin_count m = 0")
      case stays: False
      then show ?thesis using e m moves_refl [OF "1.prems"(1)] by auto
    next
      case True
      let ?t = "drop_node (unlink (node_parent m) (edge_tokens m) t) i"
      have mv: "moves t K ?t K {#} {#} 0 1 {} {}"
        using remove_moves [OF "1.prems"(1) m(2,1)] True by (simp add: node_slots_def)
      obtain p where p: "node_parent m = Some p" using radix_parent [OF "1.prems"(1) m(2,1)] by blast
      obtain t2 k where r: "prune_loop ?t p = (t2, k)" by fastforce
      have "t' = t2" "n = k + 1" using e m True p r by (auto simp: Let_def)
      moreover have "moves ?t K t2 K {#} {#} 0 k {} {}"
        using "1.IH" [OF m(1,2) _ refl p _ r] True mv by (auto simp: moves_def)
      ultimately show ?thesis using moves_trans [OF mv] by fastforce
    qed
  qed
qed

text \<open>A node changed in its pins or its checkpoints only.\<close>

definition node_moved :: "radix_node \<Rightarrow> radix_node \<Rightarrow> bool" where
  "node_moved n n' \<longleftrightarrow>
     node_parent n' = node_parent n \<and> edge_tokens n' = edge_tokens n \<and> node_children n' = node_children n \<and> node_pages n' = node_pages n
     \<and> set (node_checkpoints n') \<subseteq> set (node_checkpoints n) \<and> (\<forall>b. node_ok b n \<longrightarrow> node_ok b n')"

lemma node_moved_refl: "node_moved n n"
  by (simp add: node_moved_def)

lemma node_moved_marks: "node_moved n n' \<Longrightarrow> marks_at key n' \<subseteq> marks_at key n"
  by (auto simp: node_moved_def marks_at_def mark_at_def)

text \<open>All but the pins of the nodes stays or shrinks.\<close>

definition fades :: "domain_tree \<Rightarrow> (nat \<Rightarrow> token list) \<Rightarrow> domain_tree \<Rightarrow> bool" where
  "fades t K t' \<longleftrightarrow>
     radix t' K \<and> tree_sum node_slots t' = tree_sum node_slots t \<and> tree_sum (\<lambda>_. 1 :: nat) t' = tree_sum (\<lambda>_. 1) t
     \<and> tree_pages t' K = tree_pages t K \<and> tree_marks t' K \<subseteq> tree_marks t K"

lemma modify_fades:
  assumes R: "radix t K" and f: "\<And>n. node_at t i = Some n \<Longrightarrow> node_moved n (f n)"
  shows "fades t K (modify_node i f t)"
proof (cases "node_at t i")
  case None
  then show ?thesis using R by (simp add: fades_def modify_node_def)
next
  case (Some n)
  let ?t = "put_node t i (f n)"
  have eq: "modify_node i f t = ?t" using Some by (simp add: modify_node_def)
  note mv = f [OF Some]
  have map: "map_of (tree_nodes ?t) = (map_of (tree_nodes t))(i \<mapsto> f n)" by (simp add: update_conv')
  have "radix ?t K"
    using change_radix [OF radixD(3) [OF R] Some, of "f n"] mv radixD(1,2) [OF R] Some unfolding radix_def map
    by (auto simp: distinct_update node_moved_def split: if_splits)
  moreover have "tree_sum node_slots ?t = tree_sum node_slots t"
    by (rule tree_sum_put [OF Some]) (use mv in \<open>simp add: node_slots_def node_moved_def\<close>)
  moreover have "tree_sum (\<lambda>_. 1 :: nat) ?t = tree_sum (\<lambda>_. 1) t" by (rule tree_sum_put [OF Some]) simp
  moreover have "tree_pages ?t K = tree_pages t K"
    unfolding map using stored_drop [of "map_of (tree_nodes t)" i n pages_at "tree_root t" K] Some mv
    by (simp add: stored_put pages_at_def node_moved_def)
  moreover have "tree_marks ?t K \<subseteq> tree_marks t K"
    unfolding map using stored_drop [of "map_of (tree_nodes t)" i n marks_at "tree_root t" K] Some node_moved_marks [OF mv, of "K i"]
    by (auto simp: stored_put)
  ultimately show ?thesis unfolding eq fades_def by simp
qed

lemma fades_moves: "fades t K t' \<Longrightarrow> pins_survive t t' \<Longrightarrow> moves t K t' K {#} {#} 0 0 {} {}"
  by (auto simp: fades_def moves_def)

lemma fades_trans: "fades t K t1 \<Longrightarrow> fades t1 K t2 \<Longrightarrow> fades t K t2"
  by (auto simp: fades_def)

lemma fold_fades:
  assumes "radix t K" "\<And>n. node_moved n (f n)"
  shows "fades t K (fold (\<lambda>i. modify_node i f) is t)"
  using assms(1)
proof (induction "is" arbitrary: t)
  case Nil
  then show ?case by (simp add: fades_def)
next
  case (Cons i "is")
  have m: "fades t K (modify_node i f t)" by (rule modify_fades [OF Cons.prems assms(2)])
  then have "radix (modify_node i f t) K" by (simp add: fades_def)
  then show ?case using Cons.IH m by (auto intro: fades_trans)
qed

section \<open>The invariant of the index\<close>

definition px_slots :: "prefix_index \<Rightarrow> nat multiset" where
  "px_slots ix = sum_list (map (\<lambda>(_, t). tree_sum node_slots t) (px_trees ix))"

definition px_count :: "prefix_index \<Rightarrow> nat" where
  "px_count ix = sum_list (map (\<lambda>(_, t). tree_sum (\<lambda>_. 1) t) (px_trees ix))"

text \<open>What was published in a domain, with the strings it was published for.\<close>

type_synonym page_log = "cache_domain \<Rightarrow> (token list \<times> page_handle) set"
type_synonym mark_log = "cache_domain \<Rightarrow> (token list \<times> checkpoint_id) set"

definition tree_ok :: "(token list \<times> page_handle) set \<Rightarrow> (token list \<times> checkpoint_id) set \<Rightarrow> page_pool \<Rightarrow> domain_tree \<Rightarrow> bool" where
  "tree_ok H C pool t \<longleftrightarrow>
     (\<exists>K. radix t K \<and> tree_pages t K \<subseteq> H \<and> tree_marks t K \<subseteq> C \<and> (\<forall>x \<in> tree_pages t K. handle_ok pool (snd x)))"

text \<open>The tickets in flight, each with the pages its lookup returned.\<close>

type_synonym tickets = "(cache_domain \<times> pin_ticket \<times> handle list) multiset"

definition pins :: "tickets \<Rightarrow> cache_domain \<Rightarrow> nat \<Rightarrow> nat" where
  "pins T d i = sum_mset (image_mset (\<lambda>(d', tk, _). if d' = d then count_list tk i else 0) T)"

definition ticket_ok :: "tickets \<Rightarrow> cache_domain \<Rightarrow> pin_ticket \<Rightarrow> handle list \<Rightarrow> domain_tree \<Rightarrow> bool" where
  "ticket_ok T d tk ps t \<longleftrightarrow>
     distinct tk \<and> (\<forall>i \<in> set tk. \<exists>n. node_at t i = Some n \<and> pins T d i \<le> pin_count n)
     \<and> (\<forall>h \<in> set ps. \<exists>i \<in> set tk. \<exists>n. node_at t i = Some n \<and> h_handle h \<in> set (node_pages n))"

definition pins_ok :: "tickets \<Rightarrow> prefix_index \<Rightarrow> bool" where
  "pins_ok T ix \<longleftrightarrow> (\<forall>(d, tk, ps) \<in># T. \<exists>t. map_of (px_trees ix) d = Some t \<and> ticket_ok T d tk ps t)"

definition px_ok ::
  "page_pool \<Rightarrow> nat multiset \<Rightarrow> (nat \<Rightarrow> nat) \<Rightarrow> page_log \<Rightarrow> mark_log \<Rightarrow> tickets \<Rightarrow> prefix_index \<Rightarrow> page_pool \<Rightarrow> bool" where
  "px_ok p0 M others H C T ix pool \<longleftrightarrow>
     distinct (map fst (px_trees ix)) \<and> (\<forall>d t. map_of (px_trees ix) d = Some t \<longrightarrow> tree_ok (H d) (C d) pool t)
     \<and> px_total_nodes ix = px_count ix \<and> px_retained_bytes ix = size (px_slots ix) * page_bytes pool
     \<and> owns p0 M others (px_slots ix) pool \<and> pins_ok T ix"

lemma px_okD:
  assumes "px_ok p0 M others H C T ix pool"
  shows "distinct (map fst (px_trees ix))" "map_of (px_trees ix) d = Some t \<Longrightarrow> tree_ok (H d) (C d) pool t"
    "px_total_nodes ix = px_count ix" "px_retained_bytes ix = size (px_slots ix) * page_bytes pool"
    "owns p0 M others (px_slots ix) pool" "pins_ok T ix"
  using assms unfolding px_ok_def by auto

lemma ticket_pinned: "(d, tk, ps) \<in># T \<Longrightarrow> i \<in> set tk \<Longrightarrow> 0 < pins T d i"
  using count_list_0_iff [of tk i] unfolding pins_def by (auto dest!: multi_member_split)

lemma ticket_transfer:
  assumes t: "ticket_ok T d tk ps t"
    and n: "\<And>i n. i \<in> set tk \<Longrightarrow> node_at t i = Some n \<Longrightarrow> pins T d i \<le> pin_count n
      \<Longrightarrow> \<exists>n'. node_at t' i = Some n' \<and> pins T' d i \<le> pin_count n' \<and> node_pages n' = node_pages n"
  shows "ticket_ok T' d tk ps t'"
proof -
  have s: "\<exists>n'. node_at t' i = Some n' \<and> pins T' d i \<le> pin_count n' \<and> node_pages n' = node_pages n"
    if "i \<in> set tk" "node_at t i = Some n" for i n
    using n [OF that] t that by (force simp: ticket_ok_def)
  show ?thesis
    unfolding ticket_ok_def
  proof (intro conjI ballI)
    show "distinct tk" using t by (simp add: ticket_ok_def)
  next
    fix i assume i: "i \<in> set tk"
    then obtain n where "node_at t i = Some n" using t by (auto simp: ticket_ok_def)
    then show "\<exists>n. node_at t' i = Some n \<and> pins T' d i \<le> pin_count n" using s [OF i] by blast
  next
    fix h assume "h \<in> set ps"
    then obtain i n where i: "i \<in> set tk" "node_at t i = Some n" "h_handle h \<in> set (node_pages n)"
      using t unfolding ticket_ok_def by blast
    then show "\<exists>i \<in> set tk. \<exists>n. node_at t' i = Some n \<and> h_handle h \<in> set (node_pages n)" using s [OF i(1,2)] by force
  qed
qed

lemma ticket_survives:
  assumes m: "(d, tk, ps) \<in># T" and t: "ticket_ok T d tk ps t" and s: "pins_survive t t'"
  shows "ticket_ok T d tk ps t'"
proof (rule ticket_transfer [OF t])
  fix i n assume i: "i \<in> set tk" "node_at t i = Some n" "pins T d i \<le> pin_count n"
  then have "0 < pin_count n" using ticket_pinned [OF m i(1)] by simp
  then show "\<exists>n'. node_at t' i = Some n' \<and> pins T d i \<le> pin_count n' \<and> node_pages n' = node_pages n"
    using s i(2,3) unfolding pins_survive_def by fastforce
qed

lemma pins_ok_update:
  assumes "pins_ok T ix" "map_of (px_trees ix) d = Some t" "pins_survive t t'" "px_trees ix' = AList.update d t' (px_trees ix)"
  shows "pins_ok T ix'"
  unfolding pins_ok_def
proof (clarify)
  fix d1 tk ps assume m: "(d1, tk, ps) \<in># T"
  then obtain t1 where t1: "map_of (px_trees ix) d1 = Some t1" "ticket_ok T d1 tk ps t1" using assms(1) by (auto simp: pins_ok_def)
  then show "\<exists>t. map_of (px_trees ix') d1 = Some t \<and> ticket_ok T d1 tk ps t"
    using ticket_survives [OF m] assms(2-4) by (cases "d1 = d") (auto simp: update_conv')
qed

text \<open>A stored page is one of the slots.\<close>

lemma member_sum: "x \<in> set xs \<Longrightarrow> f x \<subseteq># sum_list (map f xs)"
  by (induction xs) (auto intro: subset_mset.order_trans)

lemma page_slot:
  assumes "x \<in> tree_pages t K"
  shows "ph_phys (snd x) \<in># tree_sum node_slots t"
proof -
  obtain i n where i: "node_at t i = Some n" "x \<in> pages_at (K i) n" using assms by (auto simp: stored_mem)
  then have "ph_phys (snd x) \<in># node_slots n" by (auto simp: pages_at_def node_slots_def)
  moreover have "(\<lambda>(_, n). node_slots n) (i, n) \<subseteq># tree_sum node_slots t"
    unfolding tree_sum_def by (rule member_sum) (rule map_of_SomeD [OF i(1)])
  ultimately show ?thesis by (auto dest: mset_subset_eqD)
qed

lemma tree_slots: "map_of (px_trees ix) d = Some t \<Longrightarrow> tree_sum node_slots t \<subseteq># px_slots ix"
  unfolding px_slots_def using member_sum [of "(d, t)" "px_trees ix" "\<lambda>(_, t). tree_sum node_slots t"] by (auto dest: map_of_SomeD)

text \<open>What an operation on the tree of one domain does to the books.\<close>

lemma px_slots_update:
  "map_of (px_trees ix) d = Some t \<Longrightarrow> px_trees ix' = AList.update d t' (px_trees ix) \<Longrightarrow>
    px_slots ix' + tree_sum node_slots t = px_slots ix + tree_sum node_slots t'"
  unfolding px_slots_def by (simp add: sum_update_old)

lemma px_count_update:
  "map_of (px_trees ix) d = Some t \<Longrightarrow> px_trees ix' = AList.update d t' (px_trees ix) \<Longrightarrow>
    px_count ix' + tree_sum (\<lambda>_. 1) t = px_count ix + tree_sum (\<lambda>_. 1) t'"
  unfolding px_count_def by (simp add: sum_update_old)

lemma balance:
  assumes "a + (x :: 'a :: cancel_comm_monoid_add) = b + y" "y + q = x + p"
  shows "a + q = b + p"
proof -
  have "(a + q) + x = (b + y) + q" unfolding assms(1) [symmetric] by (simp only: ac_simps)
  also have "\<dots> = b + (y + q)" by (simp only: ac_simps)
  also have "\<dots> = (b + p) + x" unfolding assms(2) by (simp only: ac_simps)
  finally show ?thesis by simp
qed

lemma px_put:
  assumes I: "px_ok p0 M others H C T ix pool" and d: "map_of (px_trees ix) d = Some t"
    and K: "tree_pages t K \<subseteq> H d" "tree_marks t K \<subseteq> C d" "\<forall>x \<in> tree_pages t K. handle_ok pool (snd x)"
    and mv: "moves t K t' K' A B n m P Q"
    and ix': "px_trees ix' = AList.update d t' (px_trees ix)" "px_total_nodes ix' + m = px_total_nodes ix + n"
      "px_retained_bytes ix' + size B * page_bytes pool = px_retained_bytes ix + size A * page_bytes pool"
    and o: "owns p0 M others (px_slots ix') pool'" "\<And>h. handle_ok pool h \<Longrightarrow> ph_phys h \<in># px_slots ix' \<Longrightarrow> handle_ok pool' h"
    and P: "\<And>x. x \<in> P \<Longrightarrow> handle_ok pool' (snd x)" "P \<subseteq> H' d" "Q \<subseteq> C' d" and HC: "\<And>e. H e \<subseteq> H' e" "\<And>e. C e \<subseteq> C' e"
  shows "px_ok p0 M others H' C' T ix' pool'"
proof -
  note D = px_okD [OF I]
  have pb: "page_bytes pool' = page_bytes pool"
    using owns_geometry(3,4) [OF o(1)] owns_geometry(3,4) [OF D(5)] by (simp add: page_bytes_def)
  have slots: "px_slots ix' + B = px_slots ix + A"
    by (rule balance [OF px_slots_update [OF d ix'(1)]]) (use mv in \<open>simp add: moves_def\<close>)
  have nodes: "px_count ix' + m = px_count ix + n"
    by (rule balance [OF px_count_update [OF d ix'(1)]]) (use mv in \<open>simp add: moves_def\<close>)
  have "size (px_slots ix') + size B = size (px_slots ix) + size A" using slots by (metis size_union)
  then have "(size (px_slots ix') + size B) * page_bytes pool = (size (px_slots ix) + size A) * page_bytes pool" by simp
  then have "px_retained_bytes ix' = size (px_slots ix') * page_bytes pool'"
    using ix'(3) D(4) unfolding pb add_mult_distrib by linarith
  moreover have "px_total_nodes ix' = px_count ix'" using ix'(2) nodes D(3) by linarith
  moreover have "tree_ok (H' e) (C' e) pool' u" if u: "map_of (px_trees ix') e = Some u" for e u
  proof (cases "e = d")
    case True
    then have [simp]: "u = t'" using u ix'(1) by (simp add: update_conv')
    have "handle_ok pool' (snd x)" if x: "x \<in> tree_pages t' K'" for x
    proof (cases "x \<in> P")
      case False
      then have "x \<in> tree_pages t K" using x mv by (auto simp: moves_def)
      moreover have "ph_phys (snd x) \<in># px_slots ix'" using mset_subset_eqD [OF tree_slots [OF u] page_slot] x by simp
      ultimately show ?thesis using o(2) K(3) by blast
    qed (rule P(1))
    moreover have "tree_pages t' K' \<subseteq> H' d" "tree_marks t' K' \<subseteq> C' d" "radix t' K'"
      using mv K(1,2) P(2,3) HC [of d] unfolding moves_def by blast+
    ultimately show ?thesis unfolding tree_ok_def using True by auto
  next
    case False
    then have "map_of (px_trees ix) e = Some u" using u ix'(1) by (simp add: update_conv')
    then obtain K2 where K2: "radix u K2" "tree_pages u K2 \<subseteq> H e" "tree_marks u K2 \<subseteq> C e" "\<forall>x \<in> tree_pages u K2. handle_ok pool (snd x)"
      using D(2) unfolding tree_ok_def by blast
    have "handle_ok pool' (snd x)" if x: "x \<in> tree_pages u K2" for x
      using o(2) K2(4) x mset_subset_eqD [OF tree_slots [OF u] page_slot [OF x]] by blast
    then show ?thesis using K2 HC [of e] unfolding tree_ok_def by blast
  qed
  moreover have "pins_ok T ix'" using pins_ok_update [OF D(6) d _ ix'(1)] mv by (simp add: moves_def)
  ultimately show ?thesis
    using D(1) o(1) ix'(1) unfolding px_ok_def by (simp add: distinct_update)
qed

section \<open>Eviction keeps the books\<close>

lemma retire_node_sel [simp]:
  "px_trees (retire_node ix n) = px_trees ix" "px_total_nodes (retire_node ix n) = px_total_nodes ix"
  "px_retained_bytes (retire_node ix n) = px_retained_bytes ix" "px_max_cpu_nodes (retire_node ix n) = px_max_cpu_nodes ix"
  "px_max_retained_bytes (retire_node ix n) = px_max_retained_bytes ix"
  by (simp_all add: retire_node_def split: prod.split)

lemma release_pages_kept:
  "owns p0 M others (S + mset (map ph_phys phs)) pool \<Longrightarrow> release_pages pool phs = (pool', n) \<Longrightarrow>
    refs_kept p0 M others S pool pool' \<and> n = length phs"
proof (induction phs arbitrary: pool pool' n)
  case Nil
  then show ?case by (simp add: refs_kept_refl)
next
  case (Cons ph phs)
  obtain p1 r where r: "release_cache_ref pool (ph_phys ph) = (p1, r)" by fastforce
  obtain p2 k where k: "release_pages p1 phs = (p2, k)" by fastforce
  have o: "owns p0 M others (add_mset (ph_phys ph) (S + mset (map ph_phys phs))) pool" using Cons.prems(1) by simp
  note rel = owns_release [OF o r]
  have "pp_n_pages p1 = pp_n_pages pool" using owns_geometry(1) [OF rel(2)] owns_geometry(1) [OF o] by simp
  then show ?case
    using Cons.IH [OF rel(2) k] rel(1,3) ages_trans [OF rel(4)] Cons.prems(2) by (auto simp: r k refs_kept_def)
qed

text \<open>The geometry and the bounds of an index are fixed.\<close>

definition same_limits :: "prefix_index \<Rightarrow> prefix_index \<Rightarrow> bool" where
  "same_limits ix ix' \<longleftrightarrow> px_max_cpu_nodes ix' = px_max_cpu_nodes ix \<and> px_max_retained_bytes ix' = px_max_retained_bytes ix"

lemma same_limits_refl [simp]: "same_limits ix ix"
  by (simp add: same_limits_def)

lemma same_limits_trans: "same_limits ix ix1 \<Longrightarrow> same_limits ix1 ix2 \<Longrightarrow> same_limits ix ix2"
  by (simp add: same_limits_def)

text \<open>The nodes of the tree of a domain.\<close>

definition px_tcount :: "prefix_index \<Rightarrow> cache_domain \<Rightarrow> nat" where
  "px_tcount ix d = (case map_of (px_trees ix) d of None \<Rightarrow> 0 | Some t \<Rightarrow> tree_sum (\<lambda>_. 1) t)"

text \<open>What an eviction does: the books stay right, references only go, and every domain keeps its tree.\<close>

definition evicts ::
  "page_pool \<Rightarrow> nat multiset \<Rightarrow> (nat \<Rightarrow> nat) \<Rightarrow> page_log \<Rightarrow> mark_log \<Rightarrow> tickets \<Rightarrow> prefix_index \<Rightarrow> page_pool \<Rightarrow> prefix_index \<Rightarrow> page_pool \<Rightarrow> bool" where
  "evicts p0 M others H C T ix pool ix' pool' \<longleftrightarrow>
     px_ok p0 M others H C T ix' pool' \<and> px_slots ix' \<subseteq># px_slots ix \<and> px_total_nodes ix' \<le> px_total_nodes ix
     \<and> dom (map_of (px_trees ix')) = dom (map_of (px_trees ix)) \<and> (\<forall>d. px_tcount ix' d \<le> px_tcount ix d)
     \<and> same_limits ix ix' \<and> ages pool pool'"

lemma evicts_refl: "px_ok p0 M others H C T ix pool \<Longrightarrow> evicts p0 M others H C T ix pool ix pool"
  by (simp add: evicts_def)

lemma evicts_trans:
  assumes "px_ok p0 M others H C T ix pool" "evicts p0 M others H C T ix pool ix1 pool1" "evicts p0 M others H C T ix1 pool1 ix2 pool2"
  shows "evicts p0 M others H C T ix pool ix2 pool2"
proof -
  have "pp_n_pages pool1 = pp_n_pages pool"
    using assms(1,2) owns_geometry(1) unfolding evicts_def px_ok_def by metis
  then show ?thesis
    using assms(2,3) ages_trans [of pool pool1 pool2] unfolding evicts_def
    by (auto intro: subset_mset.order_trans same_limits_trans order_trans)
qed

lemma evict_leaf_evicts:
  assumes I: "px_ok p0 M others H C T ix pool" and e: "evict_leaf ix d nid pool ev = (ix', pool', ev', r)"
  shows "evicts p0 M others H C T ix pool ix' pool'"
proof (cases r)
  case None
  then show ?thesis using e evict_leaf_None evicts_refl [OF I] by blast
next
  case (Some fr)
  note D = px_okD [OF I]
  obtain t n where t: "map_of (px_trees ix) d = Some t" "node_at t nid = Some n" "evictable t nid n"
    using e Some by (auto simp: evict_leaf_def split: option.splits if_splits)
  let ?t = "drop_node (unlink (node_parent n) (edge_tokens n) t) nid"
  have ix': "px_trees ix' = AList.update d ?t (px_trees ix)" "px_total_nodes ix' = px_total_nodes ix - 1"
    "px_retained_bytes ix' = px_retained_bytes ix - length (node_pages n) * page_bytes pool" "same_limits ix ix'"
    and rel: "release_pages pool (node_pages n) = (pool', snd (release_pages pool (node_pages n)))"
    using e t by (auto simp: evict_leaf_def Let_def same_limits_def)
  obtain K where K: "radix t K" "tree_pages t K \<subseteq> H d" "tree_marks t K \<subseteq> C d" "\<forall>x \<in> tree_pages t K. handle_ok pool (snd x)"
    using D(2) [OF t(1)] unfolding tree_ok_def by blast
  have mv: "moves t K ?t K {#} (node_slots n) 0 1 {} {}"
    by (rule remove_moves [OF K(1) t(2)]) (use t(3) in \<open>auto simp: evictable_def is_leaf_node_def\<close>)
  have "px_slots ix' + node_slots n = px_slots ix + {#}"
    by (rule balance [OF px_slots_update [OF t(1) ix'(1)]]) (use mv in \<open>simp add: moves_def\<close>)
  then have slots: "px_slots ix' + node_slots n = px_slots ix" by simp
  have count: "px_count ix' + 1 = px_count ix + 0"
    by (rule balance [OF px_count_update [OF t(1) ix'(1)]]) (use mv in \<open>simp add: moves_def\<close>)
  have kept: "refs_kept p0 M others (px_slots ix') pool pool'"
    using release_pages_kept [OF _ rel] D(5) slots by (simp add: node_slots_def)
  have "size (px_slots ix) = size (px_slots ix') + length (node_pages n)" using slots [symmetric] by (simp add: node_slots_def)
  then have bytes: "px_retained_bytes ix' + length (node_pages n) * page_bytes pool = px_retained_bytes ix"
    using ix'(3) D(4) by (simp add: add_mult_distrib)
  have "px_ok p0 M others H C T ix' pool'"
    by (rule px_put [OF I t(1) K(2-4) mv ix'(1)])
      (use ix'(2) count D(3) bytes kept in \<open>auto simp: node_slots_def refs_kept_def\<close>)
  moreover have "px_slots ix' \<subseteq># px_slots ix" using slots by (metis mset_subset_eq_add_left)
  moreover have "dom (map_of (px_trees ix')) = dom (map_of (px_trees ix))" using t(1) by (auto simp: ix'(1) update_conv' dom_def)
  moreover have "px_tcount ix' e \<le> px_tcount ix e" for e
    using t(1) mv by (cases "e = d") (simp_all add: px_tcount_def ix'(1) update_conv' moves_def)
  ultimately show ?thesis using ix'(2,4) kept by (auto simp: evicts_def refs_kept_def)
qed

lemma evict_loop_evicts:
  "px_ok p0 M others H C T ix pool \<Longrightarrow> evict_loop ix pool mb cands freed ev = (ix', pool', ev') \<Longrightarrow>
    evicts p0 M others H C T ix pool ix' pool'"
proof (induction ix pool mb cands freed ev rule: evict_loop.induct)
  case (1 ix pool mb freed ev)
  then show ?case using evicts_refl by auto
next
  case (2 ix pool mb d nid seq rest freed ev)
  obtain ix1 pool1 ev1 r where e: "evict_leaf ix d nid pool ev = (ix1, pool1, ev1, r)" by (metis surj_pair)
  note st = evict_leaf_evicts [OF "2.prems"(1) e]
  then have I1: "px_ok p0 M others H C T ix1 pool1" by (simp add: evicts_def)
  show ?case
  proof (cases "mb \<le> freed")
    case True
    then show ?thesis using "2.prems" evicts_refl by auto
  next
    case False
    show ?thesis
    proof (cases r)
      case None
      then show ?thesis using "2.IH"(1) [OF False e [symmetric]] "2.prems" I1 e False evicts_trans [OF "2.prems"(1) st] by auto
    next
      case (Some p)
      obtain fr pc where p: "p = (fr, pc)" by fastforce
      show ?thesis
        using "2.IH"(2) [OF False e [symmetric] refl refl Some p [symmetric]] "2.prems" I1 e False Some p evicts_trans [OF "2.prems"(1) st] by auto
    qed
  qed
qed

lemma evict_unpinned_evicts:
  "px_ok p0 M others H C T ix pool \<Longrightarrow> evict_unpinned_leaves ix pool mb = (ix', pool', ev) \<Longrightarrow> evicts p0 M others H C T ix pool ix' pool'"
  unfolding evict_unpinned_leaves_def by (rule evict_loop_evicts)

lemma evict_leaf_Some_total:
  assumes I: "px_ok p0 M others H C T ix pool" and e: "evict_leaf ix d nid pool ev = (ix', pool', ev', Some r)"
  shows "px_total_nodes ix' < px_total_nodes ix"
proof -
  obtain t n where t: "map_of (px_trees ix) d = Some t" "node_at t nid = Some n" "px_total_nodes ix' = px_total_nodes ix - 1"
    using e by (auto simp: evict_leaf_def Let_def split: option.splits if_splits)
  have "(\<lambda>(_, _). 1) (nid, n) \<le> tree_sum (\<lambda>_. 1 :: nat) t"
    unfolding tree_sum_def using member_le_sum_list [of "(\<lambda>(_, _). 1 :: nat) (nid, n)"] map_of_SomeD [OF t(2)] by force
  moreover have "(\<lambda>(_, t). tree_sum (\<lambda>_. 1 :: nat) t) (d, t) \<le> px_count ix"
    unfolding px_count_def using map_of_SomeD [OF t(1)] by (intro member_le_sum_list) (auto intro: rev_image_eqI)
  ultimately show ?thesis using t(3) px_okD(3) [OF I] by simp
qed

lemma evict_oldest_evicts:
  assumes I: "px_ok p0 M others H C T ix pool" and e: "evict_oldest_unpinned_leaf ix pool = (ix', pool', b)"
  shows "evicts p0 M others H C T ix pool ix' pool'" "b \<Longrightarrow> px_total_nodes ix' < px_total_nodes ix"
proof -
  have "\<not> b \<and> ix' = ix \<and> pool' = pool \<or> (\<exists>d nid ev r. evict_leaf ix d nid pool [] = (ix', pool', ev, r) \<and> b = (r \<noteq> None))"
    using e by (auto simp: evict_oldest_unpinned_leaf_def split: option.splits prod.splits)
  then show "evicts p0 M others H C T ix pool ix' pool'" "b \<Longrightarrow> px_total_nodes ix' < px_total_nodes ix"
    using evicts_refl [OF I] evict_leaf_evicts [OF I] evict_leaf_Some_total [OF I] by blast+
qed

lemma evict_for_capacity_evicts:
  "px_ok p0 M others H C T ix pool \<Longrightarrow> evict_for_capacity ix pool needed = (ix', pool', r) \<Longrightarrow> evicts p0 M others H C T ix pool ix' pool'"
proof (induction ix pool needed rule: evict_for_capacity.induct)
  case (1 ix pool needed)
  obtain ix1 pool1 ev where e: "evict_unpinned_leaves ix pool u64_max = (ix1, pool1, ev)" by (metis surj_pair)
  note st = evict_unpinned_evicts [OF "1.prems"(1) e]
  have I1: "px_ok p0 M others H C T ix1 pool1" using st by (simp add: evicts_def)
  show ?case
    using "1.prems"(2) "1.IH" [OF _ e [symmetric] refl] st I1 e evicts_refl [OF "1.prems"(1)] evicts_trans [OF "1.prems"(1) st]
    by (auto simp: evict_for_capacity.simps [of ix] split: if_splits)
qed

lemma ceiling_loop_evicts:
  "px_ok p0 M others H C T ix pool \<Longrightarrow> ceiling_loop ix d tokens handles credit pool mb = (ix', pool', b) \<Longrightarrow> evicts p0 M others H C T ix pool ix' pool'"
proof (induction ix d tokens handles credit pool mb rule: ceiling_loop.induct)
  case (1 ix d tokens handles credit pool mb)
  let ?p = "saturating_add64 (px_retained_bytes ix) (saturating_mul64 (needed_pages ix d tokens handles credit) (page_bytes pool))"
  obtain ix1 pool1 ev where e: "evict_unpinned_leaves ix pool (?p - mb) = (ix1, pool1, ev)" by (metis surj_pair)
  note st = evict_unpinned_evicts [OF "1.prems"(1) e]
  have I1: "px_ok p0 M others H C T ix1 pool1" using st by (simp add: evicts_def)
  show ?case
    using "1.prems"(2) "1.IH" [OF refl _ e [symmetric] refl] st I1 e evicts_refl [OF "1.prems"(1)] evicts_trans [OF "1.prems"(1) st]
    by (auto simp: ceiling_loop.simps [of ix] Let_def split: if_splits)
qed

end
