(* ===== verification/Prefix_Publish.thy ===== *)
theory Prefix_Publish
  imports Prefix_Books
begin

text \<open>
  Publication in the prefix index. A publication that succeeds adds the pages and the checkpoint of its key to the log
  of its domain and keeps the books; one that is refused is an eviction at most.
\<close>

section \<open>Outcomes\<close>

definition log_pages :: "page_log \<Rightarrow> cache_domain \<Rightarrow> token list \<Rightarrow> handle list \<Rightarrow> page_log" where
  "log_pages H d tokens handles = H(d := H d \<union> published 0 tokens handles)"

definition log_mark :: "mark_log \<Rightarrow> cache_domain \<Rightarrow> token list \<Rightarrow> checkpoint_id option \<Rightarrow> mark_log" where
  "log_mark C d tokens ck = C(d := C d \<union> requested_mark tokens ck)"

text \<open>A string that ends at a node, and a checkpoint at the end of a string.\<close>

definition px_resident :: "prefix_index \<Rightarrow> cache_domain \<Rightarrow> token list \<Rightarrow> bool" where
  "px_resident ix d key \<longleftrightarrow> (\<exists>t K e. map_of (px_trees ix) d = Some t \<and> radix t K \<and> node_at t e \<noteq> None \<and> K e = key)"

definition px_marked :: "prefix_index \<Rightarrow> cache_domain \<Rightarrow> token list \<Rightarrow> checkpoint_id \<Rightarrow> bool" where
  "px_marked ix d key cid \<longleftrightarrow> (\<exists>t K. map_of (px_trees ix) d = Some t \<and> radix t K \<and> (key, cid) \<in> tree_marks t K)"

definition adds ::
  "page_pool \<Rightarrow> nat multiset \<Rightarrow> (nat \<Rightarrow> nat) \<Rightarrow> page_log \<Rightarrow> mark_log \<Rightarrow> tickets \<Rightarrow> prefix_index \<Rightarrow> cache_domain \<Rightarrow> token list \<Rightarrow> handle list
    \<Rightarrow> checkpoint_id option \<Rightarrow> prefix_index \<Rightarrow> page_pool \<Rightarrow> checkpoint_id \<Rightarrow> bool" where
  "adds p0 M others H C T ix d tokens handles ck ix' pool' cid \<longleftrightarrow>
     (size (px_slots ix') * page_bytes pool' \<le> u64_max
        \<longrightarrow> px_ok p0 M others (log_pages H d tokens handles) (log_mark C d tokens ck) T ix' pool')
     \<and> same_limits ix ix' \<and> px_resident ix' d tokens
     \<and> (if requested_id ck = CHECKPOINT_NONE then cid = CHECKPOINT_NONE else tokens \<noteq> [] \<longrightarrow> px_marked ix' d tokens cid \<and> (tokens, cid) \<in> log_mark C d tokens ck d)
     \<and> (px_total_nodes ix' \<le> px_max_cpu_nodes ix'
        \<or> px_total_nodes ix' \<le> px_total_nodes ix \<and> px_tcount ix' d \<le> px_tcount ix d)"

lemma adds_after_evicts:
  assumes "evicts p0 M others H C T ix pool ix1 pool1" "adds p0 M others H C T ix1 d tokens handles ck ix' pool' cid"
  shows "adds p0 M others H C T ix d tokens handles ck ix' pool' cid"
proof -
  have "px_total_nodes ix1 \<le> px_total_nodes ix" "px_tcount ix1 d \<le> px_tcount ix d" "same_limits ix ix1"
    using assms(1) by (auto simp: evicts_def)
  then show ?thesis
    using assms(2) same_limits_trans unfolding adds_def by (meson order_trans)
qed

section \<open>Into one tree of the index\<close>

lemma insert_success:
  assumes I: "px_ok p0 M others H C T ix pool" and d: "map_of (px_trees ix) d = Some t"
    and K: "radix t K" "tree_pages t K \<subseteq> H d" "tree_marks t K \<subseteq> C d" "\<forall>x \<in> tree_pages t K. handle_ok pool (snd x)"
    and i: "inserted p0 M others (px_slots ix) t K tokens handles ck pool (px_max_cpu_nodes ix) (px_total_nodes ix) t' pool' dn a cid"
    and ix': "ix' = ix\<lparr>px_trees := AList.update d t' (px_trees ix), px_total_nodes := px_total_nodes ix + dn,
        px_retained_bytes := saturating_add64 (px_retained_bytes ix) (a * page_bytes pool')\<rparr>"
  shows "adds p0 M others H C T ix d tokens handles ck ix' pool' cid"
proof -
  note D = px_okD [OF I]
  obtain K' X P Q where X: "grows t K t' K' X dn P Q" "P \<subseteq> published 0 tokens handles" "Q \<subseteq> requested_mark tokens ck"
    "refs_grow p0 M others (px_slots ix + X) pool pool' P" "a = size X" "dn = 0 \<or> px_total_nodes ix + dn \<le> px_max_cpu_nodes ix"
    "if requested_id ck = CHECKPOINT_NONE then cid = CHECKPOINT_NONE else tokens \<noteq> [] \<longrightarrow> (tokens, cid) \<in> tree_marks t' K'"
    "\<exists>e. node_at t' e \<noteq> None \<and> K' e = tokens"
    using i unfolding inserted_def by blast
  have trees: "px_trees ix' = AList.update d t' (px_trees ix)" by (simp add: ix')
  have t': "map_of (px_trees ix') d = Some t'" by (simp add: trees update_conv')
  have R': "radix t' K'" using X(1) by (simp add: grows_def)
  note mv = grows_moves [OF X(1)]
  have "px_slots ix' + {#} = px_slots ix + X"
    by (rule balance [OF px_slots_update [OF d trees]]) (use mv in \<open>simp add: moves_def\<close>)
  then have slots: "px_slots ix' = px_slots ix + X" by simp
  have o: "owns p0 M others (px_slots ix') pool'" using X(4) slots by (simp add: refs_grow_def)
  have pb: "page_bytes pool' = page_bytes pool"
    using owns_geometry(3,4) [OF o] owns_geometry(3,4) [OF D(5)] by (simp add: page_bytes_def)
  have "px_ok p0 M others (log_pages H d tokens handles) (log_mark C d tokens ck) T ix' pool'"
    if fits: "size (px_slots ix') * page_bytes pool' \<le> u64_max"
  proof (rule px_put [OF I d K(2-4) mv trees])
    show "px_retained_bytes ix' + size {#} * page_bytes pool = px_retained_bytes ix + size X * page_bytes pool"
      using fits D(4) X(5) unfolding slots pb by (simp add: ix' pb saturating_add64_def add_mult_distrib)
  qed (use X o in \<open>auto simp: ix' refs_grow_def log_pages_def log_mark_def\<close>)
  moreover have "px_tcount ix' d \<le> px_tcount ix d" if "dn = 0"
    using X(1) that by (simp add: px_tcount_def t' d grows_def)
  moreover have "px_resident ix' d tokens" unfolding px_resident_def using t' R' X(8) by blast
  moreover have "px_marked ix' d tokens cid" if "(tokens, cid) \<in> tree_marks t' K'" unfolding px_marked_def using t' R' that by blast
  moreover have "(tokens, cid) \<in> log_mark C d tokens ck d" if "(tokens, cid) \<in> tree_marks t' K'"
    using that X(1,3) K(3) by (auto simp: grows_def log_mark_def)
  ultimately show ?thesis
    using X(6,7) by (auto simp: adds_def ix' same_limits_def)
qed

text \<open>A refused insertion leaves the tree as it was.\<close>

lemma insert_failure:
  assumes I: "px_ok p0 M others H C T ix pool" and d: "map_of (px_trees ix) d = Some t"
    and K: "radix t K" "tree_pages t K \<subseteq> H d" "tree_marks t K \<subseteq> C d" "\<forall>x \<in> tree_pages t K. handle_ok pool (snd x)"
    and s: "same_nodes t t'" and k: "refs_kept p0 M others (px_slots ix) pool pool'"
    and ix': "ix' = ix\<lparr>px_trees := AList.update d t' (px_trees ix)\<rparr>"
  shows "evicts p0 M others H C T ix pool ix' pool'"
proof -
  have trees: "px_trees ix' = AList.update d t' (px_trees ix)" by (simp add: ix')
  note mv = same_nodes_moves [OF K(1) s]
  have "px_slots ix' + {#} = px_slots ix + {#}"
    by (rule balance [OF px_slots_update [OF d trees]]) (use mv in \<open>simp add: moves_def\<close>)
  then have slots: "px_slots ix' = px_slots ix" by simp
  have "px_ok p0 M others H C T ix' pool'"
    by (rule px_put [OF I d K(2-4) mv trees]) (use k slots in \<open>auto simp: ix' refs_kept_def\<close>)
  moreover have "px_tcount ix' e \<le> px_tcount ix e" for e
    using d mv by (cases "e = d") (simp_all add: px_tcount_def trees update_conv' moves_def)
  moreover have "dom (map_of (px_trees ix')) = dom (map_of (px_trees ix))" using d by (auto simp: trees update_conv' dom_def)
  ultimately show ?thesis using slots k by (auto simp: evicts_def ix' same_limits_def refs_kept_def)
qed

text \<open>The handles of a call are valid, or their pages have been freed by an eviction of the same call.\<close>

definition keyed :: "page_pool \<Rightarrow> token list \<Rightarrow> handle list \<Rightarrow> bool" where
  "keyed pool tokens handles \<longleftrightarrow>
     length tokens div PAGE_TOKENS \<le> length handles \<and> (\<forall>h \<in> set handles. usable pool (h_handle h))"

lemma keyed_evicts:
  assumes "px_ok p0 M others H C T ix pool" "evicts p0 M others H C T ix pool ix' pool'" "keyed pool tokens handles"
  shows "keyed pool' tokens handles"
proof -
  have "pp_n_pages pool' = pp_n_pages pool" using assms(1,2) owns_geometry(1) unfolding evicts_def px_ok_def by metis
  then show ?thesis using assms(2,3) ages_usable unfolding keyed_def evicts_def by blast
qed

lemma insert_retry_spec:
  assumes "px_ok p0 M others H C T ix pool" "map_of (px_trees ix) d \<noteq> None" "keyed pool tokens handles" "px_total_nodes ix < fuel"
    and "insert_retry fuel ix d tokens handles ck pool = (ix', pool', r)"
  shows "case r of Inl e \<Rightarrow> e \<noteq> IndexPanics \<and> evicts p0 M others H C T ix pool ix' pool'
    | Inr cid \<Rightarrow> adds p0 M others H C T ix d tokens handles ck ix' pool' cid"
  using assms
proof (induction fuel arbitrary: ix pool)
  case (Suc fuel)
  note I = Suc.prems(1)
  obtain t where t: "map_of (px_trees ix) d = Some t" using Suc.prems(2) by auto
  obtain K where K: "radix t K" "tree_pages t K \<subseteq> H d" "tree_marks t K \<subseteq> C d" "\<forall>x \<in> tree_pages t K. handle_ok pool (snd x)"
    using px_okD(2) [OF I t] unfolding tree_ok_def by blast
  obtain t1 pool1 r1 where e: "insert_into_tree t tokens handles ck pool (px_max_cpu_nodes ix) (px_total_nodes ix) = (t1, pool1, r1)"
    by (metis surj_pair)
  have out: "insert_outcome p0 M others (px_slots ix) t K tokens handles ck pool (px_max_cpu_nodes ix) (px_total_nodes ix) (t1, pool1, r1)"
    unfolding e [symmetric] by (rule insert_into_tree_outcome [OF K(1) _ px_okD(5) [OF I]]) (use Suc.prems(3) in \<open>auto simp: keyed_def\<close>)
  note run = Suc.prems(5) [unfolded insert_retry.simps t option.case e prod.case Let_def]
  show ?case
  proof (cases r1)
    case (Inr x)
    obtain dn a cid where x: "x = (dn, a, cid)" by (metis surj_pair)
    have "inserted p0 M others (px_slots ix) t K tokens handles ck pool (px_max_cpu_nodes ix) (px_total_nodes ix) t1 pool1 dn a cid"
      using out by (simp add: insert_outcome_def Inr x)
    note ok = insert_success [OF I t K this refl]
    show ?thesis using run ok unfolding Inr x by auto
  next
    case (Inl er)
    let ?ix = "ix\<lparr>px_trees := AList.update d t1 (px_trees ix)\<rparr>"
    have ref: "er \<noteq> IndexPanics" "evicts p0 M others H C T ix pool ?ix pool1"
      using out insert_failure [OF I t K _ _ refl] by (auto simp: insert_outcome_def Inl)
    have I1: "px_ok p0 M others H C T ?ix pool1" using ref(2) by (simp add: evicts_def)
    show ?thesis
    proof (cases "\<exists>x y. er = CpuNodeBoundExceeded x y")
      case False
      then show ?thesis using run ref unfolding Inl by (cases er) auto
    next
      case True
      obtain ix2 pool2 b where o: "evict_oldest_unpinned_leaf ?ix pool1 = (ix2, pool2, b)" by (metis surj_pair)
      note ev = evict_oldest_evicts [OF I1 o]
      note both = evicts_trans [OF I ref(2) ev(1)]
      have I2: "px_ok p0 M others H C T ix2 pool2" using ev(1) by (simp add: evicts_def)
      show ?thesis
      proof (cases b)
        case False
        then show ?thesis using run True o both unfolding Inl by auto
      next
        case b: True
        have "map_of (px_trees ix2) d \<noteq> None" using Suc.prems(2) both by (metis domIff evicts_def)
        moreover have "px_total_nodes ix2 < fuel" using ev(2) [OF b] Suc.prems(4) by simp
        moreover have "insert_retry fuel ix2 d tokens handles ck pool2 = (ix', pool', r)" using run True o b unfolding Inl by auto
        ultimately have "case r of Inl e \<Rightarrow> e \<noteq> IndexPanics \<and> evicts p0 M others H C T ix2 pool2 ix' pool'
            | Inr cid \<Rightarrow> adds p0 M others H C T ix2 d tokens handles ck ix' pool' cid"
          using Suc.IH [OF I2 _ keyed_evicts [OF I both Suc.prems(3)]] by blast
        then show ?thesis using evicts_trans [OF I both] adds_after_evicts [OF both] by (auto split: sum.splits)
      qed
    qed
  qed
qed simp

section \<open>The tree of a new domain\<close>

lemma tree_new_ok: "tree_ok {} {} pool tree_new" "tree_sum node_slots tree_new = {#}" "tree_sum (\<lambda>_. 1 :: nat) tree_new = 1"
proof -
  have root: "node_at tree_new i = Some n \<longleftrightarrow> i = 0 \<and> n = node_root" for i n by (auto simp: tree_new_def)
  have "radix tree_new (\<lambda>_. [])"
    unfolding radix_def radix_map_def root by (auto simp: tree_new_def node_root_def root_ok_def)
  moreover have none: "stored f (map_of (tree_nodes tree_new)) (tree_root tree_new) K = {}" for f :: "_ \<Rightarrow> _ \<Rightarrow> 'a set" and K
    by (auto simp: stored_mem tree_new_def)
  ultimately show "tree_ok {} {} pool tree_new" unfolding tree_ok_def by (simp add: none exI [of _ "\<lambda>_. []"])
  show "tree_sum node_slots tree_new = {#}" "tree_sum (\<lambda>_. 1 :: nat) tree_new = 1"
    by (simp_all add: tree_sum_def tree_new_def node_root_def node_slots_def)
qed

lemma tree_ok_mono: "tree_ok H C pool t \<Longrightarrow> H \<subseteq> H' \<Longrightarrow> C \<subseteq> C' \<Longrightarrow> tree_ok H' C' pool t"
  unfolding tree_ok_def by blast

lemma ensure_tree_ok:
  assumes I: "px_ok p0 M others H C T ix pool" and d: "map_of (px_trees ix) d = None"
  shows "px_ok p0 M others H C T (ensure_tree ix d) pool" "px_slots (ensure_tree ix d) = px_slots ix"
    "px_tcount (ensure_tree ix d) e = (if e = d then 1 else px_tcount ix e)" "same_limits ix (ensure_tree ix d)"
    "px_total_nodes (ensure_tree ix d) = px_total_nodes ix + 1" "map_of (px_trees (ensure_tree ix d)) = (map_of (px_trees ix))(d \<mapsto> tree_new)"
proof -
  note D = px_okD [OF I]
  have eq: "ensure_tree ix d = ix\<lparr>px_trees := AList.update d tree_new (px_trees ix), px_total_nodes := px_total_nodes ix + 1\<rparr>"
    using d by (simp add: ensure_tree_def node_count_def tree_new_def)
  show map: "map_of (px_trees (ensure_tree ix d)) = (map_of (px_trees ix))(d \<mapsto> tree_new)"
    by (simp add: eq update_conv')
  show slots: "px_slots (ensure_tree ix d) = px_slots ix"
    using d by (simp add: px_slots_def eq sum_update_new tree_new_ok(2))
  have "px_count (ensure_tree ix d) = px_count ix + 1"
    using d by (simp add: px_count_def eq sum_update_new tree_new_ok(3) [simplified])
  moreover have "tree_ok (H e) (C e) pool u" if "((map_of (px_trees ix))(d \<mapsto> tree_new)) e = Some u" for e u
    using that D(2) tree_ok_mono [OF tree_new_ok(1)] by (cases "e = d") auto
  moreover have "pins_ok T (ensure_tree ix d)" using D(6) d unfolding pins_ok_def map by fastforce
  ultimately show "px_ok p0 M others H C T (ensure_tree ix d) pool"
    using D(1,3-5) slots unfolding px_ok_def map by (simp add: eq distinct_update)
  show "px_tcount (ensure_tree ix d) e = (if e = d then 1 else px_tcount ix e)"
    using tree_new_ok(3) by (simp add: px_tcount_def map)
  show "same_limits ix (ensure_tree ix d)" "px_total_nodes (ensure_tree ix d) = px_total_nodes ix + 1"
    by (simp_all add: eq same_limits_def)
qed

lemma tree_sum_one: "tree_sum (\<lambda>_. 1 :: nat) t = length (tree_nodes t)"
  by (simp add: tree_sum_def split_def sum_list_triv)

lemma only_root:
  assumes "radix t K" "tree_sum (\<lambda>_. 1 :: nat) t \<le> 1"
  shows "tree_sum node_slots t = {#}" "node_count t = 1" "node_at t i \<noteq> None \<Longrightarrow> i = tree_root t"
proof -
  obtain n where n: "node_at t (tree_root t) = Some n" "root_ok n" using radix_mapD(2) [OF radixD(3) [OF assms(1)]] by blast
  have "tree_nodes t \<noteq> []" using n(1) by auto
  then obtain x where x: "tree_nodes t = [x]" using assms(2) [unfolded tree_sum_one] by (cases "tree_nodes t") auto
  then have "x = (tree_root t, n)" using n(1) by (cases x) (auto split: if_splits)
  then show "tree_sum node_slots t = {#}" "node_count t = 1" "node_at t i \<noteq> None \<Longrightarrow> i = tree_root t"
    using x n(2) by (auto simp: tree_sum_def node_slots_def root_ok_def node_count_def split: if_splits)
qed

lemma drop_new_tree_ok:
  assumes I: "px_ok p0 M others H C T ix pool" and t: "map_of (px_trees ix) d \<noteq> None" "px_tcount ix d \<le> 1" and T: "\<And>tk ps. (d, tk, ps) \<notin># T"
  shows "px_ok p0 M others H C T (drop_new_tree ix d) pool" "px_slots (drop_new_tree ix d) = px_slots ix"
    "px_total_nodes (drop_new_tree ix d) + 1 = px_total_nodes ix" "map_of (px_trees (drop_new_tree ix d)) = (map_of (px_trees ix))(d := None)"
    "same_limits ix (drop_new_tree ix d)"
proof -
  note D = px_okD [OF I]
  obtain u where u: "map_of (px_trees ix) d = Some u" using t(1) by auto
  obtain K where K: "radix u K" using D(2) [OF u] by (auto simp: tree_ok_def)
  note r = only_root [OF K t(2) [unfolded px_tcount_def u option.case]]
  have eq: "drop_new_tree ix d = ix\<lparr>px_trees := AList.delete d (px_trees ix), px_total_nodes := px_total_nodes ix - 1\<rparr>"
    using u r(2) by (simp add: drop_new_tree_def)
  show map: "map_of (px_trees (drop_new_tree ix d)) = (map_of (px_trees ix))(d := None)" by (simp add: eq delete_conv')
  show slots: "px_slots (drop_new_tree ix d) = px_slots ix"
    using sum_delete_old [OF D(1) u, of "tree_sum node_slots"] r(1) by (simp add: px_slots_def eq)
  have count: "px_count (drop_new_tree ix d) + 1 = px_count ix"
    using sum_delete_old [OF D(1) u, of "tree_sum (\<lambda>_. 1 :: nat)"] r(2) by (simp add: px_count_def eq tree_sum_one [simplified] node_count_def)
  then show tot: "px_total_nodes (drop_new_tree ix d) + 1 = px_total_nodes ix" using D(3) by (simp add: eq)
  have "pins_ok T (drop_new_tree ix d)" using D(6) T unfolding pins_ok_def map by fastforce
  then show "px_ok p0 M others H C T (drop_new_tree ix d) pool"
    using D(1-5) slots count tot unfolding px_ok_def map by (auto simp: eq distinct_delete split: if_splits)
  show "same_limits ix (drop_new_tree ix d)" by (simp add: eq same_limits_def)
qed

section \<open>A publication\<close>

definition publishes ::
  "page_pool \<Rightarrow> nat multiset \<Rightarrow> (nat \<Rightarrow> nat) \<Rightarrow> page_log \<Rightarrow> mark_log \<Rightarrow> tickets \<Rightarrow> prefix_index \<Rightarrow> cache_domain \<Rightarrow> token list \<Rightarrow> handle list
    \<Rightarrow> checkpoint_id option \<Rightarrow> prefix_index \<Rightarrow> page_pool \<Rightarrow> checkpoint_id \<Rightarrow> bool" where
  "publishes p0 M others H C T ix d tokens handles ck ix' pool' cid \<longleftrightarrow>
     (size (px_slots ix') * page_bytes pool' \<le> u64_max
        \<longrightarrow> px_ok p0 M others (log_pages H d tokens handles) (log_mark C d tokens ck) T ix' pool')
     \<and> same_limits ix ix' \<and> px_resident ix' d tokens
     \<and> (if requested_id ck = CHECKPOINT_NONE then cid = CHECKPOINT_NONE else tokens \<noteq> [] \<longrightarrow> px_marked ix' d tokens cid \<and> (tokens, cid) \<in> log_mark C d tokens ck d)
     \<and> (tokens \<noteq> [] \<longrightarrow> px_total_nodes ix' \<le> max (px_max_cpu_nodes ix) (px_total_nodes ix))"

lemma live_nodes_count:
  assumes I: "px_ok p0 M others H C T ix pool"
  shows "live_nodes ix = px_total_nodes ix"
proof -
  note D = px_okD [OF I]
  have "card (tree_keys t) = tree_sum (\<lambda>_. 1) t" if "(d, t) \<in> set (px_trees ix)" for d t
  proof -
    have "map_of (px_trees ix) d = Some t" using D(1) that by simp
    then have "distinct (map fst (tree_nodes t))" using D(2) radixD(1) unfolding tree_ok_def by blast
    then show ?thesis unfolding tree_sum_one tree_keys_def using distinct_card [of "map fst (tree_nodes t)"] by simp
  qed
  then have "live_nodes ix = px_count ix"
    unfolding live_nodes_def px_count_def by (intro arg_cong [of _ _ sum_list] map_cong) auto
  then show ?thesis using D(3) by simp
qed

lemma resident_tcount:
  assumes "px_resident ix d key" "key \<noteq> []"
  shows "1 < px_tcount ix d"
proof (rule ccontr)
  assume "\<not> 1 < px_tcount ix d"
  moreover obtain t K e where t: "map_of (px_trees ix) d = Some t" "radix t K" "node_at t e \<noteq> None" "K e = key"
    using assms(1) unfolding px_resident_def by blast
  ultimately have "e = tree_root t" using only_root(3) [OF t(2) _ t(3)] by (simp add: px_tcount_def)
  then show False using radix_mapD(1) [OF radixD(3) [OF t(2)]] t(4) assms(2) by simp
qed

lemma new_domain_unpinned: "pins_ok T ix \<Longrightarrow> map_of (px_trees ix) d = None \<Longrightarrow> (d, tk, ps) \<notin># T"
  unfolding pins_ok_def by fastforce

lemma adds_publishes_old:
  "adds p0 M others H C T ix d tokens handles ck ix' pool' cid \<Longrightarrow> publishes p0 M others H C T ix d tokens handles ck ix' pool' cid"
  unfolding adds_def publishes_def same_limits_def by (auto simp: max_def)

lemma adds_publishes_new:
  assumes I: "px_ok p0 M others H C T ix pool" and d: "map_of (px_trees ix) d = None"
    and a: "adds p0 M others H C T (ensure_tree ix d) d tokens handles ck ix' pool' cid"
  shows "publishes p0 M others H C T ix d tokens handles ck ix' pool' cid"
proof -
  note E = ensure_tree_ok [OF I d]
  have "px_total_nodes ix' \<le> max (px_max_cpu_nodes ix) (px_total_nodes ix)" if "tokens \<noteq> []"
    using a resident_tcount [OF _ that, of ix' d] E(3) [of d] E(4) by (auto simp: adds_def same_limits_def max_def)
  then show ?thesis using a same_limits_trans [OF E(4)] unfolding adds_def publishes_def by blast
qed

text \<open>A refusal that drops the new tree is an eviction of the index as it was before the call.\<close>

lemma refuse_evicts:
  assumes I: "px_ok p0 M others H C T ix pool"
    and e: "evicts p0 M others H C T (ensure_tree ix d) pool ix1 pool1"
    and r: "refuse ix1 d (map_of (px_trees ix) d = None) pool1 er = (ix', pool', res)"
  shows "res = Err er \<and> evicts p0 M others H C T ix pool ix' pool'"
proof (cases "map_of (px_trees ix) d = None")
  case False
  then show ?thesis using r e by (auto simp: refuse_def ensure_tree_def)
next
  case True
  note E = ensure_tree_ok [OF I True]
  have I1: "px_ok p0 M others H C T ix1 pool1" using e by (simp add: evicts_def)
  have "map_of (px_trees ix1) d \<noteq> None" using e E(6) unfolding evicts_def by (metis domIff fun_upd_same option.distinct(1))
  moreover have "px_tcount ix1 d \<le> 1" using e E(3) unfolding evicts_def by metis
  ultimately have DN: "px_ok p0 M others H C T (drop_new_tree ix1 d) pool1" "px_slots (drop_new_tree ix1 d) = px_slots ix1"
    "px_total_nodes (drop_new_tree ix1 d) + 1 = px_total_nodes ix1" "map_of (px_trees (drop_new_tree ix1 d)) = (map_of (px_trees ix1))(d := None)"
    "same_limits ix1 (drop_new_tree ix1 d)"
    using drop_new_tree_ok [OF I1 _ _ new_domain_unpinned [OF px_okD(6) [OF I] True]] by blast+
  have dom: "dom (map_of (px_trees (drop_new_tree ix1 d))) = dom (map_of (px_trees ix))"
    using e E(6) True unfolding evicts_def DN(4) by auto
  have "px_tcount (drop_new_tree ix1 d) x \<le> px_tcount ix x" for x
  proof (cases "x = d")
    case False
    then have "px_tcount (drop_new_tree ix1 d) x = px_tcount ix1 x" by (simp add: px_tcount_def DN(4))
    also have "\<dots> \<le> px_tcount (ensure_tree ix d) x" using e unfolding evicts_def by blast
    finally show ?thesis using E(3) [of x] False by simp
  qed (simp add: px_tcount_def DN(4))
  moreover have "px_total_nodes (drop_new_tree ix1 d) \<le> px_total_nodes ix" using DN(3) E(5) e unfolding evicts_def by linarith
  moreover have "same_limits ix (drop_new_tree ix1 d)" using e E(4) DN(5) same_limits_trans unfolding evicts_def by blast
  ultimately show ?thesis
    using r True e DN(1,2) E(2) dom by (auto simp: refuse_def evicts_def)
qed

lemma insert_validated_spec:
  assumes I: "px_ok p0 M others H C T ix pool" and k: "keyed pool tokens handles"
    and r: "insert_validated ix d tokens handles ck credit pool = (ix', pool', r)"
  shows "case r of Inl e \<Rightarrow> e \<noteq> IndexPanics \<and> evicts p0 M others H C T ix pool ix' pool'
    | Inr cid \<Rightarrow> publishes p0 M others H C T ix d tokens handles ck ix' pool' cid"
proof -
  let ?ix = "ensure_tree ix d"
  have I0: "px_ok p0 M others H C T ?ix pool"
    using ensure_tree_ok(1) [OF I] I by (cases "map_of (px_trees ix) d") (auto simp: ensure_tree_def)
  have d0: "map_of (px_trees ?ix) d \<noteq> None" by (simp add: ensure_tree_def update_conv')
  define c where "c = (case px_max_retained_bytes ?ix of None \<Rightarrow> (?ix, pool, None)
     | Some max_bytes \<Rightarrow> if max_bytes < page_bytes pool then (?ix, pool, Some max_bytes)
         else case ceiling_loop ?ix d tokens handles credit pool max_bytes of
           (ix, pool, fits) \<Rightarrow> (ix, pool, if fits then None else Some max_bytes))"
  obtain ix1 pool1 lim where c: "c = (ix1, pool1, lim)" by (metis surj_pair)
  have ev: "evicts p0 M others H C T ?ix pool ix1 pool1"
    using c evicts_refl [OF I0] ceiling_loop_evicts [OF I0] unfolding c_def by (auto split: option.splits if_splits prod.splits)
  have I1: "px_ok p0 M others H C T ix1 pool1" using ev by (simp add: evicts_def)
  note run = r [unfolded insert_validated_def Let_def, folded c_def, unfolded c prod.case]
  show ?thesis
  proof (cases lim)
    case (Some mb)
    then have "refuse ix1 d (map_of (px_trees ix) d = None) pool1 (CacheByteBoundExceeded (px_retained_bytes ix1) mb) = (ix', pool', r)"
      using run by simp
    from refuse_evicts [OF I ev this] show ?thesis by auto
  next
    case None
    obtain ix2 pool2 r2 where q: "insert_retry (Suc (live_nodes ix1)) ix1 d tokens handles ck pool1 = (ix2, pool2, r2)" by (metis surj_pair)
    have d1: "map_of (px_trees ix1) d \<noteq> None" using ev d0 unfolding evicts_def by (metis domIff)
    note sp = insert_retry_spec [OF I1 d1 keyed_evicts [OF I0 ev k] _ q] live_nodes_count [OF I1]
    show ?thesis
    proof (cases r2)
      case (Inl e)
      have e: "e \<noteq> IndexPanics" "evicts p0 M others H C T ?ix pool ix2 pool2"
        using sp Inl evicts_trans [OF I0 ev] by auto
      have "refuse ix2 d (map_of (px_trees ix) d = None) pool2 e = (ix', pool', r)"
        using run unfolding None option.case q prod.case Inl sum.case .
      from refuse_evicts [OF I e(2) this] show ?thesis using e(1) by auto
    next
      case (Inr cid)
      have a: "adds p0 M others H C T ?ix d tokens handles ck ix2 pool2 cid" using sp Inr adds_after_evicts [OF ev] by auto
      have "publishes p0 M others H C T ix d tokens handles ck ix2 pool2 cid"
        using a adds_publishes_new [OF I] adds_publishes_old by (cases "map_of (px_trees ix) d = None") (auto simp: ensure_tree_def)
      then show ?thesis using run unfolding None option.case q prod.case Inr sum.case by auto
    qed
  qed
qed

section \<open>The public calls\<close>

lemma validate_aligned_ok: "validate_aligned pool handles = Ok () \<Longrightarrow> h \<in> set handles \<Longrightarrow> usable pool (h_handle h)"
  by (induction handles) (auto simp: usable_def split: if_splits sum.splits)

lemma validate_in_order_ok: "validate_in_order pool i handles = Ok () \<Longrightarrow> h \<in> set handles \<Longrightarrow> usable pool (h_handle h)"
  by (induction handles arbitrary: i) (auto simp: usable_def split: if_splits sum.splits)

lemma validate_aligned_no_panic: "validate_aligned pool handles = Err e \<Longrightarrow> e \<noteq> IndexPanics"
  by (induction handles) (auto split: if_splits sum.splits)

lemma validate_in_order_no_panic: "validate_in_order pool i handles = Err e \<Longrightarrow> e \<noteq> IndexPanics"
  by (induction handles arbitrary: i) (auto split: if_splits sum.splits)

lemma px_insert_spec:
  assumes I: "px_ok p0 M others H C T ix pool" and r: "px_insert ix d tokens handles ck pool = (ix', pool', r)"
  shows "case r of Inl e \<Rightarrow> e \<noteq> IndexPanics \<and> evicts p0 M others H C T ix pool ix' pool'
    | Inr _ \<Rightarrow> \<exists>cid. publishes p0 M others H C T ix d tokens handles ck ix' pool' cid"
proof (cases "validate_aligned pool handles = Ok () \<and> length tokens = length handles * PAGE_TOKENS")
  case False
  then show ?thesis
    using r evicts_refl [OF I] validate_aligned_no_panic by (auto simp: px_insert_def split: sum.splits if_splits)
next
  case True
  then have k: "keyed pool tokens handles" using validate_aligned_ok [of pool handles] by (simp add: keyed_def)
  obtain ix1 pool1 r1 where q: "insert_validated ix d tokens handles ck False pool = (ix1, pool1, r1)" by (metis surj_pair)
  show ?thesis using insert_validated_spec [OF I k q] r True q by (auto simp: px_insert_def split: sum.splits)
qed

lemma publish_sealed_spec:
  assumes I: "px_ok p0 M others H C T ix pool" and r: "publish_sealed_pages ix d tokens handles ck pool = (ix', pool', r)"
  shows "case r of Inl e \<Rightarrow> e \<noteq> IndexPanics \<and> evicts p0 M others H C T ix pool ix' pool'
    | Inr _ \<Rightarrow> \<exists>cid. publishes p0 M others H C T ix d tokens handles ck ix' pool' cid"
  using r evicts_refl [OF I] px_insert_spec [OF I] by (auto simp: publish_sealed_pages_def split: if_splits)

lemma px_ok_exact [simp]: "px_ok p0 M others H C T (ix\<lparr>px_exact_ids := x\<rparr>) pool = px_ok p0 M others H C T ix pool"
  by (simp add: px_ok_def px_count_def px_slots_def pins_ok_def)

lemma publishes_exact [simp]:
  "publishes p0 M others H C T ix d tokens handles ck (ix'\<lparr>px_exact_ids := x\<rparr>) pool' cid = publishes p0 M others H C T ix d tokens handles ck ix' pool' cid"
  by (simp add: publishes_def px_slots_def same_limits_def px_resident_def px_marked_def)

end
