(* ===== verification/Prefix_Lookup.thy ===== *)
theory Prefix_Lookup
  imports Prefix_Publish
begin

text \<open>
  Looking up in the prefix index. In a well-formed tree a node is determined by its string, and the descent towards a
  string meets every node on its way. So the exact search finds a checkpoint exactly when one is stored at the end
  of the key, and a lookup returns pages and a checkpoint that were published for prefixes of the prompt.
\<close>

section \<open>Strings and nodes\<close>

lemma radix_parentE:
  assumes "radix_map N r K" "N i = Some n" "i \<noteq> r"
  obtains p pn where "N p = Some pn" "child_of pn (hd (edge_tokens n)) = Some i" "K i = K p @ edge_tokens n" "edge_tokens n \<noteq> []"
    "node_ok (length (K p)) n" "node_parent n = Some p"
  using radix_mapD(4) [OF assms] unfolding has_parent_def node_ok_def by blast

lemma prefix_next: "strict_prefix xs ys \<Longrightarrow> prefix ys zs \<Longrightarrow> zs ! length xs = ys ! length xs"
  by (auto simp: strict_prefix_def prefix_def nth_append split: if_splits)

lemma radix_unique:
  assumes R: "radix_map N r K" and "N i = Some n"
  shows "(\<forall>j m. N j = Some m \<longrightarrow> K j = K i \<longrightarrow> j = i)
    \<and> (\<forall>j m. N j = Some m \<longrightarrow> strict_prefix (K j) (K i) \<longrightarrow> (\<exists>c. child_of m (K i ! length (K j)) = Some c \<and> prefix (K c) (K i)))"
  using assms(2)
proof (induction "length (K i)" arbitrary: i n rule: less_induct)
  case less
  show ?case
  proof (cases "i = r")
    case True
    then have "K i = []" using radix_mapD(1) [OF R] by simp
    moreover have "j = r" if "N j = Some m" "K j = []" for j m
      using that radix_parentE [OF R that(1)] by (cases "j = r") auto
    ultimately show ?thesis using True by simp
  next
    case False
    obtain p pn where p: "N p = Some pn" "child_of pn (hd (edge_tokens n)) = Some i" "K i = K p @ edge_tokens n" "edge_tokens n \<noteq> []"
      using radix_parentE [OF R less.prems False] by blast
    have pl: "length (K p) < length (K i)" using p(3,4) by simp
    note ihp = less.hyps [OF pl p(1)]
    have tok: "K i ! length (K p) = hd (edge_tokens n)" using p(3,4) by (simp add: hd_conv_nth nth_append)
    have between: False if j: "N j = Some m" "strict_prefix (K p) (K j)" "strict_prefix (K j) (K i)" for j m
    proof -
      have "length (K j) < length (K i)" using prefix_length_less [OF j(3)] .
      from less.hyps [OF this j(1)] obtain c where c: "child_of pn (K j ! length (K p)) = Some c" "prefix (K c) (K j)"
        using p(1) j(2) by blast
      have "K j ! length (K p) = hd (edge_tokens n)"
        using prefix_next [OF j(2), of "K i"] j(3) tok by (simp add: strict_prefix_def)
      then have "prefix (K i) (K j)" using c p(2) by simp
      then show False using prefix_length_le [of "K i" "K j"] prefix_length_less [OF j(3)] by simp
    qed
    have toward: "\<exists>c. child_of m (K i ! length (K j)) = Some c \<and> prefix (K c) (K i)"
      if j: "N j = Some m" "strict_prefix (K j) (K i)" for j m
    proof -
      have "prefix (K j) (K i)" "prefix (K p) (K i)" using j(2) p(3) by (auto simp: strict_prefix_def)
      then consider "K j = K p" | "strict_prefix (K j) (K p)" | "strict_prefix (K p) (K j)"
        using prefix_same_cases by (metis strict_prefixI)
      then show ?thesis
      proof cases
        case 1
        then have "j = p" using ihp j(1) by blast
        then show ?thesis using p(1,2) tok j(1) by auto
      next
        case 2
        then obtain c where "child_of m (K p ! length (K j)) = Some c" "prefix (K c) (K p)" using ihp j(1) by blast
        then show ?thesis using prefix_next [OF 2, of "K i"] p(3) by (auto intro: prefix_order.order_trans)
      next
        case 3
        then show ?thesis using between [OF j(1) 3 j(2)] by simp
      qed
    qed
    have "j = i" if j: "N j = Some m" "K j = K i" for j m
    proof -
      have "j \<noteq> r" using j(2) radix_mapD(1) [OF R] p(3,4) by auto
      obtain q qn where q: "N q = Some qn" "child_of qn (hd (edge_tokens m)) = Some j" "K j = K q @ edge_tokens m" "edge_tokens m \<noteq> []"
        using radix_parentE [OF R j(1) \<open>j \<noteq> r\<close>] by blast
      have qi: "strict_prefix (K q) (K i)" using q(3,4) j(2) by (auto simp: strict_prefix_def)
      obtain c where c: "child_of qn (K i ! length (K q)) = Some c" "prefix (K c) (K i)" using toward [OF q(1) qi] by blast
      have "prefix (K q) (K i)" "prefix (K p) (K i)" using qi p(3) by (auto simp: strict_prefix_def)
      then consider "K q = K p" | "strict_prefix (K q) (K p)" | "strict_prefix (K p) (K q)"
        using prefix_same_cases by (metis strict_prefixI)
      then show ?thesis
      proof cases
        case 1
        then have "q = p" using ihp q(1) by blast
        moreover have "edge_tokens m = edge_tokens n" using 1 q(3) p(3) j(2) by simp
        ultimately show ?thesis using q(1,2) p(1,2) by simp
      next
        case 2
        then obtain c where c: "child_of qn (K p ! length (K q)) = Some c" "prefix (K c) (K p)" using ihp q(1) by blast
        have "K p ! length (K q) = hd (edge_tokens m)"
          using prefix_next [OF 2, of "K i"] p(3) q(3,4) j(2) by (metis hd_conv_nth nth_append_length_plus add.right_neutral prefixI)
        then have "prefix (K j) (K p)" using c q(2) by simp
        then show ?thesis using prefix_length_le [of "K j" "K p"] j(2) pl by simp
      next
        case 3
        then show ?thesis using between [OF q(1) 3 qi] by simp
      qed
    qed
    then show ?thesis using toward by blast
  qed
qed

lemma radix_inj: "radix t K \<Longrightarrow> node_at t i = Some n \<Longrightarrow> node_at t j = Some m \<Longrightarrow> K j = K i \<Longrightarrow> j = i"
  using radix_unique radixD(3) by blast

lemma radix_toward:
  assumes "radix t K" "node_at t i = Some n" "node_at t j = Some m" "strict_prefix (K j) (K i)"
  obtains c cn where "child_of m (K i ! length (K j)) = Some c" "prefix (K c) (K i)" "node_at t c = Some cn" "K c = K j @ edge_tokens cn"
proof -
  obtain c where c: "child_of m (K i ! length (K j)) = Some c" "prefix (K c) (K i)"
    using radix_unique [OF radixD(3) [OF assms(1)] assms(2)] assms(3,4) by blast
  obtain cn where "node_at t c = Some cn" "K c = K j @ edge_tokens cn"
    using radix_child [OF radixD(3) [OF assms(1)] assms(3) c(1)] by metis
  then show thesis using that c by blast
qed

text \<open>No node lies inside an edge.\<close>

lemma radix_edge:
  assumes R: "radix t K" and i: "node_at t i = Some n" "i \<noteq> tree_root t" and c: "node_at t c = Some cn"
    and l: "prefix (K c) (K i)" "length (K i) - length (edge_tokens n) < length (K c)"
  shows "c = i"
proof (rule ccontr)
  assume "c \<noteq> i"
  then have "K c \<noteq> K i" using radix_inj [OF R i(1) c] by blast
  obtain p pn where p: "node_at t p = Some pn" "child_of pn (hd (edge_tokens n)) = Some i" "K i = K p @ edge_tokens n" "edge_tokens n \<noteq> []"
    using radix_parentE [OF radixD(3) [OF R] i] by blast
  have "strict_prefix (K p) (K c)"
    using l p(3) prefix_same_cases [of "K p" "K i" "K c"] prefix_length_le [of "K c" "K p"] by (auto simp: strict_prefix_def)
  then obtain d where d: "child_of pn (K c ! length (K p)) = Some d" "prefix (K d) (K c)"
    using radix_toward [OF R c p(1)] by metis
  have "K c ! length (K p) = hd (edge_tokens n)"
    using prefix_next [OF \<open>strict_prefix (K p) (K c)\<close> l(1)] p(3,4) by (simp add: hd_conv_nth nth_append)
  then have "prefix (K i) (K c)" using d p(2) by simp
  then show False using l(1) \<open>K c \<noteq> K i\<close> by simp
qed

section \<open>The exact search\<close>

lemma mark_node:
  assumes R: "radix t K" and m: "(tokens, cid) \<in> tree_marks t K"
  obtains i n cb where "node_at t i = Some n" "i \<noteq> tree_root t" "cb \<in> set (node_checkpoints n)" "cb_checkpoint cb = cid"
    "prefix tokens (K i)" "length tokens = length (K i) - length (edge_tokens n) + cb_token_offset cb" "0 < cb_token_offset cb"
    "cb_token_offset cb \<le> length (edge_tokens n)" "sorted_wrt (<) (map cb_token_offset (node_checkpoints n))"
proof -
  obtain i n cb where i: "node_at t i = Some n" "i \<noteq> tree_root t" "cb \<in> set (node_checkpoints n)" "cb_checkpoint cb = cid"
    "tokens = take (length (K i) - length (edge_tokens n) + cb_token_offset cb) (K i)"
    using m by (auto simp: stored_mem marks_at_def mark_at_def)
  obtain p where p: "K i = K p @ edge_tokens n" "node_ok (length (K p)) n"
    using radix_parentE [OF radixD(3) [OF R] i(1,2)] by metis
  then have "0 < cb_token_offset cb" "cb_token_offset cb \<le> length (edge_tokens n)" "sorted_wrt (<) (map cb_token_offset (node_checkpoints n))"
    using i(3) by (auto simp: node_ok_def)
  then show thesis using that [OF i(1-4)] i(5) p(1) by (auto simp: take_is_prefix)
qed

lemma node_mark:
  assumes "node_at t c = Some cn" "c \<noteq> tree_root t" "cb \<in> set (node_checkpoints cn)"
    and "K c = base @ edge_tokens cn" "tokens = take (length base + cb_token_offset cb) (K c)"
  shows "(tokens, cb_checkpoint cb) \<in> tree_marks t K"
  using assms unfolding stored_mem marks_at_def mark_at_def by force

lemma find_exact_sound:
  assumes R: "radix t K"
  shows "node_at t cur = Some n \<Longrightarrow> K cur = take pos tokens \<Longrightarrow> pos < length tokens \<Longrightarrow> find_exact_loop fuel t tokens cur pos = Some cid
    \<Longrightarrow> (tokens, cid) \<in> tree_marks t K"
proof (induction fuel arbitrary: cur n pos)
  case (Suc fuel)
  obtain c where c: "child_of n (tokens ! pos) = Some c" using Suc.prems by (auto split: option.splits)
  obtain cn where cn: "node_at t c = Some cn" "c \<noteq> tree_root t" "K c = K cur @ edge_tokens cn" "edge_tokens cn \<noteq> []"
    using radix_child [OF radixD(3) [OF R] Suc.prems(1) c] by metis
  let ?k = "min (length tokens - pos) (length (edge_tokens cn))"
  have match: "take ?k (edge_tokens cn) = take ?k (drop pos tokens)"
    using Suc.prems(4) Suc.prems(1) c cn(1) by (auto simp: Let_def split: if_splits)
  have "take (pos + ?k) (K c) = take (pos + ?k) tokens"
    using cn(3) Suc.prems(2,3) match by (simp add: take_add)
  note tk = this
  show ?case
  proof (cases "?k = length tokens - pos")
    case True
    then obtain cb where cb: "find (\<lambda>cb. cb_token_offset cb = ?k) (node_checkpoints cn) = Some cb" "cid = cb_checkpoint cb"
      using Suc.prems(4) Suc.prems(1) c cn(1) match by (auto simp: Let_def)
    then have f: "cb \<in> set (node_checkpoints cn)" "cb_token_offset cb = ?k" by (auto simp: find_Some_iff)
    have "tokens = take (length (K cur) + cb_token_offset cb) (K c)" using tk True Suc.prems(2,3) f(2) by simp
    then show ?thesis using node_mark [where K = K, OF cn(1,2) f(1) cn(3)] cb(2) by simp
  next
    case False
    then have k: "?k = length (edge_tokens cn)" by (simp add: min_def split: if_splits)
    have "find_exact_loop fuel t tokens c (pos + ?k) = Some cid"
      using Suc.prems(4) Suc.prems(1) c cn(1) match False k by (auto simp: Let_def)
    moreover have "K c = take (pos + ?k) tokens" using tk k cn(3) Suc.prems(2,3) by simp
    ultimately show ?thesis using Suc.IH [OF cn(1)] False by auto
  qed
qed simp

lemma find_sorted:
  "sorted_wrt (<) (map f xs) \<Longrightarrow> x \<in> set xs \<Longrightarrow> find (\<lambda>y. f y = (f x :: nat)) xs = Some x"
  by (induction xs) auto

lemma find_exact_complete:
  assumes R: "radix t K" and m: "(tokens, cid) \<in> tree_marks t K"
  shows "node_at t cur = Some n \<Longrightarrow> K cur = take pos tokens \<Longrightarrow> pos < length tokens \<Longrightarrow> length tokens \<le> fuel + pos
    \<Longrightarrow> find_exact_loop fuel t tokens cur pos = Some cid"
proof (induction fuel arbitrary: cur n pos)
  case (Suc fuel)
  obtain i ni cb where i: "node_at t i = Some ni" "i \<noteq> tree_root t" "cb \<in> set (node_checkpoints ni)" "cb_checkpoint cb = cid"
    "prefix tokens (K i)" "length tokens = length (K i) - length (edge_tokens ni) + cb_token_offset cb" "0 < cb_token_offset cb"
    "cb_token_offset cb \<le> length (edge_tokens ni)" "sorted_wrt (<) (map cb_token_offset (node_checkpoints ni))"
    by (rule mark_node [OF R m])
  have cl: "length (K cur) = pos" using Suc.prems(2,3) by simp
  have "prefix (K cur) tokens" "length (K cur) < length tokens" using Suc.prems(2,3) by (auto simp: take_is_prefix)
  then have cur: "strict_prefix (K cur) tokens" "strict_prefix (K cur) (K i)"
    using i(5) by (auto simp: strict_prefix_def) (metis prefix_length_le not_less prefix_order.antisym)
  obtain c cn where c: "child_of n (K i ! pos) = Some c" "prefix (K c) (K i)" "node_at t c = Some cn" "K c = K cur @ edge_tokens cn"
    using radix_toward [OF R i(1) Suc.prems(1) cur(2)] cl by metis
  have tok: "K i ! pos = tokens ! pos" using prefix_next [OF cur(1) i(5)] cl by simp
  obtain rest where rest: "K i = tokens @ rest" using i(5) by (auto simp: prefix_def)
  let ?k = "min (length tokens - pos) (length (edge_tokens cn))"
  have "take (pos + ?k) (K c) = take (pos + ?k) tokens"
  proof -
    have "take (pos + ?k) (K c) = take (pos + ?k) (K i)" using c(2,4) cl by (auto simp: prefix_def)
    also have "\<dots> = take (pos + ?k) tokens" using rest Suc.prems(3) by simp
    finally show ?thesis .
  qed
  note tk = this
  have match: "take ?k (edge_tokens cn) = take ?k (drop pos tokens)"
    using arg_cong [OF tk, of "drop pos"] c(4) cl by (simp add: drop_take)
  show ?case
  proof (cases "?k = length tokens - pos")
    case True
    have "length (K i) - length (edge_tokens ni) < length (K c)"
      using True i(6,7) c(4) cl Suc.prems(3) by (simp add: min_def split: if_splits)
    then have ci: "c = i" by (rule radix_edge [OF R i(1,2) c(3,2)])
    then have "cn = ni" using c(3) i(1) by simp
    then have "length (K i) - length (edge_tokens ni) = pos" using c(4) ci cl by simp
    then have "?k = cb_token_offset cb" using True i(6) by simp
    then show ?thesis
      using Suc.prems(1) c(1,3) tok match True find_sorted [OF i(9,3)] i(4) \<open>cn = ni\<close> by (simp add: Let_def)
  next
    case False
    then have k: "?k = length (edge_tokens cn)" by (simp add: min_def split: if_splits)
    have ne: "edge_tokens cn \<noteq> []"
      using radix_child [OF radixD(3) [OF R] Suc.prems(1) c(1)] c(3) by (metis option.inject)
    have "find_exact_loop fuel t tokens c (pos + ?k) = Some cid"
    proof (rule Suc.IH [OF c(3)])
      show "K c = take (pos + ?k) tokens" using tk k c(4) cl by simp
      have "0 < ?k" using k ne by simp
      then show "pos + ?k < length tokens" "length tokens \<le> fuel + (pos + ?k)" using False Suc.prems(3,4) by linarith+
    qed
    then show ?thesis using Suc.prems(1) c(1,3) tok match False k by (auto simp: Let_def)
  qed
qed simp

text \<open>The search of the index returns what is stored at the end of the key.\<close>

lemma find_exact_iff:
  assumes t: "map_of (px_trees ix) d = Some t" "radix t K" and ne: "tokens \<noteq> []"
  shows "find_exact_checkpoint ix d tokens = Some cid \<longleftrightarrow> (tokens, cid) \<in> tree_marks t K"
proof -
  obtain n where n: "node_at t (tree_root t) = Some n" "K (tree_root t) = take 0 tokens"
    using radix_mapD(1,2) [OF radixD(3) [OF t(2)]] by auto
  have "0 < length tokens" using ne by simp
  then show ?thesis
    using find_exact_sound [OF t(2) n] find_exact_complete [OF t(2) _ n, of cid] t(1) ne
    by (auto simp: find_exact_checkpoint_def tree_fuel_def)
qed

lemma px_marked_find:
  assumes "px_marked ix d tokens cid" "tokens \<noteq> []"
  shows "find_exact_checkpoint ix d tokens = Some cid"
  using assms find_exact_iff unfolding px_marked_def by blast

text \<open>The log of checkpoints holds no null id.\<close>

definition real_marks :: "mark_log \<Rightarrow> bool" where
  "real_marks C \<longleftrightarrow> (\<forall>d. \<forall>x \<in> C d. snd x \<noteq> CHECKPOINT_NONE)"

lemma real_marks_log: "real_marks C \<Longrightarrow> real_marks (log_mark C d tokens ck)"
  by (auto simp: real_marks_def log_mark_def requested_mark_def)

lemma publish_checkpoint_spec:
  assumes I: "px_ok p0 M others H C T ix pool" and C: "real_marks C"
    and r: "publish_checkpoint ix d tokens handles ck pool = (ix', pool', r)"
  shows "case r of Inl e \<Rightarrow> e \<noteq> IndexPanics \<and> evicts p0 M others H C T ix pool ix' pool'
    | Inr cid \<Rightarrow> (publishes p0 M others H C T ix d tokens handles (Some ck) ix' pool' cid \<or> ix' = ix \<and> pool' = pool)
        \<and> find_exact_checkpoint ix' d tokens = Some cid"
proof -
  let ?valid = "\<not> checkpoint_is_none ck \<and> tokens \<noteq> [] \<and> length handles = length tokens div PAGE_TOKENS \<and> validate_in_order pool 0 handles = Ok ()"
  show ?thesis
  proof (cases "?valid")
    case False
    then show ?thesis
      using r evicts_refl [OF I] validate_in_order_no_panic by (auto simp: publish_checkpoint_def split: if_splits sum.splits)
  next
    case v: True
    show ?thesis
    proof (cases "find_exact_checkpoint ix d tokens")
      case (Some x)
      then show ?thesis using r v by (auto simp: publish_checkpoint_def)
    next
      case None
      have k: "keyed pool tokens handles" using v validate_in_order_ok [of pool 0 handles] by (simp add: keyed_def)
      obtain ix1 pool1 r1 where q: "insert_validated ix d tokens handles (Some ck) True pool = (ix1, pool1, r1)" by (metis surj_pair)
      note sp = insert_validated_spec [OF I k q]
      show ?thesis
      proof (cases r1)
        case (Inl e)
        then show ?thesis using sp r v None q by (auto simp: publish_checkpoint_def)
      next
        case (Inr cid)
        have id: "requested_id (Some ck) \<noteq> CHECKPOINT_NONE" using v by (simp add: requested_id_def checkpoint_is_none_def CHECKPOINT_NONE_def)
        have p: "publishes p0 M others H C T ix d tokens handles (Some ck) ix1 pool1 cid" using sp Inr by simp
        then have m: "px_marked ix1 d tokens cid" "(tokens, cid) \<in> log_mark C d tokens (Some ck) d"
          using id v by (auto simp: publishes_def)
        have "cid \<noteq> CHECKPOINT_NONE" using real_marks_log [OF C, of d tokens "Some ck"] m(2) unfolding real_marks_def by fastforce
        then have "\<not> checkpoint_is_none cid" by (simp add: checkpoint_is_none_def CHECKPOINT_NONE_def)
        then show ?thesis
          using r v None q Inr p px_marked_find [OF m(1)] by (auto simp: publish_checkpoint_def find_exact_checkpoint_def)
      qed
    qed
  qed
qed

end
