(* ===== verification/Prefix_Walk.thy ===== *)
theory Prefix_Walk
  imports Prefix_Lookup
begin

text \<open>
  What a walk returns. The pages it collects were published for the prefixes of the prompt that they end, they are in
  order, without a gap below the contiguous limit, and they lie on the path; a checkpoint it proposes was
  published at the boundary it is proposed for, and all the pages below that boundary are among the pages returned.
\<close>

section \<open>One edge\<close>

lemma page_start: "node_ok qp cn \<Longrightarrow> qp - first_page_skip cn = qp div PAGE_TOKENS * PAGE_TOKENS"
  by (simp add: node_ok_def minus_mod_eq_div_mult)

text \<open>A page of an edge is seen when the edge is matched to its end.\<close>

lemma scan_pages_child:
  assumes ok: "node_ok qp cn" and m: "m \<le> length (edge_tokens cn)"
  defines "pb \<equiv> qp div PAGE_TOKENS * PAGE_TOKENS"
  shows "(scan_pages pool (qp - first_page_skip cn) (qp + m) (node_pages cn) contig res pages = (contig, res, pages)) \<or>
    (\<exists>ph. m = length (edge_tokens cn) \<and> node_pages cn = [ph] \<and> handle_ok pool ph \<and> pb + PAGE_TOKENS = qp + m
       \<and> scan_pages pool (qp - first_page_skip cn) (qp + m) (node_pages cn) contig res pages =
           (if contig = pb then pb + PAGE_TOKENS else contig, res + PAGE_TOKENS, pages @ [\<lparr>h_handle = ph, h_token_offset = pb\<rparr>]))"
proof (cases "node_pages cn")
  case Nil
  then show ?thesis by simp
next
  case (Cons ph phs)
  then have full: "qp mod PAGE_TOKENS + length (edge_tokens cn) = PAGE_TOKENS" "phs = []"
    using ok by (auto simp: node_ok_def split: if_splits)
  have "pb + PAGE_TOKENS = qp + length (edge_tokens cn)"
    using full(1) div_mult_mod_eq [of qp PAGE_TOKENS] unfolding pb_def by linarith
  then show ?thesis
    using Cons full(2) m page_start [OF ok] unfolding pb_def by (auto simp: Let_def)
qed

lemma scan_checkpoints_inv:
  assumes "Rv r" "Cv e"
    and "\<And>cb. cb \<in> set cbs \<Longrightarrow> cb_token_offset cb \<le> m \<Longrightarrow> base + cb_token_offset cb \<le> contig \<Longrightarrow> Rv (base + cb_token_offset cb)"
    and "\<And>cb b. cb \<in> set cbs \<Longrightarrow> cb_token_offset cb \<le> m \<Longrightarrow> before = Some b \<Longrightarrow> base + cb_token_offset cb < b
      \<Longrightarrow> (base + cb_token_offset cb) - (base + cb_token_offset cb) mod PAGE_TOKENS \<le> contig
      \<Longrightarrow> Cv (Some \<lparr>ec_boundary = base + cb_token_offset cb, ec_checkpoint = cb_checkpoint cb, ec_ancestors = anc, ec_holder = hol\<rparr>)"
    and "scan_checkpoints base m contig before anc hol cbs r e = (r', e')"
  shows "Rv r' \<and> Cv e'"
  using assms
proof (induction cbs arbitrary: r e)
  case (Cons cb cbs)
  let ?bd = "base + cb_token_offset cb"
  let ?r = "if ?bd \<le> contig then max r ?bd else r"
  let ?e = "if better_exact ?bd contig before e
    then Some \<lparr>ec_boundary = ?bd, ec_checkpoint = cb_checkpoint cb, ec_ancestors = anc, ec_holder = hol\<rparr> else e"
  show ?case
  proof (cases "cb_token_offset cb \<le> m")
    case True
    have r: "Rv ?r" using Cons.prems(1) Cons.prems(3) [of cb] True by (auto simp: max_def)
    have e: "Cv ?e" using Cons.prems(2) Cons.prems(4) [of cb] True by (auto simp: better_exact_def split: option.splits)
    have "scan_checkpoints base m contig before anc hol cbs ?r ?e = (r', e')"
      using Cons.prems(5) True by (simp add: Let_def)
    then show ?thesis by (rule Cons.IH [OF r e, rotated 2]) (use Cons.prems(3,4) in auto)
  next
    case False
    then have "scan_checkpoints base m contig before anc hol cbs r e = (r', e')" using Cons.prems(5) by simp
    then show ?thesis by (rule Cons.IH [rotated 4]) (use Cons.prems(1-4) in auto)
  qed
qed simp

section \<open>The invariant of the walk\<close>

definition pages_front :: "nat \<Rightarrow> handle list \<Rightarrow> bool" where
  "pages_front contig ps \<longleftrightarrow>
     (\<exists>front rest. ps = front @ rest \<and> map h_token_offset front = map (\<lambda>i. i * PAGE_TOKENS) [0..<contig div PAGE_TOKENS]
        \<and> (\<forall>h \<in> set rest. contig \<le> h_token_offset h))"

definition page_seen :: "domain_tree \<Rightarrow> (nat \<Rightarrow> token list) \<Rightarrow> token list \<Rightarrow> page_pool \<Rightarrow> nat list \<Rightarrow> nat \<Rightarrow> handle \<Rightarrow> bool" where
  "page_seen t K tokens pool path matched h \<longleftrightarrow>
     h_token_offset h + PAGE_TOKENS \<le> matched \<and> h_token_offset h mod PAGE_TOKENS = 0 \<and> handle_ok pool (h_handle h)
     \<and> (take (h_token_offset h + PAGE_TOKENS) tokens, h_handle h) \<in> tree_pages t K
     \<and> (\<exists>i \<in> set path. \<exists>n. node_at t i = Some n \<and> h_handle h \<in> set (node_pages n))"

definition path_ok :: "domain_tree \<Rightarrow> (nat \<Rightarrow> token list) \<Rightarrow> nat \<Rightarrow> nat list \<Rightarrow> bool" where
  "path_ok t K matched path \<longleftrightarrow>
     (\<forall>i \<in> set path. node_at t i \<noteq> None \<and> length (K i) \<le> matched) \<and> sorted_wrt (\<lambda>i j. length (K i) < length (K j)) path"

definition cand_ok ::
  "domain_tree \<Rightarrow> (nat \<Rightarrow> token list) \<Rightarrow> token list \<Rightarrow> nat option \<Rightarrow> nat \<Rightarrow> nat \<Rightarrow> nat list \<Rightarrow> handle list \<Rightarrow> exact_candidate \<Rightarrow> bool" where
  "cand_ok t K tokens before contig matched path ps e \<longleftrightarrow>
     (\<exists>b. before = Some b \<and> ec_boundary e < b) \<and> ec_boundary e \<le> matched
     \<and> ec_boundary e - ec_boundary e mod PAGE_TOKENS \<le> contig
     \<and> (take (ec_boundary e) tokens, ec_checkpoint e) \<in> tree_marks t K \<and> ec_ancestors e \<le> length path
     \<and> node_at t (ec_holder e) \<noteq> None \<and> (\<forall>i \<in> set (take (ec_ancestors e) path). length (K i) < length (K (ec_holder e)))
     \<and> (\<forall>h \<in> set ps. h_token_offset h + PAGE_TOKENS \<le> ec_boundary e
          \<longrightarrow> (\<exists>i \<in> set (take (ec_ancestors e) path @ [ec_holder e]). \<exists>n. node_at t i = Some n \<and> h_handle h \<in> set (node_pages n)))"

definition walk_ok ::
  "domain_tree \<Rightarrow> (nat \<Rightarrow> token list) \<Rightarrow> token list \<Rightarrow> page_pool \<Rightarrow> nat option \<Rightarrow> nat \<Rightarrow> walk_result \<Rightarrow> bool" where
  "walk_ok t K tokens pool before contig w \<longleftrightarrow>
     w_matched_tokens w \<le> length tokens \<and> contig mod PAGE_TOKENS = 0 \<and> contig \<le> w_matched_tokens w
     \<and> pages_front contig (w_pages w) \<and> (\<forall>h \<in> set (w_pages w). page_seen t K tokens pool (w_path w) (w_matched_tokens w) h)
     \<and> path_ok t K (w_matched_tokens w) (w_path w)
     \<and> (w_resumable_tokens w = 0 \<or> w_resumable_tokens w \<le> contig \<and> (\<exists>cid. (take (w_resumable_tokens w) tokens, cid) \<in> tree_marks t K))
     \<and> (\<forall>e. w_exact w = Some e \<longrightarrow> cand_ok t K tokens before contig (w_matched_tokens w) (w_path w) (w_pages w) e)"

lemma multiple_floor: "(c :: nat) mod k = 0 \<Longrightarrow> c \<le> q \<Longrightarrow> c \<le> q div k * k"
  by (metis div_le_mono mod_0_imp_dvd dvd_div_mult_self mult_le_mono1)

lemma pages_front_snoc:
  assumes f: "pages_front contig ps" and c: "contig mod PAGE_TOKENS = 0" "contig \<le> qp" and k: "qp div PAGE_TOKENS * PAGE_TOKENS + PAGE_TOKENS = q'"
    and ps: "\<And>h. h \<in> set ps \<Longrightarrow> h_token_offset h + PAGE_TOKENS \<le> qp \<and> h_token_offset h mod PAGE_TOKENS = 0"
  defines "pb \<equiv> qp div PAGE_TOKENS * PAGE_TOKENS"
  shows "pages_front (if contig = pb then pb + PAGE_TOKENS else contig) (ps @ [\<lparr>h_handle = ph, h_token_offset = pb\<rparr>])"
proof -
  obtain front rest where fr: "ps = front @ rest" "map h_token_offset front = map (\<lambda>i. i * PAGE_TOKENS) [0..<contig div PAGE_TOKENS]"
    "\<forall>h \<in> set rest. contig \<le> h_token_offset h"
    using f unfolding pages_front_def by blast
  have le: "contig \<le> pb" unfolding pb_def by (rule multiple_floor [OF c])
  show ?thesis
  proof (cases "contig = pb")
    case True
    have "rest = []"
    proof (rule ccontr)
      assume "rest \<noteq> []"
      then obtain h where h: "h \<in> set rest" by (cases rest) auto
      then have "contig \<le> h_token_offset h" "h_token_offset h + PAGE_TOKENS \<le> qp" using fr(1,3) ps by auto
      moreover have "qp < pb + PAGE_TOKENS"
        using div_mult_mod_eq [of qp PAGE_TOKENS] mod_less_divisor [OF PAGE_TOKENS_nonzero(1), of qp] unfolding pb_def by linarith
      ultimately show False using True by linarith
    qed
    moreover have "(pb + PAGE_TOKENS) div PAGE_TOKENS = Suc (contig div PAGE_TOKENS)" using True by (simp add: div_add_self2)
    moreover have "contig div PAGE_TOKENS * PAGE_TOKENS = pb" using True by (simp add: pb_def)
    ultimately show ?thesis
      using fr(1,2) True unfolding pages_front_def
      by (intro exI [of _ "front @ [\<lparr>h_handle = ph, h_token_offset = pb\<rparr>]"] exI [of _ "[]"]) simp
  next
    case False
    then show ?thesis
      using fr le unfolding pages_front_def
      by (intro exI [of _ front] exI [of _ "rest @ [\<lparr>h_handle = ph, h_token_offset = pb\<rparr>]"]) auto
  qed
qed

lemma page_seen_mono:
  "page_seen t K tokens pool path matched h \<Longrightarrow> set path \<subseteq> set path' \<Longrightarrow> matched \<le> matched' \<Longrightarrow> page_seen t K tokens pool path' matched' h"
  unfolding page_seen_def by auto

text \<open>The pages after one edge.\<close>

lemma walk_pages_step:
  assumes R: "radix t K" and W: "walk_ok t K tokens pool before contig w" and n: "node_at t cur = Some n" "K cur = take qp tokens"
    and qp: "w_matched_tokens w = qp" "qp < length tokens" and c: "child_of n (tokens ! qp) = Some c" "node_at t c = Some cn"
  defines "m \<equiv> edge_match (edge_tokens cn) (drop qp tokens)"
  assumes s: "scan_pages pool (qp - first_page_skip cn) (qp + m) (node_pages cn) contig res (w_pages w) = (contig', res', ps')"
  shows "contig' mod PAGE_TOKENS = 0" "contig' \<le> qp + m" "contig \<le> contig'" "pages_front contig' ps'"
    "\<forall>h \<in> set ps'. page_seen t K tokens pool (w_path w @ [c]) (qp + m) h"
    "m < length (edge_tokens cn) \<Longrightarrow> ps' = w_pages w"
    "\<forall>h \<in> set ps'. h \<in> set (w_pages w) \<or> qp < h_token_offset h + PAGE_TOKENS"
proof -
  obtain x where "node_at t c = Some x" "node_ok (length (K cur)) x" "c \<noteq> tree_root t"
    by (rule radix_child [OF radixD(3) [OF R] n(1) c(1)])
  then have ok: "node_ok qp cn" "c \<noteq> tree_root t" using c(2) n(2) qp(2) by auto
  note de = descend [OF R n qp(2) c, folded m_def]
  have w: "contig mod PAGE_TOKENS = 0" "contig \<le> qp" "pages_front contig (w_pages w)"
    "\<forall>h \<in> set (w_pages w). page_seen t K tokens pool (w_path w) qp h" using W qp(1) unfolding walk_ok_def by auto
  have old: "\<forall>h \<in> set (w_pages w). page_seen t K tokens pool (w_path w @ [c]) (qp + m) h"
    using w(4) by (auto elim!: page_seen_mono)
  have "contig' mod PAGE_TOKENS = 0 \<and> contig' \<le> qp + m \<and> contig \<le> contig' \<and> pages_front contig' ps'
    \<and> (\<forall>h \<in> set ps'. page_seen t K tokens pool (w_path w @ [c]) (qp + m) h) \<and> (m < length (edge_tokens cn) \<longrightarrow> ps' = w_pages w)
    \<and> (\<forall>h \<in> set ps'. h \<in> set (w_pages w) \<or> qp < h_token_offset h + PAGE_TOKENS)"
    using scan_pages_child [OF ok(1) de(2), of pool contig res "w_pages w"]
  proof (elim disjE exE conjE)
    assume "scan_pages pool (qp - first_page_skip cn) (qp + m) (node_pages cn) contig res (w_pages w) = (contig, res, w_pages w)"
    then show ?thesis using s w old by auto
  next
    let ?pb = "qp div PAGE_TOKENS * PAGE_TOKENS"
    fix ph assume a: "m = length (edge_tokens cn)" "node_pages cn = [ph]" "handle_ok pool ph" "?pb + PAGE_TOKENS = qp + m"
      "scan_pages pool (qp - first_page_skip cn) (qp + m) (node_pages cn) contig res (w_pages w) =
         (if contig = ?pb then ?pb + PAGE_TOKENS else contig, res + PAGE_TOKENS, w_pages w @ [\<lparr>h_handle = ph, h_token_offset = ?pb\<rparr>])"
    then have e: "contig' = (if contig = ?pb then ?pb + PAGE_TOKENS else contig)" "ps' = w_pages w @ [\<lparr>h_handle = ph, h_token_offset = ?pb\<rparr>]"
      using s by auto
    have "pages_front contig' ps'"
      unfolding e by (rule pages_front_snoc [OF w(3,1,2) a(4)]) (use w(4) in \<open>auto simp: page_seen_def\<close>)
    moreover have "(K c, ph) \<in> tree_pages t K" using c(2) ok(2) a(2) unfolding stored_mem by (intro exI [of _ c] exI [of _ cn]) (simp add: pages_at_def)
    then have "page_seen t K tokens pool (w_path w @ [c]) (qp + m) \<lparr>h_handle = ph, h_token_offset = ?pb\<rparr>"
      using a de(5) [OF a(1)] c(2) by (auto simp: page_seen_def)
    moreover have "contig' mod PAGE_TOKENS = 0" unfolding e(1) using w(1) by simp
    ultimately show ?thesis using e old a(1,4) w(1,2) de(1) by auto
  qed
  then show "contig' mod PAGE_TOKENS = 0" "contig' \<le> qp + m" "contig \<le> contig'" "pages_front contig' ps'"
    "\<forall>h \<in> set ps'. page_seen t K tokens pool (w_path w @ [c]) (qp + m) h"
    "m < length (edge_tokens cn) \<Longrightarrow> ps' = w_pages w"
    "\<forall>h \<in> set ps'. h \<in> set (w_pages w) \<or> qp < h_token_offset h + PAGE_TOKENS" by blast+
qed

section \<open>The walk\<close>

lemma child_mark:
  assumes R: "radix t K" and n: "node_at t cur = Some n" "K cur = take qp tokens" "qp < length tokens"
    and c: "child_of n (tokens ! qp) = Some c" "node_at t c = Some cn"
    and cb: "cb \<in> set (node_checkpoints cn)" "cb_token_offset cb \<le> edge_match (edge_tokens cn) (drop qp tokens)"
  shows "(take (qp + cb_token_offset cb) tokens, cb_checkpoint cb) \<in> tree_marks t K"
proof -
  obtain x where "node_at t c = Some x" "K c = K cur @ edge_tokens x" "c \<noteq> tree_root t"
    by (rule radix_child [OF radixD(3) [OF R] n(1) c(1)])
  then have cn: "K c = K cur @ edge_tokens cn" "c \<noteq> tree_root t" using c(2) by auto
  have len: "length (K cur) = qp" using n(2,3) by simp
  have "take (cb_token_offset cb) (edge_tokens cn) = take (cb_token_offset cb) (drop qp tokens)"
    using arg_cong [OF common_len_take [of "edge_tokens cn" "drop qp tokens"], of "take (cb_token_offset cb)"] cb(2)
    by (simp add: edge_match_def min_absorb1)
  then have "take (qp + cb_token_offset cb) tokens = take (length (K cur) + cb_token_offset cb) (K c)"
    using len n(2) by (simp add: cn(1) take_add)
  then show ?thesis by (rule node_mark [where K = K, OF c(2) cn(2) cb(1) cn(1)])
qed

lemma cand_ok_mono:
  assumes "cand_ok t K tokens before contig matched path ps e" "contig \<le> contig'" "matched \<le> matched'" "path' = path @ xs"
    and "\<forall>h \<in> set ps'. h \<in> set ps \<or> matched < h_token_offset h + PAGE_TOKENS"
  shows "cand_ok t K tokens before contig' matched' path' ps' e"
  using assms unfolding cand_ok_def by (auto simp: not_le)

lemma walk_step:
  assumes R: "radix t K" and W: "walk_ok t K tokens pool before contig w" and n: "node_at t cur = Some n" "K cur = take qp tokens"
    and qp: "w_matched_tokens w = qp" "qp < length tokens" and c: "child_of n (tokens ! qp) = Some c" "node_at t c = Some cn"
  defines "m \<equiv> edge_match (edge_tokens cn) (drop qp tokens)"
  assumes s: "scan_pages pool (qp - first_page_skip cn) (qp + m) (node_pages cn) contig (w_resident_kv_tokens w) (w_pages w) = (contig', res', ps')"
    and k: "scan_checkpoints qp m contig' before (length (w_path w)) c (node_checkpoints cn) (w_resumable_tokens w) (w_exact w) = (r', e')"
    and path: "path' = (if m = length (edge_tokens cn) then w_path w @ [c] else w_path w)"
  shows "walk_ok t K tokens pool before contig'
    (w\<lparr>w_matched_tokens := qp + m, w_resident_kv_tokens := res', w_resumable_tokens := r', w_pages := ps', w_exact := e', w_path := path'\<rparr>)"
proof -
  note pg = walk_pages_step [OF R W n qp c s [unfolded m_def], folded m_def]
  note de = descend [OF R n qp(2) c, folded m_def]
  obtain x where "node_at t c = Some x" "K c = K cur @ edge_tokens x" "edge_tokens x \<noteq> []"
    by (rule radix_child [OF radixD(3) [OF R] n(1) c(1)])
  then have Kc: "qp < length (K c)" using c(2) n(2) qp(2) by auto
  have W': "path_ok t K qp (w_path w)"
    "w_resumable_tokens w = 0 \<or> w_resumable_tokens w \<le> contig \<and> (\<exists>cid. (take (w_resumable_tokens w) tokens, cid) \<in> tree_marks t K)"
    "\<forall>e. w_exact w = Some e \<longrightarrow> cand_ok t K tokens before contig qp (w_path w) (w_pages w) e"
    "\<forall>h \<in> set (w_pages w). page_seen t K tokens pool (w_path w) qp h"
    using W qp(1) by (auto simp: walk_ok_def)
  have "\<exists>xs. path' = w_path w @ xs" using path by simp
  then obtain xs where xs: "path' = w_path w @ xs" by blast
  have P: "path_ok t K (qp + m) path'"
  proof (cases "m = length (edge_tokens cn)")
    case True
    have "length (K c) = qp + m" using de(5) [OF True] de(3) by simp
    moreover have "length (K i) \<le> qp + m \<and> length (K i) < length (K c)" if "i \<in> set (w_path w)" for i
      using W'(1) Kc that by (force simp: path_ok_def)
    ultimately show ?thesis using W'(1) c(2) True unfolding path path_ok_def by (simp add: sorted_wrt_append)
  next
    case False
    then show ?thesis using W'(1) unfolding path path_ok_def by auto
  qed
  have S: "\<forall>h \<in> set ps'. page_seen t K tokens pool path' (qp + m) h"
  proof (cases "m = length (edge_tokens cn)")
    case True
    then show ?thesis using pg(5) path by simp
  next
    case False
    then have "ps' = w_pages w" using pg(6) de(2) by simp
    then show ?thesis using W'(4) page_seen_mono [OF _ order_refl, of t K tokens pool "w_path w" qp _ "qp + m"] path False by auto
  qed
  let ?Rv = "\<lambda>r. r = 0 \<or> r \<le> contig' \<and> (\<exists>cid. (take r tokens, cid) \<in> tree_marks t K)"
  let ?Cv = "\<lambda>e. \<forall>x. e = Some x \<longrightarrow> cand_ok t K tokens before contig' (qp + m) path' ps' x"
  have "?Rv r' \<and> ?Cv e'"
  proof (rule scan_checkpoints_inv [OF _ _ _ _ k])
    show "?Rv (w_resumable_tokens w)" using W'(2) pg(3) by auto
    show "?Cv (w_exact w)" using W'(3) cand_ok_mono [OF _ pg(3) _ xs pg(7)] by auto
    fix cb assume cb: "cb \<in> set (node_checkpoints cn)" "cb_token_offset cb \<le> m"
    note mk = child_mark [OF R n qp(2) c cb(1) cb(2) [unfolded m_def]]
    show "?Rv (qp + cb_token_offset cb)" if "qp + cb_token_offset cb \<le> contig'" using mk that by blast
    fix b assume b: "before = Some b" "qp + cb_token_offset cb < b" "(qp + cb_token_offset cb) - (qp + cb_token_offset cb) mod PAGE_TOKENS \<le> contig'"
    have "\<forall>i \<in> set (w_path w). length (K i) < length (K c)" using W'(1) Kc by (auto simp: path_ok_def)
    moreover have "\<exists>i \<in> set (w_path w @ [c]). \<exists>n. node_at t i = Some n \<and> h_handle h \<in> set (node_pages n)" if "h \<in> set ps'" for h
      using pg(5) that by (auto simp: page_seen_def)
    ultimately show "?Cv (Some \<lparr>ec_boundary = qp + cb_token_offset cb, ec_checkpoint = cb_checkpoint cb, ec_ancestors = length (w_path w), ec_holder = c\<rparr>)"
      using b mk cb(2) c(2) xs by (simp add: cand_ok_def)
  qed
  then show ?thesis using pg(1-4) de(3) P S by (simp add: walk_ok_def)
qed

lemma walk_ok_exhausted [simp]: "walk_ok t K tokens pool before contig (w\<lparr>w_exhausted_query := b\<rparr>) = walk_ok t K tokens pool before contig w"
  by (simp add: walk_ok_def)

lemma walk_loop_ok:
  assumes R: "radix t K"
  shows "node_at t cur = Some n \<Longrightarrow> K cur = take qp tokens \<Longrightarrow> w_matched_tokens w = qp \<Longrightarrow> walk_ok t K tokens pool before contig w
    \<Longrightarrow> \<exists>contig'. walk_ok t K tokens pool before contig' (walk_loop fuel t tokens pool before cur qp contig w)"
proof (induction fuel arbitrary: cur n qp contig w)
  case 0
  then show ?case by auto
next
  case (Suc fuel)
  note n = Suc.prems(1,2) and W = Suc.prems(4)
  show ?case
  proof (cases "qp < length tokens \<and> child_of n (tokens ! qp) \<noteq> None")
    case False
    then show ?thesis using W n(1) by (auto simp: Let_def split: option.splits)
  next
    case True
    then obtain c where q: "qp < length tokens" and c: "child_of n (tokens ! qp) = Some c" by auto
    obtain cn where cn: "node_at t c = Some cn" by (rule radix_child [OF radixD(3) [OF R] n(1) c])
    let ?m = "edge_match (edge_tokens cn) (drop qp tokens)"
    obtain contig1 res1 ps1 where s: "scan_pages pool (qp - first_page_skip cn) (qp + ?m) (node_pages cn) contig (w_resident_kv_tokens w) (w_pages w) = (contig1, res1, ps1)"
      by (metis surj_pair)
    obtain r1 e1 where k: "scan_checkpoints qp ?m contig1 before (length (w_path w)) c (node_checkpoints cn) (w_resumable_tokens w) (w_exact w) = (r1, e1)"
      by fastforce
    let ?w = "w\<lparr>w_matched_tokens := qp + ?m, w_resident_kv_tokens := res1, w_resumable_tokens := r1, w_pages := ps1, w_exact := e1\<rparr>"
    note st = walk_step [OF R W n Suc.prems(3) q c cn s k refl]
    show ?thesis
    proof (cases "?m = length (edge_tokens cn)")
      case True
      have W1: "walk_ok t K tokens pool before contig1 (?w\<lparr>w_path := w_path w @ [c]\<rparr>)" using st True by simp
      have "\<exists>contig'. walk_ok t K tokens pool before contig' (walk_loop fuel t tokens pool before c (qp + ?m) contig1 (?w\<lparr>w_path := w_path w @ [c]\<rparr>))"
        by (rule Suc.IH [OF cn descend(5) [OF R n q c cn True] _ W1]) simp
      then show ?thesis using q n(1) c cn s k True Suc.prems(3) by (simp add: Let_def)
    next
      case False
      then have W1: "walk_ok t K tokens pool before contig1 ?w" using st by simp
      then show ?thesis using q n(1) c cn s k False Suc.prems(3) by (auto simp: Let_def)
    qed
  qed
qed

lemma walk_sound:
  assumes R: "radix t K" and t: "map_of (px_trees ix) d = Some t"
  shows "\<exists>contig. walk_ok t K tokens pool before contig (walk ix d tokens pool before)"
proof -
  obtain n where n: "node_at t (tree_root t) = Some n" "K (tree_root t) = []"
    using radix_mapD(1,2) [OF radixD(3) [OF R]] by blast
  have "walk_ok t K tokens pool before 0 (walk_start [tree_root t])"
    using n by (simp add: walk_ok_def walk_start_def pages_front_def path_ok_def)
  then show ?thesis
    unfolding walk_def t option.case by (intro walk_loop_ok [OF R n(1)]) (simp_all add: n(2) walk_start_def)
qed

section \<open>What a hit returns\<close>

text \<open>The pages below a boundary that lies in the contiguous part are the first ones, in order.\<close>

lemma filter_front:
  assumes f: "pages_front contig ps" and b: "b div PAGE_TOKENS * PAGE_TOKENS \<le> contig"
  shows "map h_token_offset (filter (\<lambda>h. h_token_offset h + PAGE_TOKENS \<le> b) ps) = map (\<lambda>i. i * PAGE_TOKENS) [0..<b div PAGE_TOKENS]"
proof -
  obtain front rest where fr: "ps = front @ rest" "map h_token_offset front = map (\<lambda>i. i * PAGE_TOKENS) [0..<contig div PAGE_TOKENS]"
    "\<forall>h \<in> set rest. contig \<le> h_token_offset h"
    using f unfolding pages_front_def by blast
  have iff: "i * PAGE_TOKENS + PAGE_TOKENS \<le> b \<longleftrightarrow> i < b div PAGE_TOKENS" for i
    using less_eq_div_iff_mult_less_eq [OF PAGE_TOKENS_nonzero(1), of "Suc i" b] by (simp add: Suc_le_eq add.commute)
  have "b < contig + PAGE_TOKENS"
    using b div_mult_mod_eq [of b PAGE_TOKENS] mod_less_divisor [OF PAGE_TOKENS_nonzero(1), of b] by linarith
  then have "filter (\<lambda>h. h_token_offset h + PAGE_TOKENS \<le> b) rest = []" using fr(3) by (force simp: filter_empty_conv)
  then have "map h_token_offset (filter (\<lambda>h. h_token_offset h + PAGE_TOKENS \<le> b) ps)
      = filter (\<lambda>x. x + PAGE_TOKENS \<le> b) (map h_token_offset front)"
    by (simp add: fr(1) filter_map comp_def)
  also have "\<dots> = map (\<lambda>i. i * PAGE_TOKENS) (filter (\<lambda>i. i < b div PAGE_TOKENS) [0..<contig div PAGE_TOKENS])"
    by (simp add: fr(2) filter_map comp_def iff)
  also have "filter (\<lambda>i. i < b div PAGE_TOKENS) [0..<contig div PAGE_TOKENS] = [0..<b div PAGE_TOKENS]"
  proof -
    have "b div PAGE_TOKENS \<le> contig div PAGE_TOKENS" using div_le_mono [OF b, of PAGE_TOKENS] by simp
    then have "[0..<contig div PAGE_TOKENS] = [0..<b div PAGE_TOKENS] @ [b div PAGE_TOKENS..<contig div PAGE_TOKENS]"
      by (metis le0 le_iff_add upt_add_eq_append)
    then show ?thesis by (simp add: filter_empty_conv)
  qed
  finally show ?thesis .
qed

end
