(* ===== verification/Prefix_Pins.thy ===== *)
theory Prefix_Pins
  imports Prefix_Walk
begin

text \<open>
  Pins and lookups. A lookup that hits pins the nodes its pages lie in; releasing the ticket undoes that and nothing else.
  Tickets are kept with the pages of their lookup, so that the invariant of the index says where these pages are.
\<close>

section \<open>Changing the pins of a path\<close>

lemma fold_modify_map:
  "distinct is \<Longrightarrow> map_of (tree_nodes (fold (\<lambda>i. modify_node i f) is t)) = (\<lambda>i. if i \<in> set is then map_option f (node_at t i) else node_at t i)"
  by (induction "is" arbitrary: t) (auto simp: modify_node_map fun_eq_iff)

lemma px_fade:
  assumes I: "px_ok p0 M others H C T ix pool" and d: "map_of (px_trees ix) d = Some t"
    and K: "tree_pages t K \<subseteq> H d" "tree_marks t K \<subseteq> C d" "\<forall>x \<in> tree_pages t K. handle_ok pool (snd x)"
    and f: "fades t K t'" and ix': "ix' = ix\<lparr>px_trees := AList.update d t' (px_trees ix)\<rparr>" and T': "pins_ok T' ix'"
  shows "px_ok p0 M others H C T' ix' pool" "px_slots ix' = px_slots ix"
proof -
  note D = px_okD [OF I]
  have trees: "px_trees ix' = AList.update d t' (px_trees ix)" by (simp add: ix')
  show slots: "px_slots ix' = px_slots ix"
    using px_slots_update [OF d trees] f by (simp add: fades_def)
  have "px_count ix' + tree_sum (\<lambda>_. 1) t = px_count ix + tree_sum (\<lambda>_. 1) t'" by (rule px_count_update [OF d trees])
  moreover have "tree_sum (\<lambda>_. 1 :: nat) t' = tree_sum (\<lambda>_. 1) t" using f by (simp add: fades_def)
  ultimately have count: "px_count ix' = px_count ix" by linarith
  have "tree_ok (H d) (C d) pool t'" using f K unfolding tree_ok_def fades_def by blast
  then have "tree_ok (H e) (C e) pool u" if "map_of (px_trees ix') e = Some u" for e u
    using that D(2) by (cases "e = d") (auto simp: trees update_conv')
  then show "px_ok p0 M others H C T' ix' pool"
    using D(1,3-5) slots count T' unfolding px_ok_def by (simp add: ix' distinct_update)
qed

lemma pin_node_moved: "node_moved n (pin_node n)" "node_moved n (unpin_node n)"
  by (auto simp: node_moved_def pin_node_def unpin_node_def node_ok_def)

lemma pins_add: "pins (add_mset (d, tk, ps) T) e i = (if d = e then count_list tk i else 0) + pins T e i"
  by (simp add: pins_def)

lemma count_list_distinct: "distinct xs \<Longrightarrow> count_list xs x = (if x \<in> set xs then 1 else 0)"
  by (induction xs) auto

text \<open>A node carries at most one pin per ticket.\<close>

lemma pins_le_size:
  assumes "\<And>d tk ps. (d, tk, ps) \<in># T \<Longrightarrow> distinct tk"
  shows "pins T d i \<le> size T"
  using assms
proof (induction T)
  case (add x T)
  obtain e tk ps where x: "x = (e, tk, ps)" by (metis surj_pair)
  have "pins T d i \<le> size T" by (rule add.IH) (use add.prems in force)
  moreover have "count_list tk i \<le> 1" using add.prems [of e tk ps] x by (simp add: count_list_distinct)
  ultimately show ?case by (simp add: x pins_add)
qed (simp add: pins_def)

lemma ticket_distinct: "pins_ok T ix \<Longrightarrow> (d, tk, ps) \<in># T \<Longrightarrow> distinct tk"
  by (fastforce simp: pins_ok_def ticket_ok_def)

lemma pin_path_ok:
  assumes I: "px_ok p0 M others H C T ix pool" and t: "map_of (px_trees ix) d = Some t"
    and tk: "distinct tk" "\<forall>i \<in> set tk. node_at t i \<noteq> None"
    and ps: "\<forall>h \<in> set ps. \<exists>i \<in> set tk. \<exists>n. node_at t i = Some n \<and> h_handle h \<in> set (node_pages n)" and s: "size T < u32_max"
  shows "px_ok p0 M others H C (add_mset (d, tk, ps) T) (fst (pin_path ix d tk)) pool" "px_slots (fst (pin_path ix d tk)) = px_slots ix"
proof -
  note D = px_okD [OF I]
  let ?T = "add_mset (d, tk, ps) T" and ?t = "fold (\<lambda>i. modify_node i pin_node) tk t"
  let ?ix = "ix\<lparr>px_trees := AList.update d ?t (px_trees ix)\<rparr>"
  have eq: "fst (pin_path ix d tk) = ?ix" by (simp add: pin_path_def modify_tree_def t)
  obtain K where K: "radix t K" "tree_pages t K \<subseteq> H d" "tree_marks t K \<subseteq> C d" "\<forall>x \<in> tree_pages t K. handle_ok pool (snd x)"
    using D(2) [OF t] unfolding tree_ok_def by blast
  have f: "fades t K ?t" by (rule fold_fades [OF K(1)]) (rule pin_node_moved)
  note map = fold_modify_map [OF tk(1), of pin_node t]
  have sz: "pins ?T d i \<le> u32_max" for i
  proof -
    have "pins ?T d i \<le> size ?T" by (rule pins_le_size) (use tk(1) ticket_distinct [OF D(6)] in auto)
    then show ?thesis using s by simp
  qed
  have grow: "\<exists>n'. node_at ?t i = Some n' \<and> pins ?T d i \<le> pin_count n' \<and> node_pages n' = node_pages n"
    if i: "node_at t i = Some n" "pins T d i \<le> pin_count n" for i n
    using i sz [of i] tk(1) unfolding map by (auto simp: pins_add count_list_distinct pin_node_def)
  have none: "pins T d i = 0 \<or> (\<exists>n. node_at t i = Some n \<and> pins T d i \<le> pin_count n)" for i
  proof (cases "pins T d i = 0")
    case False
    then obtain tk' ps' where m: "(d, tk', ps') \<in># T" "i \<in> set tk'"
      unfolding pins_def by (auto split: if_splits) (metis count_list_0_iff less_irrefl)
    then show ?thesis using D(6) t unfolding pins_ok_def ticket_ok_def by fastforce
  qed simp
  have new: "ticket_ok ?T d tk ps ?t"
    unfolding ticket_ok_def
  proof (intro conjI ballI)
    fix i assume "i \<in> set tk"
    then obtain n where n: "node_at t i = Some n" using tk(2) by auto
    then have "pins T d i \<le> pin_count n" using none [of i] by auto
    then show "\<exists>n. node_at ?t i = Some n \<and> pins ?T d i \<le> pin_count n" using grow [OF n] by blast
  next
    fix h assume "h \<in> set ps"
    then obtain i n where n: "i \<in> set tk" "node_at t i = Some n" "h_handle h \<in> set (node_pages n)" using ps by blast
    then show "\<exists>i \<in> set tk. \<exists>n. node_at ?t i = Some n \<and> h_handle h \<in> set (node_pages n)"
      unfolding map by (intro bexI [of _ i]) (auto simp: pin_node_def)
  qed (rule tk(1))
  have "pins_ok ?T ?ix"
    unfolding pins_ok_def
  proof (intro ballI, clarify)
    fix e tk' ps' assume m: "(e, tk', ps') \<in># ?T"
    show "\<exists>u. map_of (px_trees ?ix) e = Some u \<and> ticket_ok ?T e tk' ps' u"
    proof (cases "(e, tk', ps') = (d, tk, ps)")
      case True
      then show ?thesis using new by (simp add: update_conv')
    next
      case False
      then have "(e, tk', ps') \<in># T" using m by auto
      then obtain u where u: "map_of (px_trees ix) e = Some u" "ticket_ok T e tk' ps' u" using D(6) unfolding pins_ok_def by blast
      show ?thesis
      proof (cases "e = d")
        case True
        then have "ticket_ok T d tk' ps' t" using u t by simp
        then have "ticket_ok ?T d tk' ps' ?t" by (rule ticket_transfer) (rule grow)
        then show ?thesis using True by (simp add: update_conv')
      next
        case False
        then have "ticket_ok ?T e tk' ps' u" using u(2) by (simp add: ticket_ok_def pins_add)
        then show ?thesis using u(1) False by (simp add: update_conv')
      qed
    qed
  qed
  then show "px_ok p0 M others H C ?T (fst (pin_path ix d tk)) pool" "px_slots (fst (pin_path ix d tk)) = px_slots ix"
    unfolding eq using px_fade [OF I t K(2-4) f refl] by auto
qed

lemma release_pin_ok:
  assumes I: "px_ok p0 M others H C (add_mset (d, tk, ps) T) ix pool"
  shows "px_ok p0 M others H C T (release_pin ix d tk) pool" "px_slots (release_pin ix d tk) = px_slots ix"
proof -
  note D = px_okD [OF I]
  let ?T = "add_mset (d, tk, ps) T"
  obtain t where t: "map_of (px_trees ix) d = Some t" "ticket_ok ?T d tk ps t" using D(6) by (auto simp: pins_ok_def)
  have dist: "distinct tk" using t(2) by (simp add: ticket_ok_def)
  let ?t = "fold (\<lambda>i. modify_node i unpin_node) tk t"
  let ?ix = "ix\<lparr>px_trees := AList.update d ?t (px_trees ix)\<rparr>"
  obtain K where K: "radix t K" "tree_pages t K \<subseteq> H d" "tree_marks t K \<subseteq> C d" "\<forall>x \<in> tree_pages t K. handle_ok pool (snd x)"
    using D(2) [OF t(1)] unfolding tree_ok_def by blast
  have f: "fades t K ?t" by (rule fold_fades [OF K(1)]) (rule pin_node_moved)
  note map = fold_modify_map [OF dist, of unpin_node t]
  have keep: "\<exists>n'. node_at ?t i = Some n' \<and> pins T d i \<le> pin_count n' \<and> node_pages n' = node_pages n"
    if "node_at t i = Some n" "pins ?T d i \<le> pin_count n" for i n
    using that dist unfolding map by (auto simp: pins_add count_list_distinct unpin_node_def)
  have eq: "release_pin ix d tk = ?ix"
    using t(1) update_same [OF t(1)] by (auto simp: release_pin_def modify_tree_def)
  have "pins_ok T ?ix"
    unfolding pins_ok_def
  proof (intro ballI, clarify)
    fix e tk' ps' assume "(e, tk', ps') \<in># T"
    then obtain u where u: "map_of (px_trees ix) e = Some u" "ticket_ok ?T e tk' ps' u" using D(6) unfolding pins_ok_def by fastforce
    show "\<exists>u. map_of (px_trees ?ix) e = Some u \<and> ticket_ok T e tk' ps' u"
    proof (cases "e = d")
      case True
      then have "ticket_ok ?T d tk' ps' t" using u t(1) by simp
      then have "ticket_ok T d tk' ps' ?t" by (rule ticket_transfer) (rule keep)
      then show ?thesis using True by (simp add: update_conv')
    next
      case False
      then show ?thesis using u by (auto simp: update_conv' ticket_ok_def pins_add)
    qed
  qed
  then show "px_ok p0 M others H C T (release_pin ix d tk) pool" "px_slots (release_pin ix d tk) = px_slots ix"
    unfolding eq using px_fade [OF I t(1) K(2-4) f refl] by auto
qed

section \<open>Hits\<close>

text \<open>Pages and a checkpoint for the first \<open>b\<close> tokens of a prompt: published for just these tokens, valid, and complete.\<close>

definition pages_for :: "(token list \<times> page_handle) set \<Rightarrow> token list \<Rightarrow> nat \<Rightarrow> handle list \<Rightarrow> bool" where
  "pages_for H tokens b ps \<longleftrightarrow>
     map h_token_offset ps = map (\<lambda>i. i * PAGE_TOKENS) [0..<b div PAGE_TOKENS]
     \<and> (\<forall>h \<in> set ps. (take (h_token_offset h + PAGE_TOKENS) tokens, h_handle h) \<in> H)"

lemma path_distinct: "sorted_wrt (\<lambda>i j. f i < (f j :: nat)) xs \<Longrightarrow> distinct xs"
  by (induction xs) auto

lemma div_mult_floor: "(b :: nat) - b mod k = b div k * k"
  by (simp add: minus_mod_eq_div_mult)

lemma lookup_checkpoint_ok:
  assumes I: "px_ok p0 M others H C T ix pool" and l: "lookup_checkpoint ix d tokens before pool = (ix', Ok hit)"
  shows "resumable_tokens (hit_lookup hit) < before" "resumable_tokens (hit_lookup hit) \<le> length tokens"
    "(take (resumable_tokens (hit_lookup hit)) tokens, hit_checkpoint hit) \<in> C d"
    "pages_for (H d) tokens (resumable_tokens (hit_lookup hit)) (hit_pages hit)"
    "\<forall>h \<in> set (hit_pages hit). handle_ok pool (h_handle h)"
    "size T < u32_max \<Longrightarrow> px_ok p0 M others H C (add_mset (d, hit_pin hit, hit_pages hit) T) ix' pool \<and> px_slots ix' = px_slots ix"
proof -
  note D = px_okD [OF I]
  let ?w = "walk ix d tokens pool (Some before)"
  obtain e where e: "w_exact ?w = Some e"
    using l by (auto simp: lookup_checkpoint_def Let_def split: if_splits option.splits)
  let ?nodes = "take (ec_ancestors e) (w_path ?w) @ [ec_holder e]"
  let ?ps = "filter (\<lambda>h. h_token_offset h + PAGE_TOKENS \<le> ec_boundary e) (w_pages ?w)"
  have hit: "resumable_tokens (hit_lookup hit) = ec_boundary e" "hit_checkpoint hit = ec_checkpoint e" "hit_pages hit = ?ps"
    "hit_pin hit = ?nodes" "ix' = fst (pin_path ix d ?nodes)"
    using l e by (auto simp: lookup_checkpoint_def Let_def pin_path_def split: if_splits)
  obtain t where t: "map_of (px_trees ix) d = Some t"
    using e by (cases "map_of (px_trees ix) d") (auto simp: walk_def walk_start_def)
  obtain K where K: "radix t K" "tree_pages t K \<subseteq> H d" "tree_marks t K \<subseteq> C d" "\<forall>x \<in> tree_pages t K. handle_ok pool (snd x)"
    using D(2) [OF t] unfolding tree_ok_def by blast
  obtain contig where W: "walk_ok t K tokens pool (Some before) contig ?w" using walk_sound [OF K(1) t] by blast
  then have c: "cand_ok t K tokens (Some before) contig (w_matched_tokens ?w) (w_path ?w) (w_pages ?w) e" using e by (simp add: walk_ok_def)
  have pg: "page_seen t K tokens pool (w_path ?w) (w_matched_tokens ?w) h" if "h \<in> set (w_pages ?w)" for h
    using W that by (simp add: walk_ok_def)
  show "resumable_tokens (hit_lookup hit) < before" "resumable_tokens (hit_lookup hit) \<le> length tokens"
    "(take (resumable_tokens (hit_lookup hit)) tokens, hit_checkpoint hit) \<in> C d"
    using c W K(3) by (auto simp: hit cand_ok_def walk_ok_def)
  have "pages_front contig (w_pages ?w)" "ec_boundary e div PAGE_TOKENS * PAGE_TOKENS \<le> contig"
    using W c unfolding walk_ok_def cand_ok_def div_mult_floor [symmetric] by auto
  note off = filter_front [OF this]
  show "pages_for (H d) tokens (resumable_tokens (hit_lookup hit)) (hit_pages hit)"
    using off pg K(2) by (auto simp: hit pages_for_def page_seen_def)
  show "\<forall>h \<in> set (hit_pages hit). handle_ok pool (h_handle h)" using pg by (auto simp: hit page_seen_def)
  have p: "path_ok t K (w_matched_tokens ?w) (w_path ?w)" using W by (simp add: walk_ok_def)
  have "distinct ?nodes"
    using c path_distinct [of "\<lambda>i. length (K i)" "w_path ?w"] p unfolding cand_ok_def path_ok_def by (force simp: distinct_take)
  moreover have "\<forall>i \<in> set ?nodes. node_at t i \<noteq> None" using c p by (auto simp: cand_ok_def path_ok_def dest: in_set_takeD)
  moreover have "\<forall>h \<in> set ?ps. \<exists>i \<in> set ?nodes. \<exists>n. node_at t i = Some n \<and> h_handle h \<in> set (node_pages n)"
    using c by (simp add: cand_ok_def)
  ultimately show "px_ok p0 M others H C (add_mset (d, hit_pin hit, hit_pages hit) T) ix' pool \<and> px_slots ix' = px_slots ix" if "size T < u32_max"
    using pin_path_ok [OF I t _ _ _ that] unfolding hit by blast
qed

lemma lookup_with_pages_ok:
  assumes I: "px_ok p0 M others H C T ix pool" and l: "lookup_with_pages ix d tokens pool policy = (ix', Hit hit, ps, tk)"
  shows "resumable_tokens hit \<le> length tokens" "\<exists>cid. (take (resumable_tokens hit) tokens, cid) \<in> C d"
    "pages_for (H d) tokens (resumable_tokens hit) ps" "\<forall>h \<in> set ps. handle_ok pool (h_handle h)"
    "size T < u32_max \<Longrightarrow> px_ok p0 M others H C (add_mset (d, tk, ps) T) ix' pool \<and> px_slots ix' = px_slots ix"
proof -
  note D = px_okD [OF I]
  let ?w = "walk ix d tokens pool None"
  let ?b = "w_resumable_tokens ?w"
  let ?ps = "filter (\<lambda>h. h_token_offset h + PAGE_TOKENS \<le> ?b) (w_pages ?w)"
  have hit: "resumable_tokens hit = ?b" "ps = ?ps" "tk = w_path ?w" "ix' = fst (pin_path ix d (w_path ?w))" "?b \<noteq> 0"
    using l by (auto simp: lookup_with_pages_def lookup_inner_def Let_def pin_path_def split: if_splits)
  obtain t where t: "map_of (px_trees ix) d = Some t"
    using hit(5) by (cases "map_of (px_trees ix) d") (auto simp: walk_def walk_start_def)
  obtain K where K: "radix t K" "tree_pages t K \<subseteq> H d" "tree_marks t K \<subseteq> C d" "\<forall>x \<in> tree_pages t K. handle_ok pool (snd x)"
    using D(2) [OF t] unfolding tree_ok_def by blast
  obtain contig where W: "walk_ok t K tokens pool None contig ?w" using walk_sound [OF K(1) t] by blast
  have pg: "page_seen t K tokens pool (w_path ?w) (w_matched_tokens ?w) h" if "h \<in> set (w_pages ?w)" for h
    using W that by (simp add: walk_ok_def)
  have b: "?b \<le> contig" "contig \<le> length tokens" "\<exists>cid. (take ?b tokens, cid) \<in> tree_marks t K"
    using W hit(5) by (auto simp: walk_ok_def)
  then show "resumable_tokens hit \<le> length tokens" "\<exists>cid. (take (resumable_tokens hit) tokens, cid) \<in> C d"
    using K(3) by (auto simp: hit)
  have "pages_front contig (w_pages ?w)" using W by (simp add: walk_ok_def)
  moreover have "?b div PAGE_TOKENS * PAGE_TOKENS \<le> contig" using b(1) order_trans [OF div_times_less_eq_dividend] by blast
  ultimately show "pages_for (H d) tokens (resumable_tokens hit) ps"
    using filter_front pg K(2) by (auto simp: hit pages_for_def page_seen_def)
  show "\<forall>h \<in> set ps. handle_ok pool (h_handle h)" using pg by (auto simp: hit page_seen_def)
  have p: "path_ok t K (w_matched_tokens ?w) (w_path ?w)" using W by (simp add: walk_ok_def)
  then have "distinct (w_path ?w)" "\<forall>i \<in> set (w_path ?w). node_at t i \<noteq> None"
    using path_distinct [of "\<lambda>i. length (K i)" "w_path ?w"] by (auto simp: path_ok_def)
  moreover have "\<forall>h \<in> set ?ps. \<exists>i \<in> set (w_path ?w). \<exists>n. node_at t i = Some n \<and> h_handle h \<in> set (node_pages n)"
    using pg by (auto simp: page_seen_def)
  ultimately show "px_ok p0 M others H C (add_mset (d, tk, ps) T) ix' pool \<and> px_slots ix' = px_slots ix" if "size T < u32_max"
    using pin_path_ok [OF I t _ _ _ that] unfolding hit by blast
qed

end
