(* ===== verification/Spec2Isabelle.thy ===== *)
theory Spec2Isabelle
  imports Session_Props Kv_Slots_Props Batch_Props Scheduler_Props Fair_Queue_Props Checkpoint_Props Shadow_Roots Prefix_Pins
begin

text \<open>
  A verification library for the serving core of \<^verbatim>\<open>hipfire\<close>, an LLM inference engine for AMD GPUs written
  in Rust. Paths below are relative to the repository's \<^verbatim>\<open>crates/\<close> directory.

  \<^bold>\<open>The program.\<close> A request belongs to a session. The admission controller grants the session a context within
  the device budget; the session table gives it a slot; the slot pool backs the slot with pages of the
  shared KV arena, which the page pool allocates, shares between slots, copies on write and reclaims.
  Each step, the fairness queue grants rows to requests, the scheduler allots rows to slots, and the
  batch planner turns them into a plan that is published after the device has run it. The tile list and the
  row gate check what the attention kernels are launched with. The checkpoint pool keeps recurrent
  states under a cache-domain identity, and its planner picks the boundary a prompt restarts from. The
  byte arenas lay the weights and their half-precision shadows out in bounded device roots.

  \<^bold>\<open>Theories and sources.\<close>
  \<^item> \<^verbatim>\<open>Rust_Prelude\<close>: Rust results, checked, saturating and wrapping arithmetic, vectors, association lists as
    hash maps, the collection \<open>run\<close> that evaluates concrete states.
  \<^item> \<^verbatim>\<open>Kv_Slots\<close>, \<^verbatim>\<open>Kv_Slots_Props\<close>: \<^verbatim>\<open>rdna-compute/src/kv_slots.rs\<close>; descriptors, tiles, memory preflight, row gate.
  \<^item> \<^verbatim>\<open>Page_Pool\<close>: \<^verbatim>\<open>rdna-compute/src/page_pool.rs\<close>, the record \<open>page_pool\<close> with per-page metadata and one
    definition per method. \<^verbatim>\<open>Page_Pool_Inv\<close> has the invariant against a ledger of holders, \<^verbatim>\<open>Page_Pool_Cow\<close> the
    copy-on-write transaction, \<^verbatim>\<open>Page_Pool_Steps\<close> the state machine of pool, tables and plans,
    \<^verbatim>\<open>Page_Pool_Props\<close> what clients rely on.
  \<^item> \<^verbatim>\<open>Slot_Pool\<close>: \<^verbatim>\<open>rdna-compute/src/slot_pool.rs\<close>. \<^verbatim>\<open>Slot_Pool_Inv\<close> proves the simulation of every method by
    page-pool steps, \<^verbatim>\<open>Slot_Pool_Props\<close> isolation, leases, lengths and legacy slabs.
  \<^item> \<^verbatim>\<open>Admission\<close>: \<^verbatim>\<open>hipfire-runtime/src/admission.rs\<close>.
  \<^item> \<^verbatim>\<open>Serve_Interfaces\<close>: the locales \<open>slot_source\<close> and \<open>grant_book\<close>, what a session table needs of the slot pool
    and of the admission controller; both are interpreted on the models of those components.
  \<^item> \<^verbatim>\<open>Session_Table\<close>: \<^verbatim>\<open>hipfire-runtime/src/session_table.rs\<close> and \<^verbatim>\<open>prefix.rs\<close>. \<^verbatim>\<open>Session_Inv\<close> and
    \<^verbatim>\<open>Session_Props\<close> relate sessions, slots and grants through the interpretations.
  \<^item> \<^verbatim>\<open>Scheduler\<close>, \<^verbatim>\<open>Scheduler_Props\<close>: \<^verbatim>\<open>hipfire-runtime/src/scheduler.rs\<close>.
  \<^item> \<^verbatim>\<open>Batch_Planner\<close>, \<^verbatim>\<open>Batch_Props\<close>: \<^verbatim>\<open>hipfire-runtime/src/slot_batch.rs\<close>.
  \<^item> \<^verbatim>\<open>Fair_Queue\<close>, \<^verbatim>\<open>Fair_Queue_Props\<close>: \<^verbatim>\<open>hipfire-runtime/src/serve_fairness.rs\<close>.
  \<^item> \<^verbatim>\<open>Byte_Codec\<close>, \<^verbatim>\<open>Serve_Contract\<close>: \<^verbatim>\<open>hipfire-runtime/src/serve_contract.rs\<close>; the locales \<open>codec\<close> and
    \<open>counted_codec\<close> state what a reader and its writer promise each other, and every reader of the source,
    the whole cache domain included, is an interpretation.
  \<^item> \<^verbatim>\<open>Checkpoint_Pool\<close>, \<^verbatim>\<open>Checkpoint_Props\<close>: \<^verbatim>\<open>hipfire-runtime/src/checkpoint_pool.rs\<close>.
  \<^item> \<^verbatim>\<open>Byte_Arena\<close>, \<^verbatim>\<open>Byte_Arena_Props\<close>: \<^verbatim>\<open>rdna-compute/src/byte_arena.rs\<close>.

  \<^bold>\<open>How code is modelled.\<close> A struct is a record, an enum a datatype, a method a function from the state to the
  new state and the result; a \<^verbatim>\<open>Result\<close> is a sum with the error on the left, an early return a branch, a
  panic an error value. A \<^verbatim>\<open>usize\<close> or \<^verbatim>\<open>u64\<close> is a natural number with the bound written out where the code
  checks or could wrap; generations are 32-bit words, encoded integers 64-bit words, floats bit patterns.
  Hash maps are association lists with distinct keys, and no result proved here depends on their
  order: LRU choices are made by stamps that are proved distinct. Clocks are arguments. What is not in the
  repository is an argument: SHA-256, the model and tokenizer digests, the checkpoint blobs and the
  allocating device. No definition uses fuel: loops that are not structural have termination proofs by a
  shrinking table, window or position.

  \<^bold>\<open>What is shown.\<close> Page ownership is exact in every reachable state, so no page leaks, none has two writers and
  old handles stay dead; copy-on-write commits or rolls back; slots, and sessions over slots and grants,
  inherit this. Budgets of bytes, rows and tokens are never exceeded. Row allocation wastes no row and
  serves every prefill in bounded time; verify rows never starve others; a step is published whole or not
  at all. Cache-domain bytes are a bijection with well-formed domains. Checkpoint captures lose no
  blob and spare pinned entries, and a prompt resumes at the deepest state of exactly its own prefix.
  Arena members are aligned, bounded and disjoint, and shadow roots are released exactly once, after a
  successful quiesce. Where code and documentation disagree, a theorem evaluates the code on a concrete state.

  \<^bold>\<open>Not modelled.\<close> The GPU kernels and their launch code (\<^verbatim>\<open>gemm.rs\<close>, \<^verbatim>\<open>attention.rs\<close>, \<^verbatim>\<open>gemv.rs\<close>, \<^verbatim>\<open>tensor_ops.rs\<close> and the HIP
  sources): their meaning is floating-point work on a device that has no model here. The model families
  (\<^verbatim>\<open>hipfire-arch-*\<close>), quantizers, the instruction-level tools (\<^verbatim>\<open>peacemaker-*\<close>, \<^verbatim>\<open>railgun*\<close>, \<^verbatim>\<open>redline*\<close>),
  drivers' bindings (\<^verbatim>\<open>hip-bridge\<close>, \<^verbatim>\<open>hsa-bridge\<close>, \<^verbatim>\<open>va-bridge\<close>), the command line, daemon and user interfaces: mostly
  foreign calls, I/O and numerics. In \<^verbatim>\<open>hipfire-runtime\<close> the radix prefix index, the session cache, the swap
  store, the tokenizer and the speculative decoders remain to be modelled. Device uploads, and the text of
  error messages, are left out of the modelled files.
\<close>

end
